(* ===== verification/Prelude.thy ===== *)
theory Prelude
  imports Main "HOL-Library.Word"
begin

unbundle bit_operations_syntax

text \<open>
  Shared vocabulary of the development.

  \<^item> Machine types: \<open>byte\<close>, \<open>u16\<close>, \<open>u32\<close> and \<open>u64\<close> are the words of the C types
    \<open>uchar\<close>, \<open>ushort\<close>, \<open>uint\<close> and \<open>uint64_t\<close>.
  \<^item> Kernel operations: an operation maps a state to an \<open>outcome\<close>.  \<open>Ret a s\<close> is a normal
    return, \<open>Panic m\<close> a call of the kernel's \<open>panic\<close>, \<open>Swtch s\<close> a call of \<open>swtch\<close> that
    leaves the current kernel thread in state \<open>s\<close>, and \<open>Hang\<close> a loop that never ends.
  \<^item> A weakest precondition \<open>wp m Q s\<close> (total correctness: \<open>m\<close> returns, and its result
    satisfies \<open>Q\<close>) with one rewrite rule per combinator, collected in \<open>wp_rules\<close>.
  \<^item> Generic lemmas on lists used by the table scans and the copy loops.
\<close>

section \<open>Machine types\<close>

type_synonym byte = "8 word"
type_synonym u16 = "16 word"
type_synonym u32 = "32 word"
type_synonym u64 = "64 word"

section \<open>Outcomes of kernel code\<close>

datatype ('a, 's) outcome =
    Ret 'a 's
  | Panic string
  | Swtch 's
  | Hang

type_synonym ('a, 's) kop = "'s \<Rightarrow> ('a, 's) outcome"

named_theorems wp_rules \<open>rewrite rules for weakest preconditions\<close>

definition ret :: "'a \<Rightarrow> ('a, 's) kop" where
  "ret a = (\<lambda>s. Ret a s)"

definition panic :: "string \<Rightarrow> ('a, 's) kop" where
  "panic m = (\<lambda>s. Panic m)"

definition hang :: "('a, 's) kop" where
  "hang = (\<lambda>s. Hang)"

definition obind :: "('a, 's) kop \<Rightarrow> ('a \<Rightarrow> ('b, 's) kop) \<Rightarrow> ('b, 's) kop" where
  "obind m f = (\<lambda>s. case m s of
      Ret a t \<Rightarrow> f a t
    | Panic msg \<Rightarrow> Panic msg
    | Swtch t \<Rightarrow> Swtch t
    | Hang \<Rightarrow> Hang)"

definition oseq :: "('a, 's) kop \<Rightarrow> ('b, 's) kop \<Rightarrow> ('b, 's) kop" where
  "oseq m n = obind m (\<lambda>_. n)"

definition gets :: "('s \<Rightarrow> 'a) \<Rightarrow> ('a, 's) kop" where
  "gets f = (\<lambda>s. Ret (f s) s)"

definition modify :: "('s \<Rightarrow> 's) \<Rightarrow> (unit, 's) kop" where
  "modify f = (\<lambda>s. Ret () (f s))"

text \<open>The macros \<open>assert\<close> and \<open>assertm\<close> of the kernel: panic when the condition is false.\<close>

definition kassert :: "bool \<Rightarrow> string \<Rightarrow> (unit, 's) kop" where
  "kassert b m = (if b then ret () else panic m)"

definition kwhen :: "bool \<Rightarrow> (unit, 's) kop \<Rightarrow> (unit, 's) kop" where
  "kwhen b m = (if b then m else ret ())"

fun foreach :: "'i list \<Rightarrow> ('i \<Rightarrow> (unit, 's) kop) \<Rightarrow> (unit, 's) kop" where
  "foreach [] f = ret ()"
| "foreach (i # is) f = oseq (f i) (foreach is f)"

section \<open>Weakest preconditions\<close>

definition wp :: "('a, 's) kop \<Rightarrow> ('a \<Rightarrow> 's \<Rightarrow> bool) \<Rightarrow> 's \<Rightarrow> bool" where
  "wp m Q s \<longleftrightarrow> (case m s of Ret a t \<Rightarrow> Q a t | _ \<Rightarrow> False)"

lemma wp_ret [wp_rules]: "wp (ret a) Q s = Q a s"
  by (simp add: wp_def ret_def)

lemma wp_panic [wp_rules]: "wp (panic m) Q s = False"
  by (simp add: wp_def panic_def)

lemma wp_hang [wp_rules]: "wp hang Q s = False"
  by (simp add: wp_def hang_def)

lemma wp_obind [wp_rules]: "wp (obind m f) Q s = wp m (\<lambda>a. wp (f a) Q) s"
  by (simp add: wp_def obind_def split: outcome.splits)

lemma wp_oseq [wp_rules]: "wp (oseq m n) Q s = wp m (\<lambda>_. wp n Q) s"
  by (simp add: oseq_def wp_obind)

lemma wp_gets [wp_rules]: "wp (gets f) Q s = Q (f s) s"
  by (simp add: wp_def gets_def)

lemma wp_modify [wp_rules]: "wp (modify f) Q s = Q () (f s)"
  by (simp add: wp_def modify_def)

lemma wp_kassert [wp_rules]: "wp (kassert b m) Q s = (b \<and> Q () s)"
  by (simp add: kassert_def wp_ret wp_panic)

lemma wp_kwhen [wp_rules]: "wp (kwhen b m) Q s = (if b then wp m Q s else Q () s)"
  by (simp add: kwhen_def wp_ret)

lemma wp_if [wp_rules]: "wp (if b then m else n) Q s = (if b then wp m Q s else wp n Q s)"
  by simp

lemma wp_ret_fun: "wp (ret a) Q = Q a"
  by (rule ext) (simp add: wp_ret)

lemma wp_iff: "wp m Q s \<longleftrightarrow> (\<exists>a t. m s = Ret a t \<and> Q a t)"
  by (simp add: wp_def split: outcome.splits)

lemma wpE: "wp m Q s \<Longrightarrow> (\<And>a t. m s = Ret a t \<Longrightarrow> Q a t \<Longrightarrow> R) \<Longrightarrow> R"
  by (auto simp: wp_iff)

lemma wp_mono: "wp m Q s \<Longrightarrow> (\<And>a t. Q a t \<Longrightarrow> R a t) \<Longrightarrow> wp m R s"
  by (auto simp: wp_iff)

lemma wp_conj: "wp m Q s \<Longrightarrow> wp m R s \<Longrightarrow> wp m (\<lambda>a t. Q a t \<and> R a t) s"
  by (auto simp: wp_iff)

lemma wp_Ret: "m s = Ret a t \<Longrightarrow> wp m Q s = Q a t"
  by (simp add: wp_def)

lemma wp_eq_Ret: "wp m (\<lambda>b u. b = a \<and> u = t) s \<Longrightarrow> m s = Ret a t"
  by (auto simp: wp_iff)

lemma wp_foreach_Nil [wp_rules]: "wp (foreach [] f) Q s = Q () s"
  by (simp add: wp_ret)

lemma wp_foreach_Cons [wp_rules]:
  "wp (foreach (i # is) f) Q s = wp (f i) (\<lambda>_. wp (foreach is f) Q) s"
  by (simp add: wp_oseq)

text \<open>A loop over a list keeps an invariant that mentions what is left to do.\<close>

lemma wp_foreach_inv:
  assumes "I is s"
    and "\<And>i js t. I (i # js) t \<Longrightarrow> wp (f i) (\<lambda>_. I js) t"
    and "\<And>t. I [] t \<Longrightarrow> Q () t"
  shows "wp (foreach is f) Q s"
  using assms(1)
proof (induction "is" arbitrary: s)
  case Nil
  then show ?case by (simp add: wp_rules assms(3))
next
  case (Cons i js)
  then show ?case
    by (auto simp: wp_rules intro: wp_mono [OF assms(2)])
qed

text \<open>Executing the combinators: the same rules as equations on outcomes.\<close>

lemmas kop_defs = ret_def panic_def hang_def obind_def oseq_def gets_def modify_def
  kassert_def kwhen_def

lemma obind_Ret: "m s = Ret a t \<Longrightarrow> obind m f s = f a t"
  by (simp add: obind_def)

lemma obind_Panic: "m s = Panic e \<Longrightarrow> obind m f s = Panic e"
  by (simp add: obind_def)

section \<open>Scanning tables\<close>

text \<open>
  The kernel's tables are arrays scanned from the front for the first entry that satisfies
  a test; \<open>find_idx\<close> is that loop.
\<close>

fun find_idx :: "('a \<Rightarrow> bool) \<Rightarrow> 'a list \<Rightarrow> nat option" where
  "find_idx P [] = None"
| "find_idx P (x # xs) = (if P x then Some 0 else map_option Suc (find_idx P xs))"

lemma find_idx_None: "find_idx P xs = None \<longleftrightarrow> (\<forall>x \<in> set xs. \<not> P x)"
  by (induction xs) auto

lemma find_idx_Some:
  "find_idx P xs = Some i \<longleftrightarrow> i < length xs \<and> P (xs ! i) \<and> (\<forall>j < i. \<not> P (xs ! j))"
proof (induction xs arbitrary: i)
  case Nil
  then show ?case by simp
next
  case (Cons x xs)
  then show ?case
    by (cases i) (auto simp: nth_Cons split: nat.splits)
qed

lemma find_idx_Some_nth: "find_idx P xs = Some i \<Longrightarrow> P (xs ! i)"
  and find_idx_Some_less: "find_idx P xs = Some i \<Longrightarrow> i < length xs"
  by (simp_all add: find_idx_Some)

lemma find_idx_cong: "(\<And>x. x \<in> set xs \<Longrightarrow> P x = Q x) \<Longrightarrow> find_idx P xs = find_idx Q xs"
  by (induction xs) auto

section \<open>Lists\<close>

lemma nth_list_update_if:
  "i < length xs \<Longrightarrow> xs[i := x] ! j = (if i = j then x else xs ! j)"
  by (simp add: nth_list_update)

lemma filter_length_update:
  "i < length xs \<Longrightarrow> length (filter P (xs[i := x])) + (if P (xs ! i) then 1 else 0) =
     length (filter P xs) + (if P x then 1 else 0)"
proof (induction xs arbitrary: i)
  case Nil
  then show ?case by simp
next
  case (Cons y ys)
  then show ?case by (cases i) (fastforce split: if_splits)+
qed

lemma take_drop_split: "n \<le> length xs \<Longrightarrow> take m (drop n xs) @ drop (n + m) xs = drop n xs"
  by (metis add.commute append_take_drop_id drop_drop)

lemma take_add_drop: "take (n + m) xs = take n xs @ take m (drop n xs)"
  by (rule take_add)

section \<open>Words\<close>

lemma sint_u32:
  assumes "unat (x :: u32) < 2 ^ 31"
  shows "sint x = uint x"
proof -
  have "uint x < 2 ^ 31"
    using assms unfolding unat_eq_nat_uint by (simp only: nat_less_iff uint_ge_0) simp
  moreover have "- (2 ^ 31) \<le> uint x" by (rule order_trans [OF _ uint_ge_0]) simp
  ultimately show ?thesis
    by (simp only: sint_uint signed_take_bit_int_eq_self_iff) simp
qed

end
