(* ===== verification/Kstate.thy ===== *)
theory Kstate
  imports Prelude
begin

unbundle bit_operations_syntax

text \<open>
  The data of the kernel: the structures of \<open>inc/*.h\<close> and the global variables of
  \<open>kernel/*.c\<close>, as records, and the record \<open>kst\<close> that holds them all.

  Conventions.
  \<^item> An array is a list; a pointer into a static array (\<open>struct proc *\<close>, \<open>struct file_info *\<close>,
    \<open>struct buf *\<close>) is an index, an optional index where the pointer may be null.
  \<^item> A lock embedded in a structure is named by where it lives (\<open>lockid\<close>, \<open>slkid\<close>), and the
    state maps the names to the locks.  A sleep channel is the address of some object; the
    objects the kernel sleeps on are the constructors of \<open>chan\<close>.
  \<^item> A page handed out by \<open>kalloc\<close> is known by its kernel address.  Its content is kept once per
    type the code stores there (page table, page descriptors, pipe, raw bytes); filling a page
    with a byte (\<open>memset\<close>) sets all of these views.
  \<^item> \<open>int\<close> counters are HOL integers, \<open>uint\<close> and \<open>uint64_t\<close> are words.  Fields that serve
    debugging only (lock names, call stacks) are left out.
\<close>

section \<open>Parameters (inc/param.h, inc/fs.h, inc/stat.h, inc/fcntl.h)\<close>

definition NPROC :: nat where "NPROC = 64"
definition NOFILE :: nat where "NOFILE = 16"
definition NFILE :: nat where "NFILE = 100"
definition NINODE :: nat where "NINODE = 50"
definition NDEV :: nat where "NDEV = 10"
definition NBUF :: nat where "NBUF = 30"
definition ROOTDEV :: u32 where "ROOTDEV = 1"
definition ROOTINO :: u32 where "ROOTINO = 1"
definition INODEFILEINO :: u32 where "INODEFILEINO = 0"
definition BSIZE :: nat where "BSIZE = 512"
definition DIRSIZ :: nat where "DIRSIZ = 14"
definition NREGIONS :: nat where "NREGIONS = 3"
definition PIPE_BUFFER_SIZE :: nat where "PIPE_BUFFER_SIZE = 2048"

definition T_DIR :: u16 where "T_DIR = 1"
definition T_FILE :: u16 where "T_FILE = 2"
definition T_DEV :: u16 where "T_DEV = 3"

definition O_RDONLY :: u32 where "O_RDONLY = 0"
definition O_WRONLY :: u32 where "O_WRONLY = 1"
definition O_RDWR :: u32 where "O_RDWR = 2"
definition O_CREATE :: u32 where "O_CREATE = 0x200"

definition CONSOLE :: u16 where "CONSOLE = 1"

lemmas param_defs = NPROC_def NOFILE_def NFILE_def NINODE_def NDEV_def NBUF_def ROOTDEV_def
  ROOTINO_def INODEFILEINO_def BSIZE_def DIRSIZ_def NREGIONS_def PIPE_BUFFER_SIZE_def
  T_DIR_def T_FILE_def T_DEV_def O_RDONLY_def O_WRONLY_def O_RDWR_def O_CREATE_def CONSOLE_def

section \<open>Locks (inc/spinlock.h, inc/sleeplock.h)\<close>

datatype slkid =
    BufLock nat
  | InodeLock nat
  | InodefileLock

datatype lockid =
    KmemLock
  | PtableLock
  | BcacheLock
  | IcacheLock
  | FileTableLock
  | TicksLock
  | ConsLock
  | IdeLock
  | PipeLock u64
  | SleepLk slkid

datatype chan =
    ChTicks
  | ChProc nat
  | ChSleeplock slkid
  | ChPipeNotFull u64
  | ChPipeNotEmpty u64
  | ChInput
  | ChBuf nat

record spinlock =
  locked :: bool
  lcpu :: "nat option"

record sleeplock =
  slocked :: bool
  spid :: int

section \<open>Buffers, inodes, files and pipes (inc/buf.h, inc/fs.h, inc/file.h)\<close>

record buf =
  bflags :: u32
  bdev :: u32
  blockno :: u32
  refcnt :: u32
  bprev :: nat
  bnext :: nat
  bdata :: "byte list"

record extent =
  startblkno :: u32
  nblocks :: u32

record superblock =
  sb_size :: u32
  sb_nblocks :: u32
  sb_bmapstart :: u32
  sb_inodestart :: u32

record dinode =
  di_type :: u16
  di_devid :: u16
  di_size :: u32
  di_data :: extent

record dirent =
  de_inum :: u16
  de_name :: "byte list"

record inode =
  idev :: u32
  inum :: u32
  iref :: int
  ivalid :: bool
  itype :: u16
  idevid :: u16
  isize :: u32
  idata :: extent

datatype iptr = INode nat | InodeFile

record file_info =
  fnode :: "iptr option"
  fpipe :: u64
  isPipe :: bool
  foffset :: u32
  fmode :: u32
  ref_count :: u32
  fpath :: "byte list option"
  gfd :: nat

record pipe =
  read_count :: u32
  write_count :: u32
  read_offset :: u32
  write_offset :: u32
  pbuffer :: "nat \<Rightarrow> byte"

record stat =
  st_type :: u16
  st_dev :: u32
  st_ino :: u32
  st_size :: u32

section \<open>Address spaces (inc/vspace.h, inc/mmu.h)\<close>

record vpage_info =
  used :: u16
  ppn :: u64
  present :: u16
  writable :: u16

record vpi_page =
  infos :: "nat \<Rightarrow> vpage_info"
  vnext :: u64

datatype vr_direction = VRDIR_UP | VRDIR_DOWN

record vregion =
  dir :: vr_direction
  va_base :: u64
  vsize :: u64
  pages :: u64

record vspace =
  regions :: "vregion list"
  pgtbl :: u64

record core_map_entry =
  available :: bool
  cuser :: bool
  cva :: u64

section \<open>Processes (inc/proc.h, inc/trap.h)\<close>

datatype procstate = UNUSED | EMBRYO | SLEEPING | RUNNABLE | RUNNING | ZOMBIE

record trap_frame =
  rax :: u64
  rbx :: u64
  rcx :: u64
  rdx :: u64
  rbp :: u64
  rsi :: u64
  rdi :: u64
  r8 :: u64
  r9 :: u64
  r10 :: u64
  r11 :: u64
  r12 :: u64
  r13 :: u64
  r14 :: u64
  r15 :: u64
  trapno :: u64
  err :: u64
  rip :: u64
  cs :: u64
  rflags :: u64
  rsp :: u64
  ss :: u64

datatype kcode = Forkret | Resumed

record proc =
  pvspace :: vspace
  kstack :: u64
  pstate :: procstate
  pid :: int
  parent :: "nat option"
  tf :: trap_frame
  pcontext :: kcode
  pchan :: "chan option"
  killed :: bool
  pname :: "byte list"
  files :: "nat option list"

section \<open>The state of the kernel\<close>

record cpu_state =
  eflags_if :: bool
  ncli :: int
  intena :: bool
  curproc :: "nat option"
  ts_rsp0 :: u64
  cr3 :: u64

record kmem_state =
  npages :: u32
  pages_in_use :: int
  pages_in_swap :: int
  free_pages :: int
  core_map :: "core_map_entry list"
  use_lock :: bool
  kend :: u64
  rand_next :: u64

record page_views =
  pt_view :: "u64 \<Rightarrow> nat \<Rightarrow> u64"
  vpi_view :: "u64 \<Rightarrow> vpi_page"
  pipe_view :: "u64 \<Rightarrow> pipe"
  byte_view :: "u64 \<Rightarrow> nat \<Rightarrow> byte"
  kpml4 :: u64

record ptable_state =
  procs :: "proc list"
  initproc :: "nat option"
  nextpid :: int
  forkret_first :: bool

record bcache_state =
  bufs :: "buf list"
  head_prev :: nat
  head_next :: nat
  num_disk_reads :: int
  crashn_enable :: bool
  crashn :: int

record disk_state =
  disksize :: nat
  memdisk :: "nat \<Rightarrow> byte list"

record icache_state =
  inodes :: "inode list"
  inodefile :: inode
  sb :: superblock

record input_state =
  ibuf :: "byte list"
  input_r :: u32
  input_w :: u32
  input_e :: u32

record cons_state =
  input :: input_state
  cons_locking :: bool
  cons_out :: "int list"
  devsw_console :: bool
  kbd_shift :: u32
  uart :: bool

record kst =
  cpu :: cpu_state
  locks :: "lockid \<Rightarrow> spinlock"
  slocks :: "slkid \<Rightarrow> sleeplock"
  kmem :: kmem_state
  pviews :: page_views
  ptable :: ptable_state
  bcache :: bcache_state
  disk :: disk_state
  icache :: icache_state
  file_table :: "file_info list"
  cons :: cons_state
  ticks :: u32
  num_page_faults :: int

section \<open>The state when the kernel is loaded\<close>

text \<open>Global variables without an initialiser are zero; the tables have their declared sizes.\<close>

definition zero_frame :: trap_frame where
  "zero_frame = \<lparr>rax = 0, rbx = 0, rcx = 0, rdx = 0, rbp = 0, rsi = 0, rdi = 0, r8 = 0, r9 = 0, r10 = 0, r11 = 0, r12 = 0, r13 = 0, r14 = 0, r15 = 0, trapno = 0, err = 0, rip = 0, cs = 0, rflags = 0, rsp = 0, ss = 0\<rparr>"

definition zero_buf :: buf where
  "zero_buf = \<lparr>bflags = 0, bdev = 0, blockno = 0, refcnt = 0, bprev = 0, bnext = 0,
     bdata = replicate BSIZE 0\<rparr>"

definition zero_inode :: inode where
  "zero_inode = \<lparr>idev = 0, inum = 0, iref = 0, ivalid = False, itype = 0, idevid = 0, isize = 0,
     idata = \<lparr>startblkno = 0, nblocks = 0\<rparr>\<rparr>"

definition zero_file :: file_info where
  "zero_file = \<lparr>fnode = None, fpipe = 0, isPipe = False, foffset = 0, fmode = 0, ref_count = 0,
     fpath = None, gfd = 0\<rparr>"

definition zero_region :: vregion where
  "zero_region = \<lparr>dir = VRDIR_UP, va_base = 0, vsize = 0, pages = 0\<rparr>"

definition zero_proc :: proc where
  "zero_proc = \<lparr>pvspace = \<lparr>regions = replicate NREGIONS zero_region, pgtbl = 0\<rparr>, kstack = 0,
     pstate = UNUSED, pid = 0, parent = None, tf = zero_frame, pcontext = Resumed, pchan = None,
     killed = False, pname = replicate 16 0, files = replicate NOFILE None\<rparr>"

definition zero_views :: page_views where
  "zero_views = \<lparr>pt_view = (\<lambda>_ _. 0),
     vpi_view = (\<lambda>_. \<lparr>infos = (\<lambda>_. \<lparr>used = 0, ppn = 0, present = 0, writable = 0\<rparr>), vnext = 0\<rparr>),
     pipe_view = (\<lambda>_. \<lparr>read_count = 0, write_count = 0, read_offset = 0, write_offset = 0,
       pbuffer = (\<lambda>_. 0)\<rparr>),
     byte_view = (\<lambda>_ _. 0), kpml4 = 0\<rparr>"

definition zero_kst :: kst where
  "zero_kst = \<lparr>
     cpu = \<lparr>eflags_if = False, ncli = 0, intena = False, curproc = None, ts_rsp0 = 0, cr3 = 0\<rparr>,
     locks = (\<lambda>_. \<lparr>locked = False, lcpu = None\<rparr>),
     slocks = (\<lambda>_. \<lparr>slocked = False, spid = 0\<rparr>),
     kmem = \<lparr>npages = 0, pages_in_use = 0, pages_in_swap = 0, free_pages = 0, core_map = [],
       use_lock = False, kend = 0, rand_next = 1\<rparr>,
     pviews = zero_views,
     ptable = \<lparr>procs = replicate NPROC zero_proc, initproc = None, nextpid = 1, forkret_first = True\<rparr>,
     bcache = \<lparr>bufs = replicate NBUF zero_buf, head_prev = 0, head_next = 0, num_disk_reads = 0,
       crashn_enable = False, crashn = 0\<rparr>,
     disk = \<lparr>disksize = 0, memdisk = (\<lambda>_. replicate BSIZE 0)\<rparr>,
     icache = \<lparr>inodes = replicate NINODE zero_inode, inodefile = zero_inode,
       sb = \<lparr>sb_size = 0, sb_nblocks = 0, sb_bmapstart = 0, sb_inodestart = 0\<rparr>\<rparr>,
     file_table = replicate NFILE zero_file,
     cons = \<lparr>input = \<lparr>ibuf = replicate 128 0, input_r = 0, input_w = 0, input_e = 0\<rparr>,
       cons_locking = False, cons_out = [], devsw_console = False, kbd_shift = 0, uart = False\<rparr>,
     ticks = 0, num_page_faults = 0\<rparr>"

section \<open>The order of updates\<close>

text \<open>Updates of different components commute; \<open>kst_comm\<close> sorts them, the processor last.\<close>

lemma kst_comm:
  "s\<lparr>cpu := v_cpu, locks := v_locks\<rparr> =
     s\<lparr>locks := v_locks, cpu := v_cpu\<rparr>"
  "s\<lparr>cpu := v_cpu, slocks := v_slocks\<rparr> =
     s\<lparr>slocks := v_slocks, cpu := v_cpu\<rparr>"
  "s\<lparr>cpu := v_cpu, kmem := v_kmem\<rparr> =
     s\<lparr>kmem := v_kmem, cpu := v_cpu\<rparr>"
  "s\<lparr>cpu := v_cpu, pviews := v_pviews\<rparr> =
     s\<lparr>pviews := v_pviews, cpu := v_cpu\<rparr>"
  "s\<lparr>cpu := v_cpu, ptable := v_ptable\<rparr> =
     s\<lparr>ptable := v_ptable, cpu := v_cpu\<rparr>"
  "s\<lparr>cpu := v_cpu, bcache := v_bcache\<rparr> =
     s\<lparr>bcache := v_bcache, cpu := v_cpu\<rparr>"
  "s\<lparr>cpu := v_cpu, disk := v_disk\<rparr> =
     s\<lparr>disk := v_disk, cpu := v_cpu\<rparr>"
  "s\<lparr>cpu := v_cpu, icache := v_icache\<rparr> =
     s\<lparr>icache := v_icache, cpu := v_cpu\<rparr>"
  "s\<lparr>cpu := v_cpu, file_table := v_file_table\<rparr> =
     s\<lparr>file_table := v_file_table, cpu := v_cpu\<rparr>"
  "s\<lparr>cpu := v_cpu, cons := v_cons\<rparr> =
     s\<lparr>cons := v_cons, cpu := v_cpu\<rparr>"
  "s\<lparr>cpu := v_cpu, ticks := v_ticks\<rparr> =
     s\<lparr>ticks := v_ticks, cpu := v_cpu\<rparr>"
  "s\<lparr>cpu := v_cpu, num_page_faults := v_num_page_faults\<rparr> =
     s\<lparr>num_page_faults := v_num_page_faults, cpu := v_cpu\<rparr>"
  "s\<lparr>locks := v_locks, slocks := v_slocks\<rparr> =
     s\<lparr>slocks := v_slocks, locks := v_locks\<rparr>"
  "s\<lparr>locks := v_locks, kmem := v_kmem\<rparr> =
     s\<lparr>kmem := v_kmem, locks := v_locks\<rparr>"
  "s\<lparr>locks := v_locks, pviews := v_pviews\<rparr> =
     s\<lparr>pviews := v_pviews, locks := v_locks\<rparr>"
  "s\<lparr>locks := v_locks, ptable := v_ptable\<rparr> =
     s\<lparr>ptable := v_ptable, locks := v_locks\<rparr>"
  "s\<lparr>locks := v_locks, bcache := v_bcache\<rparr> =
     s\<lparr>bcache := v_bcache, locks := v_locks\<rparr>"
  "s\<lparr>locks := v_locks, disk := v_disk\<rparr> =
     s\<lparr>disk := v_disk, locks := v_locks\<rparr>"
  "s\<lparr>locks := v_locks, icache := v_icache\<rparr> =
     s\<lparr>icache := v_icache, locks := v_locks\<rparr>"
  "s\<lparr>locks := v_locks, file_table := v_file_table\<rparr> =
     s\<lparr>file_table := v_file_table, locks := v_locks\<rparr>"
  "s\<lparr>locks := v_locks, cons := v_cons\<rparr> =
     s\<lparr>cons := v_cons, locks := v_locks\<rparr>"
  "s\<lparr>locks := v_locks, ticks := v_ticks\<rparr> =
     s\<lparr>ticks := v_ticks, locks := v_locks\<rparr>"
  "s\<lparr>locks := v_locks, num_page_faults := v_num_page_faults\<rparr> =
     s\<lparr>num_page_faults := v_num_page_faults, locks := v_locks\<rparr>"
  "s\<lparr>slocks := v_slocks, kmem := v_kmem\<rparr> =
     s\<lparr>kmem := v_kmem, slocks := v_slocks\<rparr>"
  "s\<lparr>slocks := v_slocks, pviews := v_pviews\<rparr> =
     s\<lparr>pviews := v_pviews, slocks := v_slocks\<rparr>"
  "s\<lparr>slocks := v_slocks, ptable := v_ptable\<rparr> =
     s\<lparr>ptable := v_ptable, slocks := v_slocks\<rparr>"
  "s\<lparr>slocks := v_slocks, bcache := v_bcache\<rparr> =
     s\<lparr>bcache := v_bcache, slocks := v_slocks\<rparr>"
  "s\<lparr>slocks := v_slocks, disk := v_disk\<rparr> =
     s\<lparr>disk := v_disk, slocks := v_slocks\<rparr>"
  "s\<lparr>slocks := v_slocks, icache := v_icache\<rparr> =
     s\<lparr>icache := v_icache, slocks := v_slocks\<rparr>"
  "s\<lparr>slocks := v_slocks, file_table := v_file_table\<rparr> =
     s\<lparr>file_table := v_file_table, slocks := v_slocks\<rparr>"
  "s\<lparr>slocks := v_slocks, cons := v_cons\<rparr> =
     s\<lparr>cons := v_cons, slocks := v_slocks\<rparr>"
  "s\<lparr>slocks := v_slocks, ticks := v_ticks\<rparr> =
     s\<lparr>ticks := v_ticks, slocks := v_slocks\<rparr>"
  "s\<lparr>slocks := v_slocks, num_page_faults := v_num_page_faults\<rparr> =
     s\<lparr>num_page_faults := v_num_page_faults, slocks := v_slocks\<rparr>"
  "s\<lparr>kmem := v_kmem, pviews := v_pviews\<rparr> =
     s\<lparr>pviews := v_pviews, kmem := v_kmem\<rparr>"
  "s\<lparr>kmem := v_kmem, ptable := v_ptable\<rparr> =
     s\<lparr>ptable := v_ptable, kmem := v_kmem\<rparr>"
  "s\<lparr>kmem := v_kmem, bcache := v_bcache\<rparr> =
     s\<lparr>bcache := v_bcache, kmem := v_kmem\<rparr>"
  "s\<lparr>kmem := v_kmem, disk := v_disk\<rparr> =
     s\<lparr>disk := v_disk, kmem := v_kmem\<rparr>"
  "s\<lparr>kmem := v_kmem, icache := v_icache\<rparr> =
     s\<lparr>icache := v_icache, kmem := v_kmem\<rparr>"
  "s\<lparr>kmem := v_kmem, file_table := v_file_table\<rparr> =
     s\<lparr>file_table := v_file_table, kmem := v_kmem\<rparr>"
  "s\<lparr>kmem := v_kmem, cons := v_cons\<rparr> =
     s\<lparr>cons := v_cons, kmem := v_kmem\<rparr>"
  "s\<lparr>kmem := v_kmem, ticks := v_ticks\<rparr> =
     s\<lparr>ticks := v_ticks, kmem := v_kmem\<rparr>"
  "s\<lparr>kmem := v_kmem, num_page_faults := v_num_page_faults\<rparr> =
     s\<lparr>num_page_faults := v_num_page_faults, kmem := v_kmem\<rparr>"
  "s\<lparr>pviews := v_pviews, ptable := v_ptable\<rparr> =
     s\<lparr>ptable := v_ptable, pviews := v_pviews\<rparr>"
  "s\<lparr>pviews := v_pviews, bcache := v_bcache\<rparr> =
     s\<lparr>bcache := v_bcache, pviews := v_pviews\<rparr>"
  "s\<lparr>pviews := v_pviews, disk := v_disk\<rparr> =
     s\<lparr>disk := v_disk, pviews := v_pviews\<rparr>"
  "s\<lparr>pviews := v_pviews, icache := v_icache\<rparr> =
     s\<lparr>icache := v_icache, pviews := v_pviews\<rparr>"
  "s\<lparr>pviews := v_pviews, file_table := v_file_table\<rparr> =
     s\<lparr>file_table := v_file_table, pviews := v_pviews\<rparr>"
  "s\<lparr>pviews := v_pviews, cons := v_cons\<rparr> =
     s\<lparr>cons := v_cons, pviews := v_pviews\<rparr>"
  "s\<lparr>pviews := v_pviews, ticks := v_ticks\<rparr> =
     s\<lparr>ticks := v_ticks, pviews := v_pviews\<rparr>"
  "s\<lparr>pviews := v_pviews, num_page_faults := v_num_page_faults\<rparr> =
     s\<lparr>num_page_faults := v_num_page_faults, pviews := v_pviews\<rparr>"
  "s\<lparr>ptable := v_ptable, bcache := v_bcache\<rparr> =
     s\<lparr>bcache := v_bcache, ptable := v_ptable\<rparr>"
  "s\<lparr>ptable := v_ptable, disk := v_disk\<rparr> =
     s\<lparr>disk := v_disk, ptable := v_ptable\<rparr>"
  "s\<lparr>ptable := v_ptable, icache := v_icache\<rparr> =
     s\<lparr>icache := v_icache, ptable := v_ptable\<rparr>"
  "s\<lparr>ptable := v_ptable, file_table := v_file_table\<rparr> =
     s\<lparr>file_table := v_file_table, ptable := v_ptable\<rparr>"
  "s\<lparr>ptable := v_ptable, cons := v_cons\<rparr> =
     s\<lparr>cons := v_cons, ptable := v_ptable\<rparr>"
  "s\<lparr>ptable := v_ptable, ticks := v_ticks\<rparr> =
     s\<lparr>ticks := v_ticks, ptable := v_ptable\<rparr>"
  "s\<lparr>ptable := v_ptable, num_page_faults := v_num_page_faults\<rparr> =
     s\<lparr>num_page_faults := v_num_page_faults, ptable := v_ptable\<rparr>"
  "s\<lparr>bcache := v_bcache, disk := v_disk\<rparr> =
     s\<lparr>disk := v_disk, bcache := v_bcache\<rparr>"
  "s\<lparr>bcache := v_bcache, icache := v_icache\<rparr> =
     s\<lparr>icache := v_icache, bcache := v_bcache\<rparr>"
  "s\<lparr>bcache := v_bcache, file_table := v_file_table\<rparr> =
     s\<lparr>file_table := v_file_table, bcache := v_bcache\<rparr>"
  "s\<lparr>bcache := v_bcache, cons := v_cons\<rparr> =
     s\<lparr>cons := v_cons, bcache := v_bcache\<rparr>"
  "s\<lparr>bcache := v_bcache, ticks := v_ticks\<rparr> =
     s\<lparr>ticks := v_ticks, bcache := v_bcache\<rparr>"
  "s\<lparr>bcache := v_bcache, num_page_faults := v_num_page_faults\<rparr> =
     s\<lparr>num_page_faults := v_num_page_faults, bcache := v_bcache\<rparr>"
  "s\<lparr>disk := v_disk, icache := v_icache\<rparr> =
     s\<lparr>icache := v_icache, disk := v_disk\<rparr>"
  "s\<lparr>disk := v_disk, file_table := v_file_table\<rparr> =
     s\<lparr>file_table := v_file_table, disk := v_disk\<rparr>"
  "s\<lparr>disk := v_disk, cons := v_cons\<rparr> =
     s\<lparr>cons := v_cons, disk := v_disk\<rparr>"
  "s\<lparr>disk := v_disk, ticks := v_ticks\<rparr> =
     s\<lparr>ticks := v_ticks, disk := v_disk\<rparr>"
  "s\<lparr>disk := v_disk, num_page_faults := v_num_page_faults\<rparr> =
     s\<lparr>num_page_faults := v_num_page_faults, disk := v_disk\<rparr>"
  "s\<lparr>icache := v_icache, file_table := v_file_table\<rparr> =
     s\<lparr>file_table := v_file_table, icache := v_icache\<rparr>"
  "s\<lparr>icache := v_icache, cons := v_cons\<rparr> =
     s\<lparr>cons := v_cons, icache := v_icache\<rparr>"
  "s\<lparr>icache := v_icache, ticks := v_ticks\<rparr> =
     s\<lparr>ticks := v_ticks, icache := v_icache\<rparr>"
  "s\<lparr>icache := v_icache, num_page_faults := v_num_page_faults\<rparr> =
     s\<lparr>num_page_faults := v_num_page_faults, icache := v_icache\<rparr>"
  "s\<lparr>file_table := v_file_table, cons := v_cons\<rparr> =
     s\<lparr>cons := v_cons, file_table := v_file_table\<rparr>"
  "s\<lparr>file_table := v_file_table, ticks := v_ticks\<rparr> =
     s\<lparr>ticks := v_ticks, file_table := v_file_table\<rparr>"
  "s\<lparr>file_table := v_file_table, num_page_faults := v_num_page_faults\<rparr> =
     s\<lparr>num_page_faults := v_num_page_faults, file_table := v_file_table\<rparr>"
  "s\<lparr>cons := v_cons, ticks := v_ticks\<rparr> =
     s\<lparr>ticks := v_ticks, cons := v_cons\<rparr>"
  "s\<lparr>cons := v_cons, num_page_faults := v_num_page_faults\<rparr> =
     s\<lparr>num_page_faults := v_num_page_faults, cons := v_cons\<rparr>"
  "s\<lparr>ticks := v_ticks, num_page_faults := v_num_page_faults\<rparr> =
     s\<lparr>num_page_faults := v_num_page_faults, ticks := v_ticks\<rparr>"
  by simp_all

end
