(* ===== verification/Spinlock.thy ===== *)
theory Spinlock
  imports Kstate
begin

text \<open>
  Spin locks (\<open>kernel/spinlock.c\<close>): \<open>pushcli\<close>/\<open>popcli\<close>, \<open>acquire\<close>, \<open>release\<close>, \<open>holding\<close>.
  The kernel runs on one CPU (\<open>mycpu()\<close> returns \<open>&cpus[0]\<close>, CPU number 0 here), so a lock that
  is taken but not by this CPU is never released while \<open>acquire\<close> spins on it: that branch is
  \<open>Hang\<close>.  The call stack recorded for debugging (\<open>getcallerpcs\<close>) is not modelled.

  The locale \<open>mutex\<close> is the contract of a lock; it is interpreted here for spin locks and in
  \<open>Sleep\<close> for sleep locks.
\<close>

section \<open>Operations\<close>

definition holding :: "lockid \<Rightarrow> kst \<Rightarrow> bool" where
  "holding lk s \<longleftrightarrow> locked (locks s lk) \<and> lcpu (locks s lk) = Some 0"

definition pushcli :: "(unit, kst) kop" where
  "pushcli = modify (\<lambda>s.
     let eflags = eflags_if (cpu s);
         c = (cpu s)\<lparr>eflags_if := False\<rparr>;
         c = (if ncli c = 0 then c\<lparr>intena := eflags\<rparr> else c)
     in s\<lparr>cpu := c\<lparr>ncli := ncli c + 1\<rparr>\<rparr>)"

definition popcli :: "(unit, kst) kop" where
  "popcli =
     obind (gets (\<lambda>s. eflags_if (cpu s))) (\<lambda>on.
     if on then panic ''popcli - interruptible'' else
     oseq (modify (\<lambda>s. s\<lparr>cpu := (cpu s)\<lparr>ncli := ncli (cpu s) - 1\<rparr>\<rparr>)) (
     obind (gets cpu) (\<lambda>c.
     if ncli c < 0 then panic ''popcli'' else
     kwhen (ncli c = 0 \<and> intena c)
       (modify (\<lambda>s. s\<lparr>cpu := (cpu s)\<lparr>eflags_if := True\<rparr>\<rparr>)))))"

definition initlock :: "lockid \<Rightarrow> (unit, kst) kop" where
  "initlock lk = modify (\<lambda>s. s\<lparr>locks := (locks s)(lk := \<lparr>locked = False, lcpu = None\<rparr>)\<rparr>)"

definition acquire :: "lockid \<Rightarrow> (unit, kst) kop" where
  "acquire lk =
     oseq pushcli (
     obind (gets (holding lk)) (\<lambda>h.
     if h then panic ''acquire'' else
     obind (gets (\<lambda>s. locked (locks s lk))) (\<lambda>taken.
     if taken then hang else
     modify (\<lambda>s. s\<lparr>locks := (locks s)(lk := \<lparr>locked = True, lcpu = Some 0\<rparr>)\<rparr>))))"

definition release :: "lockid \<Rightarrow> (unit, kst) kop" where
  "release lk =
     obind (gets (holding lk)) (\<lambda>h.
     if \<not> h then panic ''release'' else
     oseq (modify (\<lambda>s. s\<lparr>locks := (locks s)(lk := \<lparr>locked = False, lcpu = None\<rparr>)\<rparr>))
       popcli)"

section \<open>Behaviour\<close>

text \<open>The interrupt state around a lock, as functions on the CPU's state.\<close>

definition push_cpu :: "cpu_state \<Rightarrow> cpu_state" where
  "push_cpu c = c\<lparr>eflags_if := False,
     intena := (if ncli c = 0 then eflags_if c else intena c), ncli := ncli c + 1\<rparr>"

definition pop_cpu :: "cpu_state \<Rightarrow> cpu_state" where
  "pop_cpu c = c\<lparr>ncli := ncli c - 1, eflags_if := (ncli c = 1 \<and> intena c)\<rparr>"

definition free_lock :: spinlock where
  "free_lock = \<lparr>locked = False, lcpu = None\<rparr>"

definition held_lock :: spinlock where
  "held_lock = \<lparr>locked = True, lcpu = Some 0\<rparr>"

text \<open>Between lock operations: the nesting depth is not negative, and a positive depth means
  that interrupts are off.\<close>

definition cpu_ok :: "cpu_state \<Rightarrow> bool" where
  "cpu_ok c \<longleftrightarrow> 0 \<le> ncli c \<and> (0 < ncli c \<longrightarrow> \<not> eflags_if c)"

definition quiet :: "cpu_state \<Rightarrow> cpu_state" where
  "quiet c = c\<lparr>intena := (if ncli c = 0 then eflags_if c else intena c)\<rparr>"

lemma free_held_sel [simp]:
  "locked free_lock = False" "lcpu free_lock = None"
  "locked held_lock = True" "lcpu held_lock = Some 0"
  by (simp_all add: free_lock_def held_lock_def)

lemma zero_kst_lock [simp]:
  "locks zero_kst l = free_lock" "cpu_ok (cpu zero_kst)" "quiet (cpu zero_kst) = cpu zero_kst"
  by (simp_all add: zero_kst_def free_lock_def cpu_ok_def quiet_def)

lemma pop_push_cpu [simp]: "cpu_ok c \<Longrightarrow> pop_cpu (push_cpu c) = quiet c"
  by (auto simp: cpu_ok_def pop_cpu_def push_cpu_def quiet_def)

lemma push_cpu_sel [simp]:
  "eflags_if (push_cpu c) = False" "ncli (push_cpu c) = ncli c + 1"
  "curproc (push_cpu c) = curproc c" "ts_rsp0 (push_cpu c) = ts_rsp0 c" "cr3 (push_cpu c) = cr3 c"
  by (simp_all add: push_cpu_def)

lemma pop_cpu_sel [simp]:
  "ncli (pop_cpu c) = ncli c - 1"
  "curproc (pop_cpu c) = curproc c" "ts_rsp0 (pop_cpu c) = ts_rsp0 c" "cr3 (pop_cpu c) = cr3 c"
  by (simp_all add: pop_cpu_def)

lemma quiet_sel [simp]:
  "eflags_if (quiet c) = eflags_if c" "ncli (quiet c) = ncli c" "curproc (quiet c) = curproc c"
  "ts_rsp0 (quiet c) = ts_rsp0 c" "cr3 (quiet c) = cr3 c"
  by (simp_all add: quiet_def)

lemma quiet_quiet [simp]: "quiet (quiet c) = quiet c"
  by (simp add: quiet_def)

lemma cpu_ok_push [simp]: "cpu_ok c \<Longrightarrow> cpu_ok (push_cpu c)"
  and cpu_ok_quiet [simp]: "cpu_ok (quiet c) = cpu_ok c"
  by (auto simp: cpu_ok_def)

lemma cpu_ok_pop: "cpu_ok c \<Longrightarrow> 0 < ncli c \<Longrightarrow> cpu_ok (pop_cpu c)"
  by (auto simp: cpu_ok_def pop_cpu_def)

lemma wp_pushcli [wp_rules]: "wp pushcli Q s = Q () (s\<lparr>cpu := push_cpu (cpu s)\<rparr>)"
  by (simp add: pushcli_def wp_modify Let_def push_cpu_def)

lemma wp_popcli [wp_rules]:
  "wp popcli Q s \<longleftrightarrow> \<not> eflags_if (cpu s) \<and> 1 \<le> ncli (cpu s) \<and> Q () (s\<lparr>cpu := pop_cpu (cpu s)\<rparr>)"
proof (cases "eflags_if (cpu s) \<or> ncli (cpu s) < 1")
  case True
  then show ?thesis by (auto simp: popcli_def wp_rules)
next
  case False
  then have "pop_cpu (cpu s) = (cpu s)\<lparr>ncli := ncli (cpu s) - 1\<rparr>"
    if "\<not> (ncli (cpu s) = 1 \<and> intena (cpu s))"
    using that by (auto simp: pop_cpu_def)
  moreover have "pop_cpu (cpu s) = (cpu s)\<lparr>ncli := ncli (cpu s) - 1, eflags_if := True\<rparr>"
    if "ncli (cpu s) = 1 \<and> intena (cpu s)"
    using that by (simp add: pop_cpu_def)
  ultimately show ?thesis
    using False by (auto simp: popcli_def wp_rules)
qed

lemma wp_acquire [wp_rules]:
  "wp (acquire lk) Q s \<longleftrightarrow> \<not> locked (locks s lk) \<and>
     Q () (s\<lparr>cpu := push_cpu (cpu s), locks := (locks s)(lk := held_lock)\<rparr>)"
  by (simp add: acquire_def wp_rules holding_def held_lock_def)

lemma wp_release [wp_rules]:
  "wp (release lk) Q s \<longleftrightarrow> holding lk s \<and> \<not> eflags_if (cpu s) \<and> 1 \<le> ncli (cpu s) \<and>
     Q () (s\<lparr>locks := (locks s)(lk := free_lock), cpu := pop_cpu (cpu s)\<rparr>)"
  by (simp add: release_def wp_rules free_lock_def)

lemma holding_upd [simp]:
  "holding l (s\<lparr>locks := k\<rparr>) \<longleftrightarrow> locked (k l) \<and> lcpu (k l) = Some 0"
  "holding l (s\<lparr>cpu := x_cpu\<rparr>) = holding l s"
  "holding l (s\<lparr>slocks := x_slocks\<rparr>) = holding l s"
  "holding l (s\<lparr>kmem := x_kmem\<rparr>) = holding l s"
  "holding l (s\<lparr>pviews := x_pviews\<rparr>) = holding l s"
  "holding l (s\<lparr>ptable := x_ptable\<rparr>) = holding l s"
  "holding l (s\<lparr>bcache := x_bcache\<rparr>) = holding l s"
  "holding l (s\<lparr>disk := x_disk\<rparr>) = holding l s"
  "holding l (s\<lparr>icache := x_icache\<rparr>) = holding l s"
  "holding l (s\<lparr>file_table := x_file_table\<rparr>) = holding l s"
  "holding l (s\<lparr>cons := x_cons\<rparr>) = holding l s"
  "holding l (s\<lparr>ticks := x_ticks\<rparr>) = holding l s"
  "holding l (s\<lparr>num_page_faults := x_num_page_faults\<rparr>) = holding l s"
  by (simp_all add: holding_def)

section \<open>The contract of a lock\<close>

text \<open>
  A lock as its users see it: \<open>free\<close> and \<open>held\<close> exclude each other, \<open>lock\<close> takes a free lock,
  \<open>unlock\<close> gives a held one back, both under an invariant of the surrounding state.
\<close>

locale mutex =
  fixes lock :: "'l \<Rightarrow> (unit, 's) kop"
    and unlock :: "'l \<Rightarrow> (unit, 's) kop"
    and free :: "'l \<Rightarrow> 's \<Rightarrow> bool"
    and held :: "'l \<Rightarrow> 's \<Rightarrow> bool"
    and inv :: "'s \<Rightarrow> bool"
  assumes lock_free: "inv s \<Longrightarrow> free l s \<Longrightarrow> wp (lock l) (\<lambda>_ t. held l t \<and> inv t) s"
    and lock_busy: "held l s \<Longrightarrow> \<not> wp (lock l) Q s"
    and unlock_held: "inv s \<Longrightarrow> held l s \<Longrightarrow> wp (unlock l) (\<lambda>_ t. free l t \<and> inv t) s"
    and free_not_held: "\<not> (free l s \<and> held l s)"
begin

text \<open>A critical section whose body keeps the lock returns with the lock free.\<close>

lemma section_frees:
  assumes "inv s" "free l s"
    and body: "\<And>t. inv t \<Longrightarrow> held l t \<Longrightarrow> wp body (\<lambda>_ u. held l u \<and> inv u) t"
  shows "wp (oseq (lock l) (oseq body (unlock l))) (\<lambda>_ t. free l t \<and> inv t) s"
proof -
  have "wp (oseq body (unlock l)) (\<lambda>_ u. free l u \<and> inv u) t" if "held l t \<and> inv t" for t
    using body [of t] that by (auto simp: wp_oseq intro: wp_mono unlock_held)
  then show ?thesis
    using lock_free [OF assms(1,2)] by (auto simp: wp_oseq elim: wp_mono)
qed

text \<open>Taking a lock twice without giving it back never returns.\<close>

lemma no_relock: "inv s \<Longrightarrow> free l s \<Longrightarrow> \<not> wp (oseq (lock l) (lock l)) Q s"
proof
  assume "inv s" "free l s" "wp (oseq (lock l) (lock l)) Q s"
  from lock_free [OF \<open>inv s\<close> \<open>free l s\<close>] obtain a t where t: "lock l s = Ret a t" "held l t"
    by (auto elim: wpE)
  from \<open>wp (oseq (lock l) (lock l)) Q s\<close> t(1) have "wp (lock l) Q t"
    by (simp add: wp_oseq wp_Ret)
  with lock_busy [OF t(2)] show False by blast
qed

end

definition spin_ok :: "kst \<Rightarrow> bool" where
  "spin_ok s \<longleftrightarrow> cpu_ok (cpu s) \<and> ncli (cpu s) = int (card {l. holding l s}) \<and>
     finite {l. holding l s} \<and> (\<forall>l. locks s l = free_lock \<or> locks s l = held_lock)"

lemma held_set_acquire:
  "{k. holding k (s\<lparr>cpu := c, locks := (locks s)(l := held_lock)\<rparr>)} = insert l {k. holding k s}"
  by (auto simp: holding_def)

lemma held_set_release:
  "{k. holding k (s\<lparr>locks := (locks s)(l := free_lock), cpu := c\<rparr>)} = {k. holding k s} - {l}"
  by (auto simp: holding_def)

lemma spin_ok_acquire:
  assumes "spin_ok s" "locks s l = free_lock"
  shows "spin_ok (s\<lparr>cpu := push_cpu (cpu s), locks := (locks s)(l := held_lock)\<rparr>)"
proof -
  have "l \<notin> {k. holding k s}" using assms(2) by (simp add: holding_def)
  then show ?thesis
    using assms unfolding spin_ok_def held_set_acquire by auto
qed

lemma spin_ok_release:
  assumes "spin_ok s" "holding l s"
  shows "spin_ok (s\<lparr>locks := (locks s)(l := free_lock), cpu := pop_cpu (cpu s)\<rparr>)"
    and "\<not> eflags_if (cpu s)" "1 \<le> ncli (cpu s)"
proof -
  have l: "l \<in> {k. holding k s}" and fin: "finite {k. holding k s}"
    using assms by (simp_all add: spin_ok_def)
  then have pos: "0 < card {k. holding k s}" by (auto simp: card_gt_0_iff)
  then show "1 \<le> ncli (cpu s)" and "\<not> eflags_if (cpu s)"
    using assms(1) by (auto simp: spin_ok_def cpu_ok_def)
  have "int (card ({k. holding k s} - {l})) = int (card {k. holding k s}) - 1"
    using l fin pos by (simp add: card_Diff_singleton of_nat_diff)
  then show "spin_ok (s\<lparr>locks := (locks s)(l := free_lock), cpu := pop_cpu (cpu s)\<rparr>)"
    using assms pos unfolding spin_ok_def held_set_release by (auto intro: cpu_ok_pop)
qed

interpretation spin: mutex acquire release "\<lambda>l s. locks s l = free_lock" holding spin_ok
proof unfold_locales
  fix s l Q
  show "spin_ok s \<Longrightarrow> locks s l = free_lock \<Longrightarrow> wp (acquire l) (\<lambda>_ t. holding l t \<and> spin_ok t) s"
    by (auto simp: wp_rules intro: spin_ok_acquire)
  show "holding l s \<Longrightarrow> \<not> wp (acquire l) Q s"
    by (simp add: wp_rules holding_def)
  show "spin_ok s \<Longrightarrow> holding l s \<Longrightarrow> wp (release l) (\<lambda>_ t. locks t l = free_lock \<and> spin_ok t) s"
    using spin_ok_release by (auto simp: wp_rules)
  show "\<not> (locks s l = free_lock \<and> holding l s)"
    by (auto simp: holding_def)
qed

section \<open>Properties\<close>

text \<open>C23: a spin lock excludes.  From a state in which the nesting depth counts the held locks,
  \<open>acquire\<close> of a free lock returns with the lock held and interrupts off; taking it again panics;
  and \<open>release\<close> brings back the state before, the recorded interrupt flag apart.\<close>

theorem acquire_excludes:
  assumes "spin_ok s" "locks s l = free_lock"
  shows "wp (acquire l) (\<lambda>_ t. holding l t \<and> spin_ok t \<and> \<not> eflags_if (cpu t) \<and>
     acquire l t = Panic ''acquire'' \<and> release l t = Ret () (s\<lparr>cpu := quiet (cpu s)\<rparr>)) s"
proof -
  let ?t = "s\<lparr>cpu := push_cpu (cpu s), locks := (locks s)(l := held_lock)\<rparr>"
  have "holding l ?t" by simp
  then have "acquire l ?t = Panic ''acquire''"
    by (simp add: acquire_def pushcli_def kop_defs Let_def)
  moreover have "(locks s)(l := free_lock) = locks s" using assms(2) by (simp add: fun_upd_idem)
  then have "release l ?t = Ret () (s\<lparr>cpu := quiet (cpu s)\<rparr>)"
    using assms(1) by (intro wp_eq_Ret) (auto simp: wp_rules spin_ok_def kst_comm cpu_ok_def)
  ultimately show ?thesis
    using assms spin_ok_acquire [OF assms] by (simp add: wp_rules)
qed

lemma spin_ok_zero: "spin_ok zero_kst"
proof -
  have "{l. holding l zero_kst} = {}" by (simp add: holding_def)
  then show ?thesis by (simp add: spin_ok_def) (simp add: zero_kst_def)
qed

theorem acquire_excludes_witness:
  "wp (acquire KmemLock) (\<lambda>_ t. holding KmemLock t \<and> spin_ok t \<and> \<not> eflags_if (cpu t) \<and>
     acquire KmemLock t = Panic ''acquire'' \<and>
     release KmemLock t = Ret () (zero_kst\<lparr>cpu := quiet (cpu zero_kst)\<rparr>)) zero_kst"
  by (rule acquire_excludes [OF spin_ok_zero]) simp

end
