(* ===== verification/Mmu.thy ===== *)
theory Mmu
  imports Kstate
begin

unbundle bit_operations_syntax

text \<open>
  Addresses: the macros of \<open>inc/mmu.h\<close> and \<open>inc/memlayout.h\<close> (page size, rounding, the four
  table indices of a virtual address, page-table entries, the kernel's direct map), their
  arithmetic, and the effect of filling a page with one byte on its typed views.
\<close>

section \<open>Pages and the direct map\<close>

definition PGSIZE :: u64 where "PGSIZE = 4096"
definition KERNBASE :: u64 where "KERNBASE = 0xFFFFFFFF80000000"

definition PGNUM :: "u64 \<Rightarrow> u64" where
  "PGNUM la = drop_bit 12 la"

definition PGROUNDUP :: "u64 \<Rightarrow> u64" where
  "PGROUNDUP sz = (sz + PGSIZE - 1) AND NOT (PGSIZE - 1)"

definition PGROUNDDOWN :: "u64 \<Rightarrow> u64" where
  "PGROUNDDOWN a = a AND NOT (PGSIZE - 1)"

definition V2P :: "u64 \<Rightarrow> u64" where "V2P a = a - KERNBASE"
definition P2V :: "u64 \<Rightarrow> u64" where "P2V a = a + KERNBASE"

lemma V2P_P2V [simp]: "V2P (P2V a) = a"
  and P2V_V2P [simp]: "P2V (V2P a) = a"
  by (simp_all add: V2P_def P2V_def)

section \<open>Page-table entries\<close>

definition PTE_P :: u64 where "PTE_P = 1"
definition PTE_W :: u64 where "PTE_W = 2"
definition PTE_U :: u64 where "PTE_U = 4"

definition PTE_ADDR :: "u64 \<Rightarrow> u64" where
  "PTE_ADDR pte = pte AND 0x000FFFFFFFFFF000"

definition PTE :: "u64 \<Rightarrow> u64 \<Rightarrow> u64" where
  "PTE pa flags = pa OR flags"

definition PML4_INDEX :: "u64 \<Rightarrow> nat" where
  "PML4_INDEX va = unat (drop_bit 39 va AND 511)"

definition PDPT_INDEX :: "u64 \<Rightarrow> nat" where
  "PDPT_INDEX va = unat (drop_bit 30 va AND 511)"

definition PD_INDEX :: "u64 \<Rightarrow> nat" where
  "PD_INDEX va = unat (drop_bit 21 va AND 511)"

definition PT_INDEX :: "u64 \<Rightarrow> nat" where
  "PT_INDEX va = unat (drop_bit 12 va AND 511)"

definition PGADDR :: "u64 \<Rightarrow> u64 \<Rightarrow> u64 \<Rightarrow> u64 \<Rightarrow> u64 \<Rightarrow> u64" where
  "PGADDR l4 l3 d t off = push_bit 39 l4 OR push_bit 30 l3 OR push_bit 21 d OR push_bit 12 t OR off"

section \<open>Arithmetic of rounding\<close>

lemma and_511: "x AND 511 = take_bit 9 (x :: u64)"
  using take_bit_eq_mask [of 9 x] by (simp add: mask_eq_exp_minus_1)

lemma and_not_4095: "a AND NOT 4095 = push_bit 12 (drop_bit 12 (a :: u64))"
proof -
  have "a AND NOT (mask 12) = push_bit 12 (drop_bit 12 a)"
    by (rule bit_word_eqI) (auto simp: bit_simps)
  then show ?thesis by (simp add: mask_eq_exp_minus_1)
qed

lemma unat_take_bit12: "unat (take_bit 12 (a :: u64)) = unat a mod 4096"
  by (simp only: unsigned_take_bit_eq) (simp add: take_bit_eq_mod)

lemma unat_PGROUNDDOWN: "unat (PGROUNDDOWN a) = unat a div 4096 * 4096"
proof -
  have 1: "PGROUNDDOWN a = a - take_bit 12 a"
    using and_not_4095 [of a] bits_ident [of 12 a]
    by (simp add: PGROUNDDOWN_def PGSIZE_def algebra_simps)
  have 2: "take_bit 12 a \<le> a"
    by (simp only: word_le_nat_alt unat_take_bit12 mod_less_eq_dividend)
  show ?thesis
    by (simp only: 1 unat_sub [OF 2] unat_take_bit12 minus_mod_eq_div_mult)
qed

lemma unat_PGROUNDUP:
  assumes "unat a + 4095 < 2 ^ 64"
  shows "unat (PGROUNDUP a) = (unat a + 4095) div 4096 * 4096"
proof -
  have "PGROUNDUP a = PGROUNDDOWN (a + 4095)"
    by (simp add: PGROUNDUP_def PGROUNDDOWN_def PGSIZE_def add.commute)
  moreover have "unat (a + 4095) = unat a + 4095"
    using assms by (simp add: unat_word_ariths)
  ultimately show ?thesis by (simp add: unat_PGROUNDDOWN)
qed

lemma roundup_nat:
  fixes n :: nat
  shows "n \<le> (n + 4095) div 4096 * 4096" "(n + 4095) div 4096 * 4096 < n + 4096"
    and "n mod 4096 = 0 \<Longrightarrow> (n + 4095) div 4096 * 4096 = n"
proof -
  have 1: "(n + 4095) div 4096 * 4096 + (n + 4095) mod 4096 = n + 4095"
    by (rule div_mult_mod_eq)
  have 2: "(n + 4095) mod 4096 < 4096" by simp
  from 1 2 show "n \<le> (n + 4095) div 4096 * 4096" "(n + 4095) div 4096 * 4096 < n + 4096"
    by linarith+
  assume "n mod 4096 = 0"
  then obtain q where q: "n = q * 4096" by (auto elim: dvdE simp: mod_eq_0_iff_dvd)
  then show "(n + 4095) div 4096 * 4096 = n" by simp
qed

lemma PGROUNDUP_aligned:
  assumes "unat a + 4095 < 2 ^ 64"
  shows "unat (PGROUNDUP a) mod 4096 = 0"
    and "unat a \<le> unat (PGROUNDUP a)" and "unat (PGROUNDUP a) < unat a + 4096"
  unfolding unat_PGROUNDUP [OF assms]
  by (rule mod_mult_self2_is_0, rule roundup_nat(1), rule roundup_nat(2))

lemma PGROUNDUP_of_aligned:
  assumes "unat a mod 4096 = 0" "unat a + 4095 < 2 ^ 64"
  shows "PGROUNDUP a = a"
  using unat_PGROUNDUP [OF assms(2)] roundup_nat(3) [OF assms(1)]
  by (simp only: word_unat_eq_iff)

lemma unat_PGNUM: "unat (PGNUM a) = unat a div 4096"
  by (simp add: PGNUM_def drop_bit_eq_div unat_div)

lemma unat_and_511: "unat (x AND 511 :: u64) = unat x mod 512"
  unfolding and_511 by (simp only: unsigned_take_bit_eq) (simp add: take_bit_eq_mod)

lemma index_bounds [simp]:
  "PML4_INDEX va < 512" "PDPT_INDEX va < 512" "PD_INDEX va < 512" "PT_INDEX va < 512"
  by (simp_all add: PML4_INDEX_def PDPT_INDEX_def PD_INDEX_def PT_INDEX_def unat_and_511)

text \<open>The indices are the digits of the page number in base 512.\<close>

lemma index_digits:
  "PT_INDEX va = unat va div 4096 mod 512"
  "PD_INDEX va = unat va div 2097152 mod 512"
  "PDPT_INDEX va = unat va div 1073741824 mod 512"
  "PML4_INDEX va = unat va div 549755813888 mod 512"
  by (simp_all add: PML4_INDEX_def PDPT_INDEX_def PD_INDEX_def PT_INDEX_def unat_and_511
      drop_bit_eq_div unat_div)

section \<open>Kernel pages\<close>

text \<open>\<open>kpage i\<close> is the kernel address of physical page \<open>i\<close>.\<close>

definition kpage :: "nat \<Rightarrow> u64" where
  "kpage i = P2V (push_bit 12 (of_nat i))"

lemma unat_page_addr:
  assumes "i < 2 ^ 19"
  shows "unat (push_bit 12 (of_nat i :: u64)) = i * 4096"
proof -
  have "push_bit 12 (of_nat i :: u64) = of_nat (i * 4096)"
    by (simp add: push_bit_eq_mult)
  moreover have "unat (of_nat (i * 4096) :: u64) = i * 4096"
    using assms by (simp only: unat_of_nat) simp
  ultimately show ?thesis by simp
qed

lemma unat_kpage: "i < 2 ^ 19 \<Longrightarrow> unat (kpage i) = i * 4096 + 0xFFFFFFFF80000000"
proof -
  assume i: "i < 2 ^ 19"
  then have "unat (push_bit 12 (of_nat i :: u64)) + unat KERNBASE < 2 ^ 64"
    by (simp add: unat_page_addr KERNBASE_def)
  then show ?thesis
    using i by (simp add: kpage_def P2V_def unat_word_ariths unat_page_addr KERNBASE_def)
qed

lemma kpage_inj:
  assumes "i < 2 ^ 19" "j < 2 ^ 19"
  shows "kpage i = kpage j \<longleftrightarrow> i = j"
proof
  assume "kpage i = kpage j"
  then have "unat (kpage i) = unat (kpage j)" by (rule arg_cong)
  then have "i * 4096 = j * 4096"
    by (simp only: unat_kpage [OF assms(1)] unat_kpage [OF assms(2)] add_right_cancel)
  then show "i = j" by simp
qed simp

lemma kpage_nonzero:
  assumes "i < 2 ^ 19"
  shows "kpage i \<noteq> 0"
proof
  assume "kpage i = 0"
  then have "unat (kpage i) = 0" by simp
  then show False by (simp add: unat_kpage [OF assms])
qed

lemma kpage_aligned:
  assumes "i < 2 ^ 19"
  shows "kpage i mod PGSIZE = 0"
proof -
  have "(0xFFFFFFFF80000000 :: nat) = 4503599626846208 * 4096" by simp
  then have "unat (kpage i) = (i + 4503599626846208) * 4096"
    by (simp only: unat_kpage [OF assms] distrib_right)
  then have "unat (kpage i mod PGSIZE) = 0"
    by (simp only: unat_mod PGSIZE_def) simp
  then show ?thesis by (simp only: unat_eq_0)
qed

lemma V2P_kpage [simp]: "V2P (kpage i) = push_bit 12 (of_nat i)"
  by (simp add: kpage_def)

lemma PGNUM_page_addr:
  assumes "i < 2 ^ 19"
  shows "unat (PGNUM (push_bit 12 (of_nat i))) = i"
  by (simp add: unat_PGNUM unat_page_addr [OF assms])

section \<open>Filling a page\<close>

definition rep16 :: "byte \<Rightarrow> u16" where "rep16 c = ucast c * 0x0101"
definition rep32 :: "byte \<Rightarrow> u32" where "rep32 c = ucast c * 0x01010101"
definition rep64 :: "byte \<Rightarrow> u64" where "rep64 c = ucast c * 0x0101010101010101"

definition fill_vpi :: "byte \<Rightarrow> vpage_info" where
  "fill_vpi c = \<lparr>used = rep16 c, ppn = rep64 c, present = rep16 c, writable = rep16 c\<rparr>"

definition fill_views :: "u64 \<Rightarrow> byte \<Rightarrow> page_views \<Rightarrow> page_views" where
  "fill_views v c w =
     \<lparr>pt_view = (pt_view w)(v := (\<lambda>_. rep64 c)),
      vpi_view = (vpi_view w)(v := \<lparr>infos = (\<lambda>_. fill_vpi c), vnext = rep64 c\<rparr>),
      pipe_view = (pipe_view w)(v := \<lparr>read_count = rep32 c, write_count = rep32 c,
        read_offset = rep32 c, write_offset = rep32 c, pbuffer = (\<lambda>_. c)\<rparr>),
      byte_view = (byte_view w)(v := (\<lambda>_. c)), kpml4 = kpml4 w\<rparr>"

text \<open>\<open>memset(v, c, PGSIZE)\<close> on a whole page.\<close>

definition memset_page :: "u64 \<Rightarrow> byte \<Rightarrow> (unit, kst) kop" where
  "memset_page v c = modify (\<lambda>s. s\<lparr>pviews := fill_views v c (pviews s)\<rparr>)"

lemma wp_memset_page [wp_rules]:
  "wp (memset_page v c) Q s = Q () (s\<lparr>pviews := fill_views v c (pviews s)\<rparr>)"
  by (simp add: memset_page_def wp_rules)

lemma rep_zero [simp]: "rep16 0 = 0" "rep32 0 = 0" "rep64 0 = 0"
  by (simp_all add: rep16_def rep32_def rep64_def)

end
