(* ===== verification/Kalloc.thy ===== *)
theory Kalloc
  imports Spinlock Mmu
begin

unbundle bit_operations_syntax

text \<open>
  The physical page allocator (\<open>kernel/kalloc.c\<close>): one core-map entry per page of physical
  memory, \<open>kalloc\<close> takes the first available page, \<open>kfree\<close> fills a page with junk and gives it
  back.  \<open>npages\<close> is a C \<open>int\<close>; the product \<open>npages * PGSIZE\<close> is computed in 32 bits (the
  kernel is compiled with \<open>-fwrapv\<close>) and then sign-extended, as \<open>mem_bytes\<close> does.

  The locale \<open>page_allocator\<close> is what the users of the allocator rely on; it is interpreted for
  \<open>kalloc\<close> and \<open>kfree\<close> at the end of the theory.
\<close>

section \<open>The core map\<close>

record e820_entry =
  e_addr :: u64
  e_len :: u64
  e_type :: u32

definition pa2page :: "u64 \<Rightarrow> (nat, kst) kop" where
  "pa2page pa =
     obind (gets (\<lambda>s. npages (kmem s))) (\<lambda>n.
     if PGNUM pa \<ge> scast n then panic ''pa2page called with invalid pa''
     else ret (unat (PGNUM pa)))"

definition page2pa :: "nat \<Rightarrow> u64" where
  "page2pa i = push_bit 12 (of_nat i)"

definition upd_core :: "nat \<Rightarrow> (core_map_entry \<Rightarrow> core_map_entry) \<Rightarrow> kst \<Rightarrow> kst" where
  "upd_core i f s = s\<lparr>kmem := (kmem s)\<lparr>core_map :=
     (core_map (kmem s))[i := f (core_map (kmem s) ! i)]\<rparr>\<rparr>"

text \<open>\<open>(uint64_t)(npages * PGSIZE)\<close>.\<close>

definition mem_bytes :: "u32 \<Rightarrow> u64" where
  "mem_bytes n = scast (n * 4096)"

fun scan_e820 :: "u64 \<Rightarrow> e820_entry list \<Rightarrow> u64 \<Rightarrow> u64" where
  "scan_e820 mem_max [] mem = mem"
| "scan_e820 mem_max (e # es) mem =
     (if e_addr e \<ge> mem_max then scan_e820 mem_max es mem
      else scan_e820 mem_max es (max mem (e_addr e + e_len e)))"

definition detect_memory :: "e820_entry list \<Rightarrow> (unit, kst) kop" where
  "detect_memory entries =
     (let mem_max = - KERNBASE;
          mem = min (scan_e820 mem_max entries 0) mem_max
      in modify (\<lambda>s. s\<lparr>kmem := (kmem s)\<lparr>npages := ucast (mem div PGSIZE)\<rparr>\<rparr>))"

section \<open>Allocation\<close>

definition kfree :: "u64 \<Rightarrow> (unit, kst) kop" where
  "kfree v =
     obind (gets kmem) (\<lambda>k.
     if v mod PGSIZE \<noteq> 0 \<or> v < kend k \<or> V2P v \<ge> mem_bytes (npages k) then panic ''kfree'' else
     oseq (kwhen (use_lock k) (acquire KmemLock)) (
     obind (pa2page (V2P v)) (\<lambda>r.
     oseq (modify (\<lambda>s. s\<lparr>kmem := (kmem s)\<lparr>pages_in_use := pages_in_use (kmem s) - 1,
                          free_pages := free_pages (kmem s) + 1\<rparr>\<rparr>)) (
     oseq (memset_page v 2) (
     oseq (modify (upd_core r (\<lambda>e. \<lparr>available = True, cuser = False, cva = 0\<rparr>)))
       (kwhen (use_lock k) (release KmemLock)))))))"

definition mark_user_mem :: "u64 \<Rightarrow> u64 \<Rightarrow> (unit, kst) kop" where
  "mark_user_mem pa va =
     obind (pa2page pa) (\<lambda>r. modify (upd_core r (\<lambda>e. e\<lparr>cuser := True, cva := va\<rparr>)))"

definition mark_kernel_mem :: "u64 \<Rightarrow> (unit, kst) kop" where
  "mark_kernel_mem pa =
     obind (pa2page pa) (\<lambda>r. modify (upd_core r (\<lambda>e. e\<lparr>cuser := False, cva := 0\<rparr>)))"

definition kalloc :: "(u64, kst) kop" where
  "kalloc =
     obind (gets (\<lambda>s. use_lock (kmem s))) (\<lambda>ul.
     oseq (kwhen ul (acquire KmemLock)) (
     obind (gets (\<lambda>s. find_idx available (take (unat (npages (kmem s))) (core_map (kmem s))))) (\<lambda>r.
     case r of
       Some i \<Rightarrow>
         oseq (modify (upd_core i (\<lambda>e. e\<lparr>available := False\<rparr>))) (
         oseq (modify (\<lambda>s. s\<lparr>kmem := (kmem s)\<lparr>pages_in_use := pages_in_use (kmem s) + 1,
                              free_pages := free_pages (kmem s) - 1\<rparr>\<rparr>)) (
         oseq (kwhen ul (release KmemLock))
           (ret (P2V (page2pa i)))))
     | None \<Rightarrow> oseq (kwhen ul (release KmemLock)) (ret 0))))"

section \<open>Initialisation\<close>

text \<open>The loop of \<open>freerange\<close>; \<open>mem_init\<close> gives it one unit of fuel per page of memory and one
  for the last test, and running out is \<open>Hang\<close>.\<close>

fun freerange_loop :: "nat \<Rightarrow> u64 \<Rightarrow> u64 \<Rightarrow> (unit, kst) kop" where
  "freerange_loop 0 p vend = hang"
| "freerange_loop (Suc n) p vend =
     (if p + PGSIZE \<le> vend then oseq (kfree p) (freerange_loop n (p + PGSIZE) vend) else ret ())"

declare freerange_loop.simps [simp del]

definition freerange :: "u64 \<Rightarrow> u64 \<Rightarrow> (unit, kst) kop" where
  "freerange vstart vend =
     obind (gets (\<lambda>s. unat (npages (kmem s)))) (\<lambda>n.
     freerange_loop (Suc n) (PGROUNDUP vstart) vend)"

definition setrand :: "u32 \<Rightarrow> (unit, kst) kop" where
  "setrand seed = modify (\<lambda>s. s\<lparr>kmem := (kmem s)\<lparr>rand_next := ucast seed\<rparr>\<rparr>)"

definition mem_init :: "u64 \<Rightarrow> (unit, kst) kop" where
  "mem_init vstart =
     obind (gets (\<lambda>s. npages (kmem s))) (\<lambda>n.
     oseq (modify (\<lambda>s. s\<lparr>kmem := (kmem s)\<lparr>core_map :=
             replicate (unat n) \<lparr>available = False, cuser = False, cva = 0\<rparr>\<rparr>\<rparr>)) (
     let vstart' = vstart + PGROUNDUP (scast n * 16);
         vend = P2V (mem_bytes n)
     in
     oseq (initlock KmemLock) (
     oseq (modify (\<lambda>s. s\<lparr>kmem := (kmem s)\<lparr>use_lock := False\<rparr>\<rparr>)) (
     oseq (freerange vstart' vend) (
     oseq (modify (\<lambda>s. s\<lparr>kmem := (kmem s)\<lparr>free_pages := sint (ucast (signed_drop_bit 12 (vend - vstart')) :: u32),
             pages_in_use := 0, pages_in_swap := 0, use_lock := True\<rparr>\<rparr>))
       (setrand 1))))))"

section \<open>Choosing a random user page\<close>

definition rand :: "u32 \<Rightarrow> (u32, kst) kop" where
  "rand limit =
     (if limit = 0 then panic ''trap'' else
     oseq (modify (\<lambda>s. s\<lparr>kmem := (kmem s)\<lparr>rand_next := rand_next (kmem s) * 1103515245 + 12345\<rparr>\<rparr>))
       (gets (\<lambda>s. ucast (rand_next (kmem s) div 65536) mod limit)))"

fun random_user_page_loop :: "nat \<Rightarrow> (nat, kst) kop" where
  "random_user_page_loop 0 =
     panic ''Tried 100 random indices for random user page, all failed''"
| "random_user_page_loop (Suc x) =
     obind (gets (\<lambda>s. npages (kmem s))) (\<lambda>n.
     obind (rand n) (\<lambda>i.
     obind (gets (\<lambda>s. cva (core_map (kmem s) ! unat i))) (\<lambda>va.
     if va \<noteq> 0 then ret (unat i) else random_user_page_loop x)))"

definition get_random_user_page :: "(nat, kst) kop" where
  "get_random_user_page = random_user_page_loop 100"

section \<open>Exact behaviour\<close>

definition avail_set :: "kst \<Rightarrow> nat set" where
  "avail_set s = {i. i < length (core_map (kmem s)) \<and> available (core_map (kmem s) ! i)}"

text \<open>The invariant of the allocator once \<open>mem_init\<close> has run.\<close>

definition kmem_ok :: "kst \<Rightarrow> bool" where
  "kmem_ok s \<longleftrightarrow>
     length (core_map (kmem s)) = unat (npages (kmem s)) \<and> unat (npages (kmem s)) < 2 ^ 19 \<and>
     free_pages (kmem s) = int (card (avail_set s)) \<and>
     (\<forall>i \<in> avail_set s. kend (kmem s) \<le> kpage i)"

definition kmem_locked :: "kst \<Rightarrow> bool" where
  "kmem_locked s \<longleftrightarrow> use_lock (kmem s) \<and> locks s KmemLock = free_lock \<and> cpu_ok (cpu s)"

definition take_page :: "nat \<Rightarrow> kmem_state \<Rightarrow> kmem_state" where
  "take_page i k = k\<lparr>core_map := (core_map k)[i := (core_map k ! i)\<lparr>available := False\<rparr>],
     pages_in_use := pages_in_use k + 1, free_pages := free_pages k - 1\<rparr>"

definition give_page :: "nat \<Rightarrow> kmem_state \<Rightarrow> kmem_state" where
  "give_page i k = k\<lparr>pages_in_use := pages_in_use k - 1, free_pages := free_pages k + 1,
     core_map := (core_map k)[i := \<lparr>available = True, cuser = False, cva = 0\<rparr>]\<rparr>"

lemma unat_scast_u32:
  assumes "unat (x :: u32) < 2 ^ 31"
  shows "unat (scast x :: u64) = unat x"
proof -
  have "(scast x :: u64) = ucast x"
    by (simp only: scast_eq ucast_eq sint_u32 [OF assms])
  then show ?thesis
    by (simp only: unsigned_ucast_eq) (rule take_bit_nat_eq_self, rule less_trans [OF assms], simp)
qed

lemma mem_bytes_bound:
  assumes "unat n < 2 ^ 19"
  shows "unat (mem_bytes n) = unat n * 4096" "unat (scast n :: u64) = unat n"
proof -
  show "unat (scast n :: u64) = unat n" using assms by (intro unat_scast_u32) simp
  have "unat (n * 4096) = unat n * 4096" using assms by (simp add: unat_word_ariths)
  then show "unat (mem_bytes n) = unat n * 4096"
    unfolding mem_bytes_def using assms by (subst unat_scast_u32) simp_all
qed

lemma page2pa_kpage [simp]: "P2V (page2pa i) = kpage i"
  by (simp add: page2pa_def kpage_def)

lemma wp_pa2page_kpage:
  assumes "unat (npages (kmem s)) < 2 ^ 19" "i < unat (npages (kmem s))"
  shows "wp (pa2page (V2P (kpage i))) Q s = Q i s"
proof -
  have i: "i < 2 ^ 19" using assms by linarith
  have "\<not> PGNUM (V2P (kpage i)) \<ge> (scast (npages (kmem s)) :: u64)"
    using assms(2) by (simp add: word_le_nat_alt mem_bytes_bound [OF assms(1)] PGNUM_page_addr [OF i])
  then show ?thesis
    by (simp add: pa2page_def wp_rules PGNUM_page_addr [OF i])
qed

lemma kmem_locked_restore: "kmem_locked s \<Longrightarrow> (locks s)(KmemLock := free_lock) = locks s"
  by (auto simp: kmem_locked_def fun_upd_idem)

lemma wp_kalloc:
  assumes "kmem_locked s"
  shows "wp kalloc Q s = (case find_idx available (take (unat (npages (kmem s))) (core_map (kmem s))) of
           Some i \<Rightarrow> Q (kpage i) (s\<lparr>kmem := take_page i (kmem s), cpu := quiet (cpu s)\<rparr>)
         | None \<Rightarrow> Q 0 (s\<lparr>cpu := quiet (cpu s)\<rparr>))"
  using assms
  by (auto simp: kalloc_def wp_rules kmem_locked_def upd_core_def take_page_def kst_comm fun_upd_idem
      cpu_ok_def split: option.splits)

text \<open>What \<open>kfree\<close> accepts: a page of memory above the kernel's image.\<close>

definition freeable :: "kmem_state \<Rightarrow> nat \<Rightarrow> bool" where
  "freeable k i \<longleftrightarrow> unat (npages k) < 2 ^ 19 \<and> i < unat (npages k) \<and> kend k \<le> kpage i"

lemma kfree_guard:
  assumes "freeable k i"
  shows "kpage i mod PGSIZE = 0" "\<not> kpage i < kend k" "\<not> V2P (kpage i) \<ge> mem_bytes (npages k)"
proof -
  have n: "unat (npages k) < 2 ^ 19" and i: "i < unat (npages k)" "i < 2 ^ 19"
    using assms by (auto simp: freeable_def)
  show "kpage i mod PGSIZE = 0" by (rule kpage_aligned [OF i(2)])
  show "\<not> kpage i < kend k" using assms by (simp add: freeable_def not_less)
  show "\<not> V2P (kpage i) \<ge> mem_bytes (npages k)"
    using i(1) by (simp add: word_le_nat_alt mem_bytes_bound [OF n] unat_page_addr [OF i(2)])
qed

lemma wp_kfree_lk:
  assumes "kmem_locked s" "freeable (kmem s) i"
  shows "wp (kfree (kpage i)) Q s =
     Q () (s\<lparr>pviews := fill_views (kpage i) 2 (pviews s), kmem := give_page i (kmem s),
             cpu := quiet (cpu s)\<rparr>)"
proof -
  have n: "unat (npages (kmem s)) < 2 ^ 19" "i < unat (npages (kmem s))"
    using assms by (auto simp: freeable_def)
  have g: "\<not> (kpage i mod PGSIZE \<noteq> 0 \<or> kpage i < kend (kmem s) \<or> V2P (kpage i) \<ge> mem_bytes (npages (kmem s)))"
    using kfree_guard [OF assms(2)] by blast
  show ?thesis
    using assms(1) g n unfolding kmem_locked_def
    by (simp add: kfree_def wp_rules wp_pa2page_kpage upd_core_def give_page_def kst_comm fun_upd_idem
        cpu_ok_def del: V2P_kpage)
qed

lemma wp_kfree_nolk:
  assumes "\<not> use_lock (kmem s)" "freeable (kmem s) i"
  shows "wp (kfree (kpage i)) Q s =
     Q () (s\<lparr>pviews := fill_views (kpage i) 2 (pviews s), kmem := give_page i (kmem s)\<rparr>)"
proof -
  have n: "unat (npages (kmem s)) < 2 ^ 19" "i < unat (npages (kmem s))"
    using assms by (auto simp: freeable_def)
  have g: "\<not> (kpage i mod PGSIZE \<noteq> 0 \<or> kpage i < kend (kmem s) \<or> V2P (kpage i) \<ge> mem_bytes (npages (kmem s)))"
    using kfree_guard [OF assms(2)] by blast
  show ?thesis
    using assms(1) g n
    by (simp add: kfree_def wp_rules wp_pa2page_kpage upd_core_def give_page_def kst_comm
        del: V2P_kpage)
qed

section \<open>The contract of a page allocator\<close>

text \<open>
  \<open>alloc\<close> takes a page out of a finite pool, or returns the null pointer when the pool is empty;
  \<open>dealloc\<close> puts a managed page back.
\<close>

primrec alloc_many :: "nat \<Rightarrow> (u64, 's) kop \<Rightarrow> (u64 list, 's) kop" where
  "alloc_many 0 alloc = ret []"
| "alloc_many (Suc n) alloc = obind alloc (\<lambda>p. obind (alloc_many n alloc) (\<lambda>ps. ret (p # ps)))"

locale page_allocator =
  fixes alloc :: "(u64, 's) kop"
    and dealloc :: "u64 \<Rightarrow> (unit, 's) kop"
    and inv :: "'s \<Rightarrow> bool"
    and pool :: "'s \<Rightarrow> u64 set"
    and managed :: "'s \<Rightarrow> u64 set"
  assumes alloc_some: "inv s \<Longrightarrow> pool s \<noteq> {} \<Longrightarrow>
      wp alloc (\<lambda>p t. p \<in> pool s \<and> pool t = pool s - {p} \<and> managed t = managed s \<and> inv t) s"
    and alloc_none: "inv s \<Longrightarrow> pool s = {} \<Longrightarrow> wp alloc (\<lambda>p t. p = 0 \<and> pool t = {} \<and> inv t) s"
    and dealloc_managed: "inv s \<Longrightarrow> p \<in> managed s - pool s \<Longrightarrow>
      wp (dealloc p) (\<lambda>_ t. pool t = insert p (pool s) \<and> managed t = managed s \<and> inv t) s"
    and pool_finite: "inv s \<Longrightarrow> finite (pool s)"
    and pool_managed: "inv s \<Longrightarrow> pool s \<subseteq> managed s"
    and managed_nonzero: "inv s \<Longrightarrow> 0 \<notin> managed s"
begin

lemma alloc_many_distinct:
  assumes "inv s" "n \<le> card (pool s)"
  shows "wp (alloc_many n alloc) (\<lambda>ps t. length ps = n \<and> distinct ps \<and> set ps \<subseteq> pool s \<and>
     pool t = pool s - set ps \<and> inv t) s"
  using assms
proof (induction n arbitrary: s)
  case 0
  then show ?case by (simp add: wp_rules)
next
  case (Suc n)
  then have "pool s \<noteq> {}" by auto
  have "wp (alloc_many n alloc) (\<lambda>ps u. length (p # ps) = Suc n \<and> distinct (p # ps) \<and>
      set (p # ps) \<subseteq> pool s \<and> pool u = pool s - set (p # ps) \<and> inv u) t"
    if "p \<in> pool s \<and> pool t = pool s - {p} \<and> managed t = managed s \<and> inv t" for p t
  proof (rule wp_mono [OF Suc.IH])
    show "inv t" using that by simp
    show "n \<le> card (pool t)"
      using that Suc.prems pool_finite [OF Suc.prems(1)] by (simp add: card_Diff_singleton)
  qed (use that in auto)
  then show ?case
    using alloc_some [OF Suc.prems(1) \<open>pool s \<noteq> {}\<close>]
    by (auto simp: wp_rules wp_ret_fun elim!: wp_mono)
qed

lemma alloc_zero_iff:
  assumes "inv s"
  shows "wp alloc (\<lambda>p t. p = 0 \<longleftrightarrow> pool s = {}) s"
proof (cases "pool s = {}")
  case True
  then show ?thesis using alloc_none [OF assms] by (auto elim: wp_mono)
next
  case False
  then show ?thesis
    using alloc_some [OF assms False] pool_managed [OF assms] managed_nonzero [OF assms]
    by (auto elim!: wp_mono)
qed

lemma alloc_dealloc:
  assumes "inv s" "pool s \<noteq> {}"
  shows "wp (obind alloc dealloc) (\<lambda>_ t. pool t = pool s \<and> inv t) s"
proof -
  have "wp (dealloc p) (\<lambda>_ u. pool u = pool s \<and> inv u) t"
    if "p \<in> pool s \<and> pool t = pool s - {p} \<and> managed t = managed s \<and> inv t" for p t
    using that pool_managed [OF assms(1)]
    by (intro wp_mono [OF dealloc_managed]) auto
  then show ?thesis
    using alloc_some [OF assms] by (auto simp: wp_rules elim!: wp_mono)
qed

end

section \<open>The allocator keeps its invariant\<close>

definition kalloc_inv :: "kst \<Rightarrow> bool" where
  "kalloc_inv s \<longleftrightarrow> kmem_ok s \<and> kmem_locked s"

definition page_pool :: "kst \<Rightarrow> u64 set" where
  "page_pool s = kpage ` avail_set s"

definition managed_pages :: "kst \<Rightarrow> u64 set" where
  "managed_pages s = kpage ` {i. freeable (kmem s) i}"

lemma avail_set_code:
  "avail_set s = set (filter (\<lambda>i. available (core_map (kmem s) ! i)) [0..<length (core_map (kmem s))])"
  by (auto simp: avail_set_def)

lemma avail_set_upd:
  assumes "i < length (core_map (kmem s))"
  shows "avail_set (s\<lparr>kmem := take_page i (kmem s)\<rparr>) = avail_set s - {i}"
    and "avail_set (s\<lparr>kmem := give_page i (kmem s)\<rparr>) = insert i (avail_set s)"
  using assms by (auto simp: avail_set_def take_page_def give_page_def nth_list_update split: if_splits)

lemma avail_set_other [simp]:
  "avail_set (s\<lparr>cpu := c\<rparr>) = avail_set s" "avail_set (s\<lparr>pviews := v\<rparr>) = avail_set s"
  by (simp_all add: avail_set_def)

lemma finite_avail_set [simp]: "finite (avail_set s)"
  by (simp add: avail_set_def)

lemma page_upd_sel [simp]:
  "npages (take_page i k) = npages k" "kend (take_page i k) = kend k" "use_lock (take_page i k) = use_lock k"
  "length (core_map (take_page i k)) = length (core_map k)" "free_pages (take_page i k) = free_pages k - 1"
  "npages (give_page i k) = npages k" "kend (give_page i k) = kend k" "use_lock (give_page i k) = use_lock k"
  "length (core_map (give_page i k)) = length (core_map k)" "free_pages (give_page i k) = free_pages k + 1"
  by (simp_all add: take_page_def give_page_def)

lemma freeable_upd [simp]:
  "freeable (take_page i k) = freeable k" "freeable (give_page i k) = freeable k"
  by (simp_all add: freeable_def fun_eq_iff)

lemma first_available:
  assumes "kmem_ok s" "find_idx available (take (unat (npages (kmem s))) (core_map (kmem s))) = Some i"
  shows "i \<in> avail_set s" "i < length (core_map (kmem s))" "\<And>j. j < i \<Longrightarrow> j \<notin> avail_set s"
  using assms by (auto simp: kmem_ok_def avail_set_def find_idx_Some)

lemma none_available:
  assumes "kmem_ok s" "find_idx available (take (unat (npages (kmem s))) (core_map (kmem s))) = None"
  shows "avail_set s = {}"
proof -
  have "take (unat (npages (kmem s))) (core_map (kmem s)) = core_map (kmem s)"
    using assms(1) by (simp add: kmem_ok_def)
  then show ?thesis
    using assms(2) by (auto simp: avail_set_def find_idx_None)
qed

lemma kalloc_inv_take:
  assumes "kalloc_inv s" "i \<in> avail_set s"
  shows "kalloc_inv (s\<lparr>kmem := take_page i (kmem s), cpu := quiet (cpu s)\<rparr>)"
proof -
  have i: "i < length (core_map (kmem s))" using assms(2) by (simp add: avail_set_def)
  have "card (avail_set s - {i}) + 1 = card (avail_set s)"
    using assms(2) card_Suc_Diff1 [of "avail_set s" i] by simp
  then have "int (card (avail_set s - {i})) = int (card (avail_set s)) - 1" by linarith
  then show ?thesis
    using assms avail_set_upd(1) [OF i]
    unfolding kalloc_inv_def kmem_ok_def kmem_locked_def by simp
qed

lemma kalloc_inv_give:
  assumes "kalloc_inv s" "i \<notin> avail_set s" "freeable (kmem s) i"
  shows "kalloc_inv (s\<lparr>pviews := v, kmem := give_page i (kmem s), cpu := quiet (cpu s)\<rparr>)"
proof -
  have i: "i < length (core_map (kmem s))" using assms by (simp add: kalloc_inv_def kmem_ok_def freeable_def)
  have "avail_set (s\<lparr>pviews := v, kmem := give_page i (kmem s)\<rparr>) = insert i (avail_set s)"
    using avail_set_upd(2) [of i "s\<lparr>pviews := v\<rparr>"] i by simp
  then show ?thesis
    using assms unfolding kalloc_inv_def kmem_ok_def kmem_locked_def freeable_def by simp
qed

lemma kalloc_inv_quiet [simp]: "kalloc_inv (s\<lparr>cpu := quiet (cpu s)\<rparr>) = kalloc_inv s"
  by (simp add: kalloc_inv_def kmem_ok_def kmem_locked_def)

lemma avail_bound: "kmem_ok s \<Longrightarrow> i \<in> avail_set s \<Longrightarrow> freeable (kmem s) i \<and> i < 2 ^ 19"
  by (auto simp: kmem_ok_def avail_set_def freeable_def)

lemma pool_minus:
  assumes "kmem_ok s" "i \<in> avail_set s"
  shows "kpage ` (avail_set s - {i}) = page_pool s - {kpage i}"
proof -
  have "kpage x \<noteq> kpage i" if "x \<in> avail_set s" "x \<noteq> i" for x
    using that assms avail_bound kpage_inj by blast
  then show ?thesis by (auto simp: page_pool_def)
qed

interpretation phys: page_allocator kalloc kfree kalloc_inv page_pool managed_pages
proof unfold_locales
  fix s p
  assume inv: "kalloc_inv s"
  then have ok: "kmem_ok s" "kmem_locked s" by (simp_all add: kalloc_inv_def)
  let ?r = "find_idx available (take (unat (npages (kmem s))) (core_map (kmem s)))"
  show "wp kalloc (\<lambda>p t. p \<in> page_pool s \<and> page_pool t = page_pool s - {p} \<and>
          managed_pages t = managed_pages s \<and> kalloc_inv t) s" if "page_pool s \<noteq> {}"
  proof (cases ?r)
    case None
    then show ?thesis using that none_available [OF ok(1)] by (simp add: page_pool_def)
  next
    case (Some i)
    note i = first_available(1,2) [OF ok(1) Some]
    have "page_pool (s\<lparr>kmem := take_page i (kmem s), cpu := quiet (cpu s)\<rparr>) = page_pool s - {kpage i}"
      using pool_minus [OF ok(1) i(1)] avail_set_upd(1) [OF i(2)] by (simp add: page_pool_def)
    then show ?thesis
      using i(1) inv Some
      by (simp add: wp_kalloc [OF ok(2)] kalloc_inv_take managed_pages_def) (simp add: page_pool_def)
  qed
  show "wp kalloc (\<lambda>p t. p = 0 \<and> page_pool t = {} \<and> kalloc_inv t) s" if "page_pool s = {}"
  proof (cases ?r)
    case None
    then show ?thesis using that inv by (simp add: wp_kalloc [OF ok(2)]) (simp add: page_pool_def)
  next
    case (Some i)
    then show ?thesis using that first_available(1) [OF ok(1) Some] by (simp add: page_pool_def)
  qed
  show "wp (kfree p) (\<lambda>_ t. page_pool t = insert p (page_pool s) \<and> managed_pages t = managed_pages s \<and>
          kalloc_inv t) s" if "p \<in> managed_pages s - page_pool s"
  proof -
    from that obtain i where i: "p = kpage i" "freeable (kmem s) i" "i \<notin> avail_set s"
      by (auto simp: managed_pages_def page_pool_def)
    then have "i < length (core_map (kmem s))" using ok by (simp add: kmem_ok_def freeable_def)
    then have "avail_set (s\<lparr>pviews := v, kmem := give_page i (kmem s)\<rparr>) = insert i (avail_set s)" for v
      using avail_set_upd(2) [of i "s\<lparr>pviews := v\<rparr>"] by simp
    then show ?thesis
      using i inv
      by (simp add: wp_kfree_lk [OF ok(2)] kalloc_inv_give managed_pages_def) (simp add: page_pool_def)
  qed
  show "finite (page_pool s)" by (simp add: page_pool_def)
  show "page_pool s \<subseteq> managed_pages s"
    using avail_bound [OF ok(1)] by (auto simp: page_pool_def managed_pages_def)
  show "0 \<notin> managed_pages s"
  proof
    assume "0 \<in> managed_pages s"
    then obtain i where "freeable (kmem s) i" "kpage i = 0" by (auto simp: managed_pages_def)
    then show False using kpage_nonzero [of i] by (simp add: freeable_def)
  qed
qed

section \<open>Initialisation builds the invariant\<close>

definition fresh_entry :: core_map_entry where
  "fresh_entry = \<lparr>available = True, cuser = False, cva = 0\<rparr>"

lemma kpage_Suc: "kpage i + PGSIZE = kpage (Suc i)"
  by (simp add: kpage_def P2V_def PGSIZE_def push_bit_eq_mult algebra_simps)

lemma kpage_le_iff:
  assumes "i < 2 ^ 19" "j < 2 ^ 19"
  shows "kpage i \<le> kpage j \<longleftrightarrow> i \<le> j"
  unfolding word_le_nat_alt unat_kpage [OF assms(1)] unat_kpage [OF assms(2)] by simp

lemma take_replicate_Suc:
  "i < length xs \<Longrightarrow> take (Suc i) (xs[i := x]) @ replicate (length xs - Suc i) x =
     take i xs @ replicate (length xs - i) x"
  by (simp add: take_Suc_conv_app_nth Suc_diff_Suc replicate_append_same flip: replicate_Suc)

text \<open>The loop frees every page from \<open>i\<close> to the end of memory, and nothing else changes but the
  contents of these pages and the counters.\<close>

definition freed_from :: "nat \<Rightarrow> kst \<Rightarrow> kst \<Rightarrow> bool" where
  "freed_from i s t \<longleftrightarrow>
     core_map (kmem t) = take i (core_map (kmem s)) @ replicate (length (core_map (kmem s)) - i) fresh_entry \<and>
     npages (kmem t) = npages (kmem s) \<and> kend (kmem t) = kend (kmem s) \<and>
     use_lock (kmem t) = use_lock (kmem s) \<and> locks t = locks s \<and> cpu t = cpu s"

lemma wp_freerange_loop:
  assumes "unat (npages (kmem s)) = N" "Suc N < 2 ^ 19" "length (core_map (kmem s)) = N" "i \<le> N"
    and "N - i < n" "kend (kmem s) \<le> kpage i" "\<not> use_lock (kmem s)"
  shows "wp (freerange_loop n (kpage i) (kpage N)) (\<lambda>_ t. freed_from i s t) s"
  using assms
proof (induction n arbitrary: i s)
  case 0
  then show ?case by simp
next
  case (Suc n)
  show ?case
  proof (cases "i < N")
    case True
    then have le: "kpage i + PGSIZE \<le> kpage N"
      using Suc.prems(2) by (simp only: kpage_Suc) (simp add: kpage_le_iff)
    have fr: "freeable (kmem s) i" using Suc.prems True by (simp add: freeable_def)
    let ?t = "s\<lparr>pviews := fill_views (kpage i) 2 (pviews s), kmem := give_page i (kmem s)\<rparr>"
    have "kpage i \<le> kpage (Suc i)" using True Suc.prems(2) by (simp add: kpage_le_iff)
    then have "wp (freerange_loop n (kpage (Suc i)) (kpage N)) (\<lambda>_ u. freed_from (Suc i) ?t u) ?t"
      using Suc.prems True by (intro Suc.IH) auto
    moreover have "freed_from i s u" if "freed_from (Suc i) ?t u" for u
      using that True Suc.prems(3) take_replicate_Suc [of i "core_map (kmem s)" fresh_entry]
      by (simp add: freed_from_def give_page_def fresh_entry_def)
    ultimately show ?thesis
      using le by (auto simp: freerange_loop.simps wp_rules wp_kfree_nolk [OF Suc.prems(7) fr] kpage_Suc elim: wp_mono)
  next
    case False
    then have "i = N" using Suc.prems(4) by simp
    have "\<not> kpage N + PGSIZE \<le> kpage N"
      using Suc.prems(2) by (simp only: kpage_Suc) (simp add: kpage_le_iff)
    then show ?thesis using \<open>i = N\<close> Suc.prems by (simp add: freerange_loop.simps wp_rules freed_from_def)
  qed
qed

text \<open>Addresses inside memory, and the first page at or above one.\<close>

definition first_page :: "u64 \<Rightarrow> nat" where
  "first_page v = unat (PGNUM (V2P (PGROUNDUP v)))"

lemma KERNBASE_pages: "unat KERNBASE = 4503599626846208 * 4096"
  by (simp add: KERNBASE_def)

lemma roundup_offset: "(b * 4096 + d + 4095) div 4096 * 4096 = (d + 4095) div 4096 * 4096 + b * (4096 :: nat)"
proof -
  have "(b * 4096 + d + 4095) div 4096 = (d + 4095) div 4096 + b"
    using div_mult_self3 [of 4096 b "d + 4095"] by (simp add: add.assoc)
  then show ?thesis by (simp only: distrib_right)
qed

lemma PGROUNDUP_kpage:
  assumes "unat v = unat KERNBASE + d" "d \<le> N * 4096" "Suc N < 2 ^ 19"
  shows "PGROUNDUP v = kpage ((d + 4095) div 4096)" "(d + 4095) div 4096 \<le> N"
    "first_page v = (d + 4095) div 4096"
proof -
  let ?i = "(d + 4095) div 4096"
  have "d + 4095 < Suc N * 4096" using assms(2) by simp
  then have "?i < Suc N" by (rule less_mult_imp_div_less)
  then show le: "?i \<le> N" by simp
  then have i: "?i < 2 ^ 19" using assms(3) by linarith
  have "unat v + 4095 < 2 ^ 64" using assms unfolding KERNBASE_pages by simp
  then have "unat (PGROUNDUP v) = ?i * 4096 + 4503599626846208 * 4096"
    by (simp only: unat_PGROUNDUP assms(1) KERNBASE_pages roundup_offset)
  then show eq: "PGROUNDUP v = kpage ?i"
    by (simp only: word_unat_eq_iff unat_kpage [OF i])
  show "first_page v = ?i"
    by (simp only: first_page_def eq V2P_kpage PGNUM_page_addr [OF i])
qed

lemma pages_above: "d \<le> N * 4096 \<Longrightarrow> (N * 4096 - d) div 4096 = N - (d + 4095) div (4096 :: nat)"
proof -
  assume d: "d \<le> N * 4096"
  obtain q r where qr: "d = q * 4096 + r" "r < 4096"
    by (metis div_mult_mod_eq mod_less_divisor zero_less_numeral)
  show ?thesis
  proof (cases "r = 0")
    case True
    then show ?thesis using qr by (simp flip: diff_mult_distrib)
  next
    case False
    then have "q < N" using d qr by simp
    then obtain k where k: "N = q + Suc k" by (auto simp: less_iff_Suc_add)
    have "(N * 4096 - d) div 4096 = k"
      by (rule div_nat_eqI) (use qr k False in simp_all)
    moreover have "(d + 4095) div 4096 = Suc q"
      by (rule div_nat_eqI) (use qr False in simp_all)
    ultimately show ?thesis using k by simp
  qed
qed

lemma sint_page_count:
  assumes "unat (D :: u64) < 2 ^ 31"
  shows "sint (ucast (signed_drop_bit 12 D) :: u32) = int (unat D div 4096)"
proof -
  let ?q = "unat D div 4096"
  have q: "?q < 2 ^ 31" using assms by (rule order.strict_trans1 [OF div_le_dividend])
  have "uint D < 2 ^ 31"
    using assms unfolding unat_eq_nat_uint by (simp only: nat_less_iff uint_ge_0) simp
  then have "uint D < 2 ^ 63" by (rule less_trans) simp
  moreover have "- (2 ^ 63) \<le> uint D" by (rule order_trans [OF _ uint_ge_0]) simp
  ultimately have "sint D = int (unat D)"
    by (simp only: sint_uint signed_take_bit_int_eq_self_iff uint_nat) simp
  then have sq: "sint (signed_drop_bit 12 D) = int ?q"
    by (simp only: sint_signed_drop_bit_eq) (simp add: drop_bit_eq_div zdiv_int)
  have "signed_drop_bit 12 D = (of_int (int ?q) :: u64)"
    by (simp only: of_int_sint scast_id sq [symmetric])
  then have "signed_drop_bit 12 D = (of_nat ?q :: u64)"
    by (simp only: of_int_of_nat_eq)
  moreover have "take_bit LENGTH(64) ?q = ?q"
    by (rule take_bit_nat_eq_self, rule less_trans [OF q]) simp
  ultimately have "(ucast (signed_drop_bit 12 D) :: u32) = of_nat ?q"
    by (simp only: unsigned_of_nat)
  moreover have "unat (of_nat ?q :: u32) = ?q"
    by (simp only: unat_of_nat) (rule mod_less, rule less_trans [OF q], simp)
  ultimately show ?thesis
    using q sint_u32 [of "of_nat ?q"] by (simp only: uint_nat)
qed

lemma mem_init_builds:
  assumes N: "N = unat (npages (kmem s))" "Suc N < 2 ^ 19"
    and v: "v = vstart + PGROUNDUP (scast (npages (kmem s)) * 16)"
    and range: "KERNBASE \<le> v" "v \<le> kpage N" "kend (kmem s) \<le> v"
    and "cpu_ok (cpu s)"
  shows "wp (mem_init vstart) (\<lambda>_ t. kalloc_inv t \<and> avail_set t = {first_page v ..< N} \<and>
     pages_in_use (kmem t) = 0) s"
proof -
  define d where "d = unat v - unat KERNBASE"
  define i where "i = (d + 4095) div 4096"
  have N19: "N < 2 ^ 19" "unat (npages (kmem s)) < 2 ^ 19" using N by simp_all
  have d: "unat v = unat KERNBASE + d" using range(1) by (simp add: d_def word_le_nat_alt)
  then have dN: "d \<le> N * 4096"
    using range(2) unfolding word_le_nat_alt unat_kpage [OF N19(1)] KERNBASE_pages by simp
  note up = PGROUNDUP_kpage [OF d dN N(2), folded i_def]
  have vend: "P2V (mem_bytes (npages (kmem s))) = kpage N"
  proof -
    have "unat (mem_bytes (npages (kmem s))) = unat (push_bit 12 (of_nat N :: u64))"
      by (simp only: mem_bytes_bound(1) [OF N19(2)] unat_page_addr [OF N19(1)] N(1) [symmetric])
    then have "mem_bytes (npages (kmem s)) = push_bit 12 (of_nat N)" by (simp only: word_unat_eq_iff)
    then show ?thesis by (simp only: kpage_def)
  qed
  have diff: "unat (kpage N - v) = N * 4096 - d"
    using range(2) by (simp only: unat_sub d unat_kpage [OF N19(1)] KERNBASE_pages)
  have cnt: "sint (ucast (signed_drop_bit 12 (kpage N - v)) :: u32) = int (N - i)"
  proof (subst sint_page_count)
    show "unat (kpage N - v) < 2 ^ 31" using diff N19(1) by simp
  qed (simp only: diff pages_above [OF dN] i_def)
  have "kend (kmem s) \<le> kpage i"
  proof -
    have "unat v + 4095 < 2 ^ 64" using d dN N unfolding KERNBASE_pages by simp
    then have "v \<le> PGROUNDUP v" by (simp only: word_le_nat_alt PGROUNDUP_aligned(2))
    then show ?thesis using range(3) up(1) by simp
  qed
  let ?e = "\<lparr>available = False, cuser = False, cva = 0\<rparr>"
  let ?s = "s\<lparr>kmem := (kmem s)\<lparr>core_map := replicate N ?e, use_lock := False\<rparr>,
              locks := (locks s)(KmemLock := free_lock)\<rparr>"
  have "wp (freerange_loop (Suc N) (kpage i) (kpage N)) (\<lambda>_ t. freed_from i ?s t) ?s"
    by (rule wp_freerange_loop) (use N N19 up \<open>kend (kmem s) \<le> kpage i\<close> in simp_all)
  moreover
  have "kalloc_inv u \<and> avail_set u = {i..<N}"
    if "freed_from i ?s t" and u: "u = t\<lparr>kmem := (kmem t)\<lparr>free_pages := int (N - i),
          pages_in_use := 0, pages_in_swap := 0, use_lock := True, rand_next := 1\<rparr>\<rparr>" for t u
  proof -
    have cm: "core_map (kmem t) = replicate i ?e @ replicate (N - i) fresh_entry"
      using that(1) up(2) by (simp add: freed_from_def min_def)
    then have av: "avail_set u = {i..<N}"
      using up(2) u by (auto simp: avail_set_def nth_append fresh_entry_def)
    have "kend (kmem s) \<le> kpage j" if "j \<in> {i..<N}" for j
      using that \<open>kend (kmem s) \<le> kpage i\<close> N19(1) up(2) kpage_le_iff [of i j]
      by (meson atLeastLessThan_iff le_less_trans order_trans less_trans)
    then show ?thesis
      using that(1) N19(1) N up(2) cm av u assms(7)
      by (simp add: kalloc_inv_def kmem_ok_def kmem_locked_def freed_from_def)
  qed
  ultimately show ?thesis
    unfolding mem_init_def Let_def freerange_def setrand_def initlock_def
    by (simp add: wp_rules vend up(1,3) cnt kst_comm flip: N(1) v free_lock_def) (auto simp: wp_rules elim!: wp_mono)
qed

section \<open>Properties\<close>

text \<open>C25: \<open>kalloc\<close> always returns.  It hands out the lowest available page, marks that page alone
  as taken and adjusts the two counters; with no page available it returns the null pointer and
  changes nothing.  The lock is taken and given back on both paths.\<close>

theorem kalloc_takes_lowest:
  assumes "kalloc_inv s"
  shows "kalloc s =
    (if avail_set s = {} then Ret 0 (s\<lparr>cpu := quiet (cpu s)\<rparr>)
     else Ret (kpage (Min (avail_set s)))
            (s\<lparr>kmem := take_page (Min (avail_set s)) (kmem s), cpu := quiet (cpu s)\<rparr>))"
proof -
  have ok: "kmem_ok s" "kmem_locked s" using assms by (simp_all add: kalloc_inv_def)
  show ?thesis
  proof (cases "find_idx available (take (unat (npages (kmem s))) (core_map (kmem s)))")
    case None
    then show ?thesis
      using none_available [OF ok(1) None] by (auto intro: wp_eq_Ret simp: wp_kalloc [OF ok(2)])
  next
    case (Some i)
    note i = first_available [OF ok(1) Some]
    then have "Min (avail_set s) = i" by (intro Min_eqI) (auto simp: not_less [symmetric])
    then show ?thesis
      using Some i by (auto intro: wp_eq_Ret simp: wp_kalloc [OF ok(2)])
  qed
qed

text \<open>A machine with four pages, the first two of them occupied by the kernel.\<close>

definition demo_mem :: kst where
  "demo_mem = zero_kst\<lparr>kmem := \<lparr>npages = 4, pages_in_use = 0, pages_in_swap = 0, free_pages = 2,
     core_map = [\<lparr>available = False, cuser = False, cva = 0\<rparr>, \<lparr>available = False, cuser = False, cva = 0\<rparr>,
       fresh_entry, fresh_entry],
     use_lock = True, kend = kpage 2, rand_next = 1\<rparr>\<rparr>"

lemma demo_mem_avail: "avail_set demo_mem = {2, 3}"
  by (simp add: avail_set_code demo_mem_def fresh_entry_def upt_rec eval_nat_numeral)

lemma demo_mem_inv: "kalloc_inv demo_mem"
  unfolding kalloc_inv_def kmem_ok_def kmem_locked_def demo_mem_avail
  by (simp add: demo_mem_def kpage_le_iff)

theorem kalloc_takes_lowest_witness:
  "kalloc demo_mem = Ret (kpage 2) (demo_mem\<lparr>kmem := take_page 2 (kmem demo_mem),
     cpu := quiet (cpu demo_mem)\<rparr>)"
  using kalloc_takes_lowest [OF demo_mem_inv] by (simp add: demo_mem_avail)



text \<open>C26: \<open>kfree\<close> undoes \<open>kalloc\<close>: allocating a page and freeing it again returns, and leaves the
  pool of free pages and the allocator's invariant (the counters included) as they were.\<close>

theorem kfree_undoes_kalloc:
  assumes "kalloc_inv s" "page_pool s \<noteq> {}"
  shows "wp (obind kalloc kfree) (\<lambda>_ t. page_pool t = page_pool s \<and> kalloc_inv t) s"
  by (rule phys.alloc_dealloc [OF assms])

theorem kfree_undoes_kalloc_witness:
  "wp (obind kalloc kfree) (\<lambda>_ t. page_pool t = page_pool demo_mem \<and> kalloc_inv t) demo_mem"
  by (rule kfree_undoes_kalloc [OF demo_mem_inv]) (simp add: page_pool_def demo_mem_avail)

text \<open>C17: \<open>mem_init\<close> builds the allocator's invariant.  For a memory of \<open>N\<close> pages, \<open>N + 1 < 2\<^sup>1\<^sup>9\<close>,
  it returns with exactly the whole pages above the core map available and with \<open>free_pages\<close>
  equal to their number.\<close>

theorem mem_init_establishes:
  assumes "N = unat (npages (kmem s))" "Suc N < 2 ^ 19"
    and "v = vstart + PGROUNDUP (scast (npages (kmem s)) * 16)"
    and "KERNBASE \<le> v" "v \<le> kpage N" "kend (kmem s) \<le> v" "cpu_ok (cpu s)"
  shows "wp (mem_init vstart) (\<lambda>_ t. kalloc_inv t \<and> avail_set t = {first_page v ..< N} \<and>
     free_pages (kmem t) = int (N - first_page v) \<and> pages_in_use (kmem t) = 0) s"
  by (rule wp_mono [OF mem_init_builds [OF assms]]) (simp add: kalloc_inv_def kmem_ok_def)

text \<open>Eight pages of memory and a kernel image that ends 100 bytes into the first.\<close>

definition demo_boot :: kst where
  "demo_boot = zero_kst\<lparr>kmem := (kmem zero_kst)\<lparr>npages := 8, kend := 0xFFFFFFFF80000064\<rparr>\<rparr>"

theorem mem_init_establishes_witness:
  "wp (mem_init 0xFFFFFFFF80000064) (\<lambda>_ t. kalloc_inv t \<and> avail_set t = {2..<8} \<and>
     free_pages (kmem t) = 6 \<and> pages_in_use (kmem t) = 0) demo_boot"
proof -
  have v: "0xFFFFFFFF80001064 = 0xFFFFFFFF80000064 + PGROUNDUP (scast (npages (kmem demo_boot)) * 16)"
    by (simp add: demo_boot_def PGROUNDUP_def PGSIZE_def)
  have "first_page 0xFFFFFFFF80001064 = 2"
    by (simp add: first_page_def PGROUNDUP_def PGSIZE_def V2P_def KERNBASE_def PGNUM_def)
  then show ?thesis
    using mem_init_establishes [OF _ _ v, of 8]
    by (simp add: demo_boot_def kpage_def P2V_def KERNBASE_def)
qed

end
