(* ===== verification/PageTable.thy ===== *)
theory PageTable
  imports Kalloc
begin

unbundle bit_operations_syntax

text \<open>
  Four-level page tables (\<open>kernel/x86_64vm.c\<close>).

  A page of a page table is known by its kernel address and read through \<open>pt_view\<close>; a pointer to an
  entry is the page with an index.  The symbol \<open>data\<close>, where the linker puts the kernel's data, is
  the argument \<open>data_start\<close>.  Loops over addresses run on fuel; without it they are \<open>Hang\<close>.
\<close>

section \<open>Entries\<close>

type_synonym pte_ptr = "u64 \<times> nat"

definition get_pte :: "pte_ptr \<Rightarrow> kst \<Rightarrow> u64" where
  "get_pte e s = pt_view (pviews s) (fst e) (snd e)"

definition set_pte :: "pte_ptr \<Rightarrow> u64 \<Rightarrow> kst \<Rightarrow> kst" where
  "set_pte e v s = s\<lparr>pviews := (pviews s)\<lparr>pt_view :=
     (pt_view (pviews s))(fst e := (pt_view (pviews s) (fst e))(snd e := v))\<rparr>\<rparr>"

definition pte_present :: "u64 \<Rightarrow> bool" where
  "pte_present e \<longleftrightarrow> e AND PTE_P \<noteq> 0"

text \<open>\<open>PDPT_ADDR\<close> and \<open>PDE_ADDR\<close> are the same function as \<open>PTE_ADDR\<close>.\<close>

definition table_of :: "u64 \<Rightarrow> u64" where
  "table_of e = P2V (PTE_ADDR e)"

section \<open>Walking\<close>

text \<open>One level of \<open>walkpml4\<close>: the table that an entry points to, created if it may be.\<close>

definition walk_level :: "pte_ptr \<Rightarrow> bool \<Rightarrow> (u64 option, kst) kop" where
  "walk_level e alloc =
     obind (gets (get_pte e)) (\<lambda>v.
     if pte_present v then ret (Some (table_of v))
     else if \<not> alloc then ret None
     else
       obind kalloc (\<lambda>n.
       if n = 0 then ret None else
       oseq (memset_page n 0) (
       oseq (modify (set_pte e (V2P n OR PTE_P OR PTE_W OR PTE_U)))
         (ret (Some n)))))"

definition walkpml4 :: "u64 \<Rightarrow> u64 \<Rightarrow> bool \<Rightarrow> (pte_ptr option, kst) kop" where
  "walkpml4 pml4 va alloc =
     obind (walk_level (pml4, PML4_INDEX va) alloc) (\<lambda>r.
     case r of None \<Rightarrow> ret None | Some pdpt \<Rightarrow>
     obind (walk_level (pdpt, PDPT_INDEX va) alloc) (\<lambda>r.
     case r of None \<Rightarrow> ret None | Some pgdir \<Rightarrow>
     obind (walk_level (pgdir, PD_INDEX va) alloc) (\<lambda>r.
     case r of None \<Rightarrow> ret None | Some pgtab \<Rightarrow>
     ret (Some (pgtab, PT_INDEX va)))))"

section \<open>Mapping\<close>

text \<open>\<open>n\<close> pages are left to map.\<close>

fun mappages_loop :: "nat \<Rightarrow> u64 \<Rightarrow> u64 \<Rightarrow> u64 \<Rightarrow> u64 \<Rightarrow> bool \<Rightarrow> (unit, kst) kop" where
  "mappages_loop 0 pml4 virt_pn phy_pn perm kern = ret ()"
| "mappages_loop (Suc n) pml4 virt_pn phy_pn perm kern =
     obind (walkpml4 pml4 (push_bit 12 virt_pn) True) (\<lambda>r.
     case r of None \<Rightarrow> panic ''not enough memory'' | Some pte \<Rightarrow>
     obind (gets (get_pte pte)) (\<lambda>v.
     if pte_present v then panic ''remap'' else
     oseq (modify (set_pte pte (PTE (push_bit 12 phy_pn) perm))) (
     oseq (kwhen (\<not> kern) (mark_user_mem (push_bit 12 phy_pn) (push_bit 12 virt_pn)))
       (mappages_loop n pml4 (virt_pn + 1) (phy_pn + 1) perm kern))))"

definition mappages :: "u64 \<Rightarrow> u64 \<Rightarrow> u32 \<Rightarrow> u64 \<Rightarrow> u64 \<Rightarrow> bool \<Rightarrow> (int, kst) kop" where
  "mappages pml4 virt_pn num_page phy_pn perm kern =
     oseq (mappages_loop (nat (sint num_page)) pml4 virt_pn phy_pn perm kern) (ret 0)"

definition EXTMEM :: u64 where "EXTMEM = 0x100000"
definition DEVSPACE :: u64 where "DEVSPACE = 0xFFFFFFFFFE000000"
definition KERNLINK :: u64 where "KERNLINK = KERNBASE + EXTMEM"

record kmap =
  virt :: u64
  phys_start :: u64
  phys_end :: u64
  kperm :: u64

definition kmap_table :: "u64 \<Rightarrow> u32 \<Rightarrow> kmap list" where
  "kmap_table data_start np =
     [\<lparr>virt = KERNBASE, phys_start = 0, phys_end = EXTMEM, kperm = PTE_W\<rparr>,
      \<lparr>virt = KERNLINK, phys_start = V2P KERNLINK, phys_end = V2P data_start, kperm = 0\<rparr>,
      \<lparr>virt = data_start, phys_start = V2P data_start, phys_end = scast np * PGSIZE, kperm = PTE_W\<rparr>,
      \<lparr>virt = DEVSPACE, phys_start = 0xFE000000, phys_end = 0x100000000, kperm = PTE_W\<rparr>]"

definition map_kernel :: "u64 \<Rightarrow> kmap \<Rightarrow> (unit, kst) kop" where
  "map_kernel pml4 k =
     oseq (mappages pml4 (drop_bit 12 (virt k)) (ucast (drop_bit 12 (phys_end k - phys_start k)))
             (drop_bit 12 (phys_start k)) (kperm k OR PTE_P) True)
       (ret ())"

definition setupkvm :: "u64 \<Rightarrow> (u64, kst) kop" where
  "setupkvm data_start =
     obind kalloc (\<lambda>pml4.
     if pml4 = 0 then ret 0 else
     oseq (memset_page pml4 0) (
     obind (gets (\<lambda>s. kmap_table data_start (npages (kmem s)))) (\<lambda>ks.
     oseq (foreach ks (map_kernel pml4))
       (ret pml4))))"

section \<open>Unmapping and freeing\<close>

definition find_next_possible_page :: "u64 \<Rightarrow> u64 \<Rightarrow> (u64, kst) kop" where
  "find_next_possible_page pml4 va =
     (let i4 = of_nat (PML4_INDEX va); i3 = of_nat (PDPT_INDEX va); i2 = of_nat (PD_INDEX va) in
     obind (gets (get_pte (pml4, PML4_INDEX va))) (\<lambda>e4.
     if \<not> pte_present e4 then ret (PGADDR (i4 + 1) 0 0 0 0 - PGSIZE) else
     obind (gets (get_pte (table_of e4, PDPT_INDEX va))) (\<lambda>e3.
     if \<not> pte_present e3 then ret (PGADDR i4 (i3 + 1) 0 0 0 - PGSIZE) else
     obind (gets (get_pte (table_of e3, PD_INDEX va))) (\<lambda>e2.
     if \<not> pte_present e2 then ret (PGADDR i4 i3 (i2 + 1) 0 0 - PGSIZE) else
     panic ''level is not missing''))))"

fun deallocuvm_loop :: "nat \<Rightarrow> u64 \<Rightarrow> u64 \<Rightarrow> u64 \<Rightarrow> (unit, kst) kop" where
  "deallocuvm_loop 0 pml4 a lim = hang"
| "deallocuvm_loop (Suc k) pml4 a lim =
     (if \<not> a < lim then ret () else
      obind (walkpml4 pml4 a False) (\<lambda>r.
      case r of
        None \<Rightarrow>
          obind (find_next_possible_page pml4 a) (\<lambda>b.
          deallocuvm_loop k pml4 (b + PGSIZE) lim)
      | Some pte \<Rightarrow>
          obind (gets (get_pte pte)) (\<lambda>v.
          oseq (kwhen (pte_present v) (
                  if PTE_ADDR v = 0 then panic ''kfree''
                  else oseq (kfree (P2V (PTE_ADDR v))) (modify (set_pte pte 0))))
            (deallocuvm_loop k pml4 (a + PGSIZE) lim))))"

declare deallocuvm_loop.simps [simp del] mappages_loop.simps [simp del]

text \<open>Every round of the loop moves up by at least one page.\<close>

definition deallocuvm :: "u64 \<Rightarrow> u64 \<Rightarrow> u64 \<Rightarrow> u64 \<Rightarrow> (u32, kst) kop" where
  "deallocuvm pml4 start oldsz newsz =
     (if newsz \<ge> oldsz then ret (ucast oldsz) else
      oseq (deallocuvm_loop (unat oldsz div 4096 + 2) pml4 (PGROUNDUP (start + newsz)) (start + oldsz))
        (ret (ucast newsz)))"

definition PTRS_PER_TABLE :: nat where "PTRS_PER_TABLE = 512"

definition freevm_pgdir :: "u64 \<Rightarrow> (unit, kst) kop" where
  "freevm_pgdir pgdir =
     oseq (foreach [0..<PTRS_PER_TABLE] (\<lambda>i.
             obind (gets (get_pte (pgdir, i))) (\<lambda>e.
             kwhen (pte_present e) (kfree (table_of e)))))
       (kfree pgdir)"

definition freevm_pdpt :: "u64 \<Rightarrow> (unit, kst) kop" where
  "freevm_pdpt pdpt =
     oseq (foreach [0..<PTRS_PER_TABLE] (\<lambda>i.
             obind (gets (get_pte (pdpt, i))) (\<lambda>e.
             kwhen (pte_present e) (freevm_pgdir (table_of e)))))
       (kfree pdpt)"

definition SZ_4G :: u64 where "SZ_4G = 0x100000000"

definition freevm :: "u64 \<Rightarrow> (unit, kst) kop" where
  "freevm pml4 =
     oseq (kassert (pml4 \<noteq> 0) ''freevm: no pml4'') (
     oseq (obind (deallocuvm pml4 0 SZ_4G 0) (\<lambda>_. ret ())) (
     oseq (foreach [0..<PTRS_PER_TABLE] (\<lambda>i.
             obind (gets (get_pte (pml4, i))) (\<lambda>e.
             kwhen (pte_present e) (freevm_pdpt (table_of e)))))
       (kfree pml4)))"

section \<open>What the hardware does\<close>

text \<open>The page walk of the processor, as a function of the state: the entry that maps an address.\<close>

definition hw_level :: "u64 \<Rightarrow> nat \<Rightarrow> kst \<Rightarrow> u64 option" where
  "hw_level t i s = (let e = get_pte (t, i) s in if pte_present e then Some (table_of e) else None)"

definition pte_of :: "u64 \<Rightarrow> u64 \<Rightarrow> kst \<Rightarrow> pte_ptr option" where
  "pte_of pml4 va s =
     (case hw_level pml4 (PML4_INDEX va) s of None \<Rightarrow> None | Some pdpt \<Rightarrow>
      case hw_level pdpt (PDPT_INDEX va) s of None \<Rightarrow> None | Some pgdir \<Rightarrow>
      case hw_level pgdir (PD_INDEX va) s of None \<Rightarrow> None | Some pgtab \<Rightarrow>
      Some (pgtab, PT_INDEX va))"

definition translate :: "u64 \<Rightarrow> u64 \<Rightarrow> kst \<Rightarrow> u64 option" where
  "translate pml4 va s =
     (case pte_of pml4 va s of
        None \<Rightarrow> None
      | Some pte \<Rightarrow> if pte_present (get_pte pte s)
          then Some (PTE_ADDR (get_pte pte s) + (va AND 4095)) else None)"

end
