(* ===== verification/Sleep.thy ===== *)
theory Sleep
  imports Spinlock
begin

text \<open>
  Giving up the CPU and waiting (\<open>sched\<close>, \<open>yield\<close>, \<open>sleep\<close>, \<open>wakeup\<close> of \<open>kernel/proc.c\<close>) and
  the sleep locks built on them (\<open>kernel/sleeplock.c\<close>).

  A call of \<open>swtch\<close> ends the operation with \<open>Swtch s\<close>: the CPU runs the scheduler from \<open>s\<close>.
  What the thread does when the scheduler comes back to it is a second definition
  (\<open>sched_resume\<close>, \<open>yield_resume\<close>, \<open>sleep_resume\<close>, \<open>acquiresleep_resume\<close>).
\<close>

section \<open>The current process\<close>

definition upd_proc :: "nat \<Rightarrow> (proc \<Rightarrow> proc) \<Rightarrow> kst \<Rightarrow> kst" where
  "upd_proc i f s = s\<lparr>ptable := (ptable s)\<lparr>procs :=
     (procs (ptable s))[i := f (procs (ptable s) ! i)]\<rparr>\<rparr>"

definition get_proc :: "nat \<Rightarrow> kst \<Rightarrow> proc" where
  "get_proc i s = procs (ptable s) ! i"

text \<open>\<open>myproc()\<close> used through a pointer: a null pointer faults in the kernel, and \<open>trap\<close> answers
  with \<open>panic("trap")\<close>.\<close>

definition myproc :: "(nat, kst) kop" where
  "myproc = obind (gets (\<lambda>s. curproc (cpu s))) (\<lambda>p.
     case p of None \<Rightarrow> panic ''trap'' | Some i \<Rightarrow> ret i)"

section \<open>Scheduling primitives\<close>

definition sched :: "(unit, kst) kop" where
  "sched =
     obind (gets (holding PtableLock)) (\<lambda>h.
     if \<not> h then panic ''sched ptable.lock'' else
     obind (gets (\<lambda>s. ncli (cpu s))) (\<lambda>n.
     if n \<noteq> 1 then panic ''sched locks'' else
     obind myproc (\<lambda>p.
     obind (gets (\<lambda>s. pstate (get_proc p s))) (\<lambda>st.
     if st = RUNNING then panic ''sched running'' else
     obind (gets (\<lambda>s. eflags_if (cpu s))) (\<lambda>on.
     if on then panic ''sched interruptible'' else
     (\<lambda>s. Swtch s))))))"

definition sched_resume :: "bool \<Rightarrow> (unit, kst) kop" where
  "sched_resume en = modify (\<lambda>s. s\<lparr>cpu := (cpu s)\<lparr>intena := en\<rparr>\<rparr>)"

definition yield :: "(unit, kst) kop" where
  "yield =
     oseq (acquire PtableLock) (
     obind myproc (\<lambda>p.
     oseq (modify (upd_proc p (\<lambda>q. q\<lparr>pstate := RUNNABLE\<rparr>))) sched))"

definition yield_resume :: "bool \<Rightarrow> (unit, kst) kop" where
  "yield_resume en = oseq (sched_resume en) (release PtableLock)"

definition sleep :: "chan \<Rightarrow> lockid option \<Rightarrow> (unit, kst) kop" where
  "sleep c lk =
     obind (gets (\<lambda>s. curproc (cpu s))) (\<lambda>p.
     if p = None then panic ''sleep'' else
     case lk of None \<Rightarrow> panic ''sleep without lk'' | Some l \<Rightarrow>
     oseq (kwhen (l \<noteq> PtableLock) (oseq (acquire PtableLock) (release l))) (
     oseq (modify (upd_proc (the p) (\<lambda>q. q\<lparr>pchan := Some c, pstate := SLEEPING\<rparr>)))
       sched))"

definition sleep_resume :: "bool \<Rightarrow> lockid \<Rightarrow> (unit, kst) kop" where
  "sleep_resume en l =
     oseq (sched_resume en) (
     obind myproc (\<lambda>p.
     oseq (modify (upd_proc p (\<lambda>q. q\<lparr>pchan := None\<rparr>)))
       (kwhen (l \<noteq> PtableLock) (oseq (release PtableLock) (acquire l)))))"

definition wake :: "chan option \<Rightarrow> proc \<Rightarrow> proc" where
  "wake c p = (if pstate p = SLEEPING \<and> pchan p = c then p\<lparr>pstate := RUNNABLE\<rparr> else p)"

definition wakeup1 :: "chan option \<Rightarrow> (unit, kst) kop" where
  "wakeup1 c = modify (\<lambda>s. s\<lparr>ptable := (ptable s)\<lparr>procs := map (wake c) (procs (ptable s))\<rparr>\<rparr>)"

definition wakeup :: "chan \<Rightarrow> (unit, kst) kop" where
  "wakeup c = oseq (acquire PtableLock) (oseq (wakeup1 (Some c)) (release PtableLock))"

section \<open>Sleep locks\<close>

definition initsleeplock :: "slkid \<Rightarrow> (unit, kst) kop" where
  "initsleeplock l =
     oseq (initlock (SleepLk l))
       (modify (\<lambda>s. s\<lparr>slocks := (slocks s)(l := \<lparr>slocked = False, spid = 0\<rparr>)\<rparr>))"

text \<open>The body of the loop in \<open>acquiresleep\<close>, with the inner spin lock held.\<close>

definition acquiresleep_loop :: "slkid \<Rightarrow> (unit, kst) kop" where
  "acquiresleep_loop l =
     obind (gets (\<lambda>s. slocked (slocks s l))) (\<lambda>busy.
     if busy then sleep (ChSleeplock l) (Some (SleepLk l)) else
     obind myproc (\<lambda>p.
     oseq (modify (\<lambda>s. s\<lparr>slocks := (slocks s)(l := \<lparr>slocked = True, spid = pid (get_proc p s)\<rparr>)\<rparr>))
       (release (SleepLk l))))"

definition acquiresleep :: "slkid \<Rightarrow> (unit, kst) kop" where
  "acquiresleep l = oseq (acquire (SleepLk l)) (acquiresleep_loop l)"

definition acquiresleep_resume :: "bool \<Rightarrow> slkid \<Rightarrow> (unit, kst) kop" where
  "acquiresleep_resume en l = oseq (sleep_resume en (SleepLk l)) (acquiresleep_loop l)"

definition releasesleep :: "slkid \<Rightarrow> (unit, kst) kop" where
  "releasesleep l =
     oseq (acquire (SleepLk l)) (
     oseq (modify (\<lambda>s. s\<lparr>slocks := (slocks s)(l := \<lparr>slocked = False, spid = 0\<rparr>)\<rparr>)) (
     oseq (wakeup (ChSleeplock l))
       (release (SleepLk l))))"

definition holdingsleep :: "slkid \<Rightarrow> (bool, kst) kop" where
  "holdingsleep l =
     oseq (acquire (SleepLk l)) (
     obind (gets (slocks)) (\<lambda>sl.
     obind (if slocked (sl l)
            then obind myproc (\<lambda>p. gets (\<lambda>s. spid (sl l) = pid (get_proc p s)))
            else ret False) (\<lambda>r.
     oseq (release (SleepLk l)) (ret r))))"

section \<open>Giving up the CPU\<close>

text \<open>\<open>wps m Q s\<close>: the operation switches to the scheduler, in a state that satisfies \<open>Q\<close>.\<close>

definition wps :: "('a, 's) kop \<Rightarrow> ('s \<Rightarrow> bool) \<Rightarrow> 's \<Rightarrow> bool" where
  "wps m Q s \<longleftrightarrow> (case m s of Swtch t \<Rightarrow> Q t | _ \<Rightarrow> False)"

lemma wps_mono: "wps m Q s \<Longrightarrow> (\<And>t. Q t \<Longrightarrow> R t) \<Longrightarrow> wps m R s"
  by (auto simp: wps_def split: outcome.splits)

named_theorems wps_rules \<open>rewrite rules for switching\<close>

lemma wps_obind [wps_rules]: "wps (obind m f) Q s \<longleftrightarrow> wps m Q s \<or> wp m (\<lambda>a. wps (f a) Q) s"
  by (simp add: wps_def wp_def obind_def split: outcome.splits)

lemma wps_oseq [wps_rules]: "wps (oseq m n) Q s \<longleftrightarrow> wps m Q s \<or> wp m (\<lambda>_. wps n Q) s"
  by (simp add: oseq_def wps_obind)

lemma wps_basic [wps_rules]:
  "wps (ret a) Q s = False" "wps (panic e) Q s = False" "wps hang Q s = False"
  "wps (gets g) Q s = False" "wps (modify h) Q s = False"
  by (simp_all add: wps_def kop_defs)

lemma wps_swtch [wps_rules]: "wps (\<lambda>s. Swtch s) Q s = Q s"
  by (simp add: wps_def)

lemma wps_if [wps_rules]: "wps (if b then m else n) Q s = (if b then wps m Q s else wps n Q s)"
  by simp

lemma wps_kwhen [wps_rules]: "wps (kwhen b m) Q s = (b \<and> wps m Q s)"
  by (simp add: kwhen_def wps_rules)

lemma wps_locks [wps_rules]:
  "wps pushcli Q s = False" "wps popcli Q s = False"
  "wps (acquire l) Q s = False" "wps (release l) Q s = False"
  by (simp_all add: pushcli_def popcli_def acquire_def release_def wps_rules wp_rules)

lemma wp_swtch [wp_rules]: "wp (\<lambda>s. Swtch s) Q s = False"
  by (simp add: wp_def)

lemma wp_myproc [wp_rules]: "wp myproc Q s \<longleftrightarrow> (\<exists>p. curproc (cpu s) = Some p \<and> Q p s)"
  by (auto simp: myproc_def wp_rules split: option.splits)

lemma wps_myproc [wps_rules]: "wps myproc Q s = False"
  by (auto simp: myproc_def wps_rules wp_rules split: option.splits)

lemma wp_sched [wp_rules]: "wp sched Q s = False"
  by (auto simp: sched_def wp_rules)

lemma wp_sleep [wp_rules]: "wp (sleep c lk) Q s = False"
  by (cases lk) (auto simp: sleep_def wp_rules)

lemma wps_sched [wps_rules]:
  "wps sched Q s \<longleftrightarrow> holding PtableLock s \<and> ncli (cpu s) = 1 \<and> \<not> eflags_if (cpu s) \<and>
     (\<exists>p. curproc (cpu s) = Some p \<and> pstate (get_proc p s) \<noteq> RUNNING) \<and> Q s"
  by (auto simp: sched_def wps_rules wp_rules)

lemma get_upd_proc [simp]:
  "i < length (procs (ptable s)) \<Longrightarrow>
     get_proc j (upd_proc i f s) = (if i = j then f (get_proc i s) else get_proc j s)"
  by (simp add: get_proc_def upd_proc_def nth_list_update)

lemma upd_proc_sel [simp]:
  "cpu (upd_proc i f s) = cpu s" "locks (upd_proc i f s) = locks s"
  "slocks (upd_proc i f s) = slocks s" "kmem (upd_proc i f s) = kmem s"
  "pviews (upd_proc i f s) = pviews s" "file_table (upd_proc i f s) = file_table s"
  "length (procs (ptable (upd_proc i f s))) = length (procs (ptable s))"
  "nextpid (ptable (upd_proc i f s)) = nextpid (ptable s)"
  "initproc (ptable (upd_proc i f s)) = initproc (ptable s)"
  by (simp_all add: upd_proc_def)

lemma holding_upd_proc [simp]: "holding l (upd_proc i f s) = holding l s"
  by (simp add: holding_def)

lemma get_proc_frame [simp]:
  "get_proc i (s\<lparr>cpu := c\<rparr>) = get_proc i s" "get_proc i (s\<lparr>locks := k\<rparr>) = get_proc i s"
  "get_proc i (s\<lparr>slocks := sl\<rparr>) = get_proc i s"
  by (simp_all add: get_proc_def)

section \<open>Sleeping and waking\<close>

lemma wp_wakeup1 [wp_rules]:
  "wp (wakeup1 c) Q s =
     Q () (s\<lparr>ptable := (ptable s)\<lparr>procs := map (wake c) (procs (ptable s))\<rparr>\<rparr>)"
  by (simp add: wakeup1_def wp_rules)

lemma wp_wakeup:
  assumes "cpu_ok (cpu s)" "locks s PtableLock = free_lock"
  shows "wp (wakeup c) Q s =
     Q () (s\<lparr>ptable := (ptable s)\<lparr>procs := map (wake (Some c)) (procs (ptable s))\<rparr>,
             cpu := quiet (cpu s)\<rparr>)"
proof -
  have "(locks s)(PtableLock := free_lock) = locks s"
    using assms(2) by (simp add: fun_upd_idem)
  moreover have "s\<lparr>locks := locks s\<rparr> = s" by simp
  moreover have "holding PtableLock (s\<lparr>cpu := c', locks := (locks s)(PtableLock := held_lock),
      ptable := pt\<rparr>)" for c' pt
    by (simp add: holding_def)
  moreover have "s\<lparr>ptable := pt, locks := locks s, cpu := c'\<rparr> = s\<lparr>ptable := pt, cpu := c'\<rparr>" for pt c'
    by (cases s) simp
  ultimately show ?thesis
    using assms by (auto simp: wakeup_def wp_rules cpu_ok_def)
qed

lemma wake_sel [simp]:
  "pid (wake c p) = pid p" "killed (wake c p) = killed p" "parent (wake c p) = parent p"
  "pchan (wake c p) = pchan p" "files (wake c p) = files p" "pvspace (wake c p) = pvspace p"
  "kstack (wake c p) = kstack p"
  by (simp_all add: wake_def)

lemma sleep_gives_up:
  assumes "curproc (cpu s) = Some p" "p < length (procs (ptable s))"
    and "l \<noteq> PtableLock" "holding l s" "locks s PtableLock = free_lock"
    and "ncli (cpu s) = 1" "\<not> eflags_if (cpu s)"
  shows "wps (sleep c (Some l)) (\<lambda>t.
     t = upd_proc p (\<lambda>q. q\<lparr>pchan := Some c, pstate := SLEEPING\<rparr>)
           (s\<lparr>locks := (locks s)(l := free_lock, PtableLock := held_lock),
              cpu := pop_cpu (push_cpu (cpu s))\<rparr>)) s"
proof -
  have *: "(locks s)(PtableLock := held_lock, l := free_lock)
      = (locks s)(l := free_lock, PtableLock := held_lock)"
    using assms(3) by (simp add: fun_upd_twist)
  have "holding l (s\<lparr>cpu := x, locks := (locks s)(PtableLock := held_lock)\<rparr>)" for x
    using assms(3,4) by (simp add: holding_def)
  moreover have "holding PtableLock (s\<lparr>locks := (locks s)(l := free_lock, PtableLock := held_lock),
      cpu := x\<rparr>)" for x
    by (simp add: holding_def)
  moreover have "pop_cpu (push_cpu (cpu s)) = quiet (cpu s)"
    using assms(6,7) by (simp add: cpu_ok_def)
  ultimately show ?thesis
    using assms(1,2,3,5,6,7) by (simp add: sleep_def wps_rules wp_rules *)
qed

section \<open>Sleep locks are locks\<close>

lemma restore_lock: "locks s l = free_lock \<Longrightarrow> (locks s)(l := free_lock) = locks s"
  by (simp add: fun_upd_idem)

lemma locks_id: "s\<lparr>slocks := a, locks := locks s\<rparr> = s\<lparr>slocks := a\<rparr>"
  "s\<lparr>locks := locks s\<rparr> = s"
  "s\<lparr>ptable := q, slocks := a, locks := locks s\<rparr> = s\<lparr>ptable := q, slocks := a\<rparr>"
  by (cases s; simp)+

lemma wp_acquiresleep:
  assumes "cpu_ok (cpu s)" "locks s (SleepLk l) = free_lock" "curproc (cpu s) = Some p"
  shows "wp (acquiresleep l) Q s \<longleftrightarrow> \<not> slocked (slocks s l) \<and>
     Q () (s\<lparr>slocks := (slocks s)(l := \<lparr>slocked = True, spid = pid (get_proc p s)\<rparr>),
             cpu := quiet (cpu s)\<rparr>)"
proof -
  show ?thesis
    using assms
    by (auto simp: acquiresleep_def acquiresleep_loop_def wp_rules restore_lock kst_comm locks_id
        cpu_ok_def)
qed

lemma wp_releasesleep:
  assumes "cpu_ok (cpu s)" "locks s (SleepLk l) = free_lock" "locks s PtableLock = free_lock"
  shows "wp (releasesleep l) Q s \<longleftrightarrow>
     Q () (s\<lparr>ptable := (ptable s)\<lparr>procs := map (wake (Some (ChSleeplock l))) (procs (ptable s))\<rparr>,
             slocks := (slocks s)(l := \<lparr>slocked = False, spid = 0\<rparr>),
             cpu := quiet (cpu s)\<rparr>)"
proof -
  let ?t = "s\<lparr>slocks := (slocks s)(l := \<lparr>slocked = False, spid = 0\<rparr>),
              locks := (locks s)(SleepLk l := held_lock), cpu := push_cpu (cpu s)\<rparr>"
  have 1: "cpu_ok (cpu ?t)" "locks ?t PtableLock = free_lock"
    using assms by simp_all
  have 2: "quiet (push_cpu (cpu s)) = push_cpu (cpu s)"
    using assms(1) by (auto simp: quiet_def push_cpu_def cpu_ok_def)
  have 0: "wp (releasesleep l) Q s \<longleftrightarrow> wp (wakeup (ChSleeplock l)) (\<lambda>_. wp (release (SleepLk l)) Q) ?t"
    using assms by (simp add: releasesleep_def wp_rules kst_comm)
  show ?thesis
    unfolding 0 wp_wakeup [OF 1]
    using assms 2
    by (auto simp: wp_rules kst_comm restore_lock locks_id cpu_ok_def)
qed

lemma wp_holdingsleep:
  assumes "cpu_ok (cpu s)" "locks s (SleepLk l) = free_lock" "curproc (cpu s) = Some p"
  shows "wp (holdingsleep l) Q s \<longleftrightarrow>
     Q (slocked (slocks s l) \<and> spid (slocks s l) = pid (get_proc p s)) (s\<lparr>cpu := quiet (cpu s)\<rparr>)"
proof -
  show ?thesis
    using assms
    by (auto simp: holdingsleep_def wp_rules kst_comm restore_lock locks_id cpu_ok_def)
qed

text \<open>The state in which the kernel uses sleep locks: a process runs, and it holds no spin lock
  that \<open>acquiresleep\<close> or \<open>releasesleep\<close> takes.\<close>

definition sleep_ok :: "kst \<Rightarrow> bool" where
  "sleep_ok s \<longleftrightarrow> cpu_ok (cpu s) \<and> curproc (cpu s) \<noteq> None \<and>
     (\<forall>l. locks s (SleepLk l) = free_lock) \<and> locks s PtableLock = free_lock \<and>
     the (curproc (cpu s)) < length (procs (ptable s))"

definition sleep_held :: "slkid \<Rightarrow> kst \<Rightarrow> bool" where
  "sleep_held l s \<longleftrightarrow> slocked (slocks s l) \<and>
     (\<exists>p. curproc (cpu s) = Some p \<and> spid (slocks s l) = pid (get_proc p s))"

lemma sleep_okE:
  assumes "sleep_ok s"
  obtains p where "cpu_ok (cpu s)" "curproc (cpu s) = Some p" "p < length (procs (ptable s))"
    "\<And>l. locks s (SleepLk l) = free_lock" "locks s PtableLock = free_lock"
  using assms by (auto simp: sleep_ok_def)

interpretation sleeplk: mutex acquiresleep releasesleep "\<lambda>l s. \<not> slocked (slocks s l)" sleep_held sleep_ok
proof unfold_locales
  fix s l Q
  show "sleep_ok s \<Longrightarrow> \<not> slocked (slocks s l) \<Longrightarrow>
      wp (acquiresleep l) (\<lambda>_ t. sleep_held l t \<and> sleep_ok t) s"
    by (erule sleep_okE) (simp add: wp_acquiresleep sleep_held_def sleep_ok_def)
  show "sleep_held l s \<Longrightarrow> \<not> wp (acquiresleep l) Q s"
    by (auto simp: acquiresleep_def acquiresleep_loop_def wp_rules sleep_held_def)
  show "sleep_ok s \<Longrightarrow> sleep_held l s \<Longrightarrow>
      wp (releasesleep l) (\<lambda>_ t. \<not> slocked (slocks t l) \<and> sleep_ok t) s"
    by (erule sleep_okE) (simp add: wp_releasesleep sleep_ok_def)
  show "\<not> (\<not> slocked (slocks s l) \<and> sleep_held l s)"
    by (simp add: sleep_held_def)
qed

section \<open>Properties\<close>


text \<open>A machine whose only process, number 0, runs with interrupts on.\<close>

definition demo_run :: kst where
  "demo_run = zero_kst\<lparr>cpu := (cpu zero_kst)\<lparr>eflags_if := True, curproc := Some 0\<rparr>,
     ptable := (ptable zero_kst)\<lparr>procs := [zero_proc\<lparr>pid := 1, pstate := RUNNING\<rparr>]\<rparr>\<rparr>"


text \<open>C24: a sleep lock excludes without spinning.  \<open>acquiresleep\<close> of a lock that is taken switches to
  the scheduler with the process asleep on the lock's channel, the lock's owner unchanged and no
  spin lock held but the process table's; of a free lock it returns and the process owns it.\<close>

theorem acquiresleep_excludes:
  assumes "sleep_ok s" "curproc (cpu s) = Some p" "ncli (cpu s) = 0"
  shows "if slocked (slocks s l)
     then wps (acquiresleep l) (\<lambda>t. slocks t = slocks s \<and> locks t = (locks s)(PtableLock := held_lock) \<and>
       pstate (get_proc p t) = SLEEPING \<and> pchan (get_proc p t) = Some (ChSleeplock l)) s
     else wp (acquiresleep l) (\<lambda>_ t. sleep_held l t \<and> sleep_ok t) s"
proof (cases "slocked (slocks s l)")
  case True
  have lk: "locks s (SleepLk l) = free_lock" "locks s PtableLock = free_lock" "p < length (procs (ptable s))"
    "cpu_ok (cpu s)"
    using assms(1,2) by (auto simp: sleep_ok_def)
  let ?s = "s\<lparr>cpu := push_cpu (cpu s), locks := (locks s)(SleepLk l := held_lock)\<rparr>"
  have "wps (sleep (ChSleeplock l) (Some (SleepLk l))) (\<lambda>t.
     t = upd_proc p (\<lambda>q. q\<lparr>pchan := Some (ChSleeplock l), pstate := SLEEPING\<rparr>)
           (?s\<lparr>locks := (locks ?s)(SleepLk l := free_lock, PtableLock := held_lock),
              cpu := pop_cpu (push_cpu (cpu ?s))\<rparr>)) ?s"
    by (rule sleep_gives_up) (use assms lk in simp_all)
  then have "wps (sleep (ChSleeplock l) (Some (SleepLk l))) (\<lambda>t. slocks t = slocks s \<and>
      locks t = (locks s)(PtableLock := held_lock) \<and>
      pstate (get_proc p t) = SLEEPING \<and> pchan (get_proc p t) = Some (ChSleeplock l)) ?s"
    using lk by (elim wps_mono) (simp add: fun_upd_idem)
  then show ?thesis
    using True lk by (simp add: acquiresleep_def acquiresleep_loop_def wps_rules wp_rules)
next
  case False
  then show ?thesis using sleeplk.lock_free [OF assms(1)] by simp
qed

theorem acquiresleep_excludes_witness:
  "wp (acquiresleep (BufLock 0)) (\<lambda>_ t. sleep_held (BufLock 0) t \<and> sleep_ok t) demo_run"
proof -
  have "sleep_ok demo_run"
    by (simp add: demo_run_def sleep_ok_def cpu_ok_def) (simp add: zero_kst_def)
  moreover have "curproc (cpu demo_run) = Some 0" "ncli (cpu demo_run) = 0"
    "\<not> slocked (slocks demo_run (BufLock 0))"
    by (simp_all add: demo_run_def zero_kst_def)
  ultimately show ?thesis using acquiresleep_excludes [of demo_run 0 "BufLock 0"] by simp
qed

end
