(* ===== verification/Bio.thy ===== *)
theory Bio
  imports Sleep
begin

unbundle bit_operations_syntax

text \<open>
  The buffer cache (\<open>kernel/bio.c\<close>) over the in-memory disk driver (\<open>kernel/memide.c\<close>).

  The cache is a doubly linked list through \<open>prev\<close>/\<open>next\<close> of all buffers; a buffer is named by
  its index in \<open>bcache.buf\<close>, and the sentinel \<open>bcache.head\<close> by the index \<open>NBUF\<close>.  The two scans of
  \<open>bget\<close> follow the pointers with one unit of fuel per buffer and one for the sentinel; running
  out of fuel (a list that does not come back to the head) is \<open>Hang\<close>.

  The lemmas relate the pointers to the list of buffers in order of last use, and the cache to
  the disk: what \<open>bread\<close> returns is what the disk holds.  \<open>block_cache\<close> is the contract the file
  system is built on.
\<close>

section \<open>Buffers\<close>

definition B_VALID :: u32 where "B_VALID = 2"
definition B_DIRTY :: u32 where "B_DIRTY = 4"

definition get_buf :: "nat \<Rightarrow> kst \<Rightarrow> buf" where
  "get_buf b s = bufs (bcache s) ! b"

definition upd_buf :: "nat \<Rightarrow> (buf \<Rightarrow> buf) \<Rightarrow> kst \<Rightarrow> kst" where
  "upd_buf b f s = s\<lparr>bcache := (bcache s)\<lparr>bufs := (bufs (bcache s))[b := f (bufs (bcache s) ! b)]\<rparr>\<rparr>"

section \<open>The disk (memide.c)\<close>

definition ideinit :: "byte list \<Rightarrow> (unit, kst) kop" where
  "ideinit img = modify (\<lambda>s. s\<lparr>disk := \<lparr>disksize = length img div BSIZE,
     memdisk = (\<lambda>b. take BSIZE (drop (b * BSIZE) img))\<rparr>\<rparr>)"

definition iderw :: "nat \<Rightarrow> (unit, kst) kop" where
  "iderw b =
     obind (holdingsleep (BufLock b)) (\<lambda>h.
     if \<not> h then panic ''iderw: buf not locked'' else
     obind (gets (get_buf b)) (\<lambda>x.
     if bflags x AND (B_VALID OR B_DIRTY) = B_VALID then panic ''iderw: nothing to do'' else
     if bdev x \<noteq> 1 then panic ''iderw: request not for disk 1'' else
     obind (gets (\<lambda>s. disksize (disk s))) (\<lambda>n.
     if unat (blockno x) \<ge> n then panic ''iderw: block out of range'' else
     oseq (if bflags x AND B_DIRTY \<noteq> 0
           then modify (\<lambda>s. (upd_buf b (\<lambda>y. y\<lparr>bflags := bflags y AND NOT B_DIRTY\<rparr>) s)
                  \<lparr>disk := (disk s)\<lparr>memdisk := (memdisk (disk s))(unat (blockno x) := bdata x)\<rparr>\<rparr>)
           else modify (\<lambda>s. upd_buf b (\<lambda>y. y\<lparr>bdata := memdisk (disk s) (unat (blockno y))\<rparr>) s))
       (modify (upd_buf b (\<lambda>y. y\<lparr>bflags := bflags y OR B_VALID\<rparr>))))))"

section \<open>The list of buffers\<close>

definition nxt :: "bcache_state \<Rightarrow> nat \<Rightarrow> nat" where
  "nxt c i = (if i = NBUF then head_next c else bnext (bufs c ! i))"

definition prv :: "bcache_state \<Rightarrow> nat \<Rightarrow> nat" where
  "prv c i = (if i = NBUF then head_prev c else bprev (bufs c ! i))"

definition set_next :: "nat \<Rightarrow> nat \<Rightarrow> bcache_state \<Rightarrow> bcache_state" where
  "set_next i v c = (if i = NBUF then c\<lparr>head_next := v\<rparr>
     else c\<lparr>bufs := (bufs c)[i := (bufs c ! i)\<lparr>bnext := v\<rparr>]\<rparr>)"

definition set_prev :: "nat \<Rightarrow> nat \<Rightarrow> bcache_state \<Rightarrow> bcache_state" where
  "set_prev i v c = (if i = NBUF then c\<lparr>head_prev := v\<rparr>
     else c\<lparr>bufs := (bufs c)[i := (bufs c ! i)\<lparr>bprev := v\<rparr>]\<rparr>)"

definition push_front :: "nat \<Rightarrow> bcache_state \<Rightarrow> bcache_state" where
  "push_front b c =
     (let c = set_next b (nxt c NBUF) c;
          c = set_prev b NBUF c;
          c = set_prev (nxt c NBUF) b c
      in set_next NBUF b c)"

definition unlink_buf :: "nat \<Rightarrow> bcache_state \<Rightarrow> bcache_state" where
  "unlink_buf b c =
     (let c = set_prev (nxt c b) (prv c b) c
      in set_next (prv c b) (nxt c b) c)"

section \<open>Operations\<close>

definition binit :: "(unit, kst) kop" where
  "binit =
     oseq (initlock BcacheLock) (
     oseq (modify (\<lambda>s. s\<lparr>bcache := set_next NBUF NBUF (set_prev NBUF NBUF (bcache s))\<rparr>))
       (foreach [0..<NBUF] (\<lambda>b.
          oseq (initsleeplock (BufLock b)) (modify (\<lambda>s. s\<lparr>bcache := push_front b (bcache s)\<rparr>)))))"

fun scan_next :: "nat \<Rightarrow> bcache_state \<Rightarrow> (buf \<Rightarrow> bool) \<Rightarrow> nat \<Rightarrow> nat option option" where
  "scan_next 0 c P b = None"
| "scan_next (Suc n) c P b =
     (if b = NBUF then Some None
      else if P (bufs c ! b) then Some (Some b)
      else scan_next n c P (nxt c b))"

fun scan_prev :: "nat \<Rightarrow> bcache_state \<Rightarrow> (buf \<Rightarrow> bool) \<Rightarrow> nat \<Rightarrow> nat option option" where
  "scan_prev 0 c P b = None"
| "scan_prev (Suc n) c P b =
     (if b = NBUF then Some None
      else if P (bufs c ! b) then Some (Some b)
      else scan_prev n c P (prv c b))"

declare scan_next.simps [simp del] scan_prev.simps [simp del]

definition bget :: "u32 \<Rightarrow> u32 \<Rightarrow> (nat, kst) kop" where
  "bget dev bn =
     oseq (acquire BcacheLock) (
     obind (gets (\<lambda>s. scan_next (Suc NBUF) (bcache s) (\<lambda>x. bdev x = dev \<and> blockno x = bn)
                        (nxt (bcache s) NBUF))) (\<lambda>hit.
     case hit of
       None \<Rightarrow> hang
     | Some (Some b) \<Rightarrow>
         oseq (modify (upd_buf b (\<lambda>x. x\<lparr>refcnt := refcnt x + 1\<rparr>))) (
         oseq (release BcacheLock) (
         oseq (acquiresleep (BufLock b)) (ret b)))
     | Some None \<Rightarrow>
         obind (gets (\<lambda>s. scan_prev (Suc NBUF) (bcache s) (\<lambda>x. refcnt x = 0 \<and> bflags x AND B_DIRTY = 0)
                            (prv (bcache s) NBUF))) (\<lambda>victim.
         case victim of
           None \<Rightarrow> hang
         | Some (Some b) \<Rightarrow>
             oseq (modify (upd_buf b (\<lambda>x. x\<lparr>bdev := dev, blockno := bn, bflags := 0, refcnt := 1\<rparr>))) (
             oseq (release BcacheLock) (
             oseq (acquiresleep (BufLock b)) (ret b)))
         | Some None \<Rightarrow> panic ''bget: no buffers'')))"

definition bread :: "u32 \<Rightarrow> u32 \<Rightarrow> (nat, kst) kop" where
  "bread dev bn =
     oseq (modify (\<lambda>s. s\<lparr>bcache := (bcache s)\<lparr>num_disk_reads := num_disk_reads (bcache s) + 1\<rparr>\<rparr>)) (
     obind (bget dev bn) (\<lambda>b.
     obind (gets (\<lambda>s. bflags (get_buf b s))) (\<lambda>fl.
     oseq (kwhen (fl AND B_VALID = 0) (iderw b))
       (ret b))))"

text \<open>\<open>reboot\<close> resets the machine and does not return.\<close>

definition bwrite :: "nat \<Rightarrow> (unit, kst) kop" where
  "bwrite b =
     obind (gets (\<lambda>s. crashn_enable (bcache s))) (\<lambda>en.
     oseq (kwhen en (
       oseq (modify (\<lambda>s. s\<lparr>bcache := (bcache s)\<lparr>crashn := crashn (bcache s) - 1\<rparr>\<rparr>)) (
       obind (gets (\<lambda>s. crashn (bcache s))) (\<lambda>n. kwhen (n < 0) (panic ''reboot''))))) (
     obind (holdingsleep (BufLock b)) (\<lambda>h.
     if \<not> h then panic ''bwrite'' else
     oseq (modify (upd_buf b (\<lambda>x. x\<lparr>bflags := bflags x OR B_DIRTY\<rparr>)))
       (iderw b))))"

definition brelse :: "nat \<Rightarrow> (unit, kst) kop" where
  "brelse b =
     obind (holdingsleep (BufLock b)) (\<lambda>h.
     if \<not> h then panic ''brelse'' else
     oseq (releasesleep (BufLock b)) (
     oseq (acquire BcacheLock) (
     oseq (modify (upd_buf b (\<lambda>x. x\<lparr>refcnt := refcnt x - 1\<rparr>))) (
     obind (gets (\<lambda>s. refcnt (get_buf b s))) (\<lambda>rc.
     oseq (kwhen (rc = 0) (modify (\<lambda>s. s\<lparr>bcache := push_front b (unlink_buf b (bcache s))\<rparr>)))
       (release BcacheLock))))))"

section \<open>Pointers and the list they form\<close>

text \<open>\<open>linked nx pv a xs z\<close>: following \<open>nx\<close> from \<open>a\<close> visits \<open>xs\<close> and reaches \<open>z\<close>, and \<open>pv\<close> leads
  back the same way.\<close>

fun linked :: "(nat \<Rightarrow> nat) \<Rightarrow> (nat \<Rightarrow> nat) \<Rightarrow> nat \<Rightarrow> nat list \<Rightarrow> nat \<Rightarrow> bool" where
  "linked nx pv a [] z \<longleftrightarrow> nx a = z \<and> pv z = a"
| "linked nx pv a (x # xs) z \<longleftrightarrow> nx a = x \<and> pv x = a \<and> linked nx pv x xs z"

lemma linked_append:
  "linked nx pv a (xs @ y # ys) z \<longleftrightarrow> linked nx pv a xs y \<and> linked nx pv y ys z"
  by (induction xs arbitrary: a) auto

lemma linked_frame:
  assumes "linked nx pv a xs z" "i \<noteq> a" "i \<notin> set xs"
  shows "linked (nx(i := v)) pv a xs z"
  using assms by (induction xs arbitrary: a) auto

lemma linked_frame_prev:
  assumes "linked nx pv a xs z" "i \<noteq> z" "i \<notin> set xs"
  shows "linked nx (pv(i := v)) a xs z"
  using assms by (induction xs arbitrary: a) auto

text \<open>The list is determined by the pointers.\<close>

lemma linked_unique:
  assumes "linked nx pv a xs z" "linked nx pv a ys z" "z \<notin> set xs" "z \<notin> set ys"
  shows "xs = ys"
  using assms
proof (induction xs arbitrary: a ys)
  case Nil
  then show ?case by (cases ys) auto
next
  case (Cons x xs)
  then show ?case by (cases ys) auto
qed

lemma linked_push:
  assumes "linked nx pv h xs h" "b \<notin> set xs" "b \<noteq> h" "distinct xs" "h \<notin> set xs"
  shows "linked (nx(b := nx h, h := b)) (pv(b := h, nx h := b)) h (b # xs) h"
proof (cases xs)
  case Nil
  then show ?thesis using assms by auto
next
  case (Cons x ys)
  then have x: "nx h = x" and l: "linked nx pv x ys h" using assms(1) by simp_all
  have "linked (nx(b := x, h := b)) (pv(b := h, x := b)) x ys h"
    using assms l Cons by (intro linked_frame linked_frame_prev) auto
  then show ?thesis using Cons x assms by simp
qed

lemma linked_unlink:
  assumes "linked nx pv h (xs @ b # ys) h" "distinct (xs @ b # ys)" "h \<notin> set (xs @ b # ys)"
  shows "linked (nx(pv b := nx b)) (pv(nx b := pv b)) h (xs @ ys) h"
proof -
  have l: "linked nx pv h xs b" "linked nx pv b ys h" using assms(1) by (simp_all add: linked_append)
  show ?thesis
  proof (cases xs rule: rev_cases)
    case Nil
    then have p: "pv b = h" using l(1) by simp
    show ?thesis
    proof (cases ys)
      case Nil
      then show ?thesis using \<open>xs = []\<close> l p by simp
    next
      case (Cons y zs)
      then have "nx b = y" "linked nx pv y zs h" using l(2) by simp_all
      then show ?thesis
        using \<open>xs = []\<close> p Cons assms by (auto intro!: linked_frame linked_frame_prev)
    qed
  next
    case (snoc us u)
    then have u: "pv b = u" "linked nx pv h us u" using l(1) by (simp_all add: linked_append)
    show ?thesis
    proof (cases ys)
      case Nil
      then show ?thesis
        using snoc l u assms
        by (auto simp: linked_append intro!: linked_frame linked_frame_prev)
    next
      case (Cons y zs)
      then have "nx b = y" "linked nx pv y zs h" using l(2) by simp_all
      then show ?thesis
        using snoc u Cons assms
        by (auto simp: linked_append intro!: linked_frame linked_frame_prev)
    qed
  qed
qed

section \<open>The cache's list\<close>

definition chain :: "bcache_state \<Rightarrow> nat list \<Rightarrow> bool" where
  "chain c xs \<longleftrightarrow> length (bufs c) = NBUF \<and> distinct xs \<and> set xs \<subseteq> {..<NBUF} \<and>
     linked (nxt c) (prv c) NBUF xs NBUF"

text \<open>A buffer without its place in the list.\<close>

definition payload :: "buf \<Rightarrow> buf" where
  "payload x = x\<lparr>bprev := 0, bnext := 0\<rparr>"

lemma link_upd:
  assumes "length (bufs c) = NBUF" "i \<le> NBUF"
  shows "nxt (set_next i v c) = (nxt c)(i := v)" "prv (set_next i v c) = prv c"
    and "nxt (set_prev i v c) = nxt c" "prv (set_prev i v c) = (prv c)(i := v)"
  using assms by (auto simp: nxt_def prv_def set_next_def set_prev_def fun_eq_iff nth_list_update)

lemma length_bufs_link [simp]:
  "length (bufs (set_next i v c)) = length (bufs c)" "length (bufs (set_prev i v c)) = length (bufs c)"
  by (simp_all add: set_next_def set_prev_def)

lemma payload_link [simp]:
  "map payload (bufs (set_next i v c)) = map payload (bufs c)"
  "map payload (bufs (set_prev i v c)) = map payload (bufs c)"
proof -
  have "xs[i := f (xs ! i)] = xs" if "length xs \<le> i" for xs :: "buf list" and f
    using that by (simp add: list_update_beyond)
  moreover have "map payload (xs[i := x]) = map payload xs"
    if "payload x = payload (xs ! i)" "i < length xs" for xs x
    using that by (metis list_update_id map_update)
  ultimately show
    "map payload (bufs (set_next i v c)) = map payload (bufs c)"
    "map payload (bufs (set_prev i v c)) = map payload (bufs c)"
    by (cases "i < length (bufs c)"; simp add: set_next_def set_prev_def payload_def)+
qed

lemma payload_list [simp]:
  "map payload (bufs (push_front b c)) = map payload (bufs c)"
  "map payload (bufs (unlink_buf b c)) = map payload (bufs c)"
  by (simp_all add: push_front_def unlink_buf_def Let_def)

lemma counters_list [simp]:
  "num_disk_reads (push_front b c) = num_disk_reads c" "num_disk_reads (unlink_buf b c) = num_disk_reads c"
  "crashn_enable (push_front b c) = crashn_enable c" "crashn_enable (unlink_buf b c) = crashn_enable c"
  "crashn (push_front b c) = crashn c" "crashn (unlink_buf b c) = crashn c"
  by (simp_all add: push_front_def unlink_buf_def Let_def set_next_def set_prev_def)

lemma linked_bounds:
  assumes "linked nx pv a xs z"
  shows "nx a \<in> set (xs @ [z])" "pv z \<in> set (a # xs)"
  using assms by (induction xs arbitrary: a) auto

lemma chain_push_front:
  assumes "chain c xs" "b < NBUF" "b \<notin> set xs"
  shows "chain (push_front b c) (b # xs)"
proof -
  have len: "length (bufs c) = NBUF" and l: "linked (nxt c) (prv c) NBUF xs NBUF"
    and d: "distinct xs" "set xs \<subseteq> {..<NBUF}"
    using assms(1) by (auto simp: chain_def)
  have "NBUF \<notin> set xs" using d(2) by auto
  have n: "nxt c NBUF \<le> NBUF" "nxt c NBUF \<noteq> b"
    using linked_bounds(1) [OF l] d assms(2,3) by auto
  have "nxt (push_front b c) = (nxt c)(b := nxt c NBUF, NBUF := b)"
    "prv (push_front b c) = (prv c)(b := NBUF, nxt c NBUF := b)"
    using n assms(2) len by (simp_all add: push_front_def Let_def link_upd)
  moreover have "length (bufs (push_front b c)) = NBUF"
    using len by (simp add: push_front_def Let_def)
  ultimately show ?thesis
    using linked_push [OF l assms(3) _ d(1) \<open>NBUF \<notin> set xs\<close>] d assms(2,3) by (auto simp: chain_def)
qed

lemma chain_unlink:
  assumes "chain c (xs @ b # ys)"
  shows "chain (unlink_buf b c) (xs @ ys)"
proof -
  have len: "length (bufs c) = NBUF" and l: "linked (nxt c) (prv c) NBUF (xs @ b # ys) NBUF"
    and d: "distinct (xs @ b # ys)" "set (xs @ b # ys) \<subseteq> {..<NBUF}"
    using assms by (auto simp: chain_def)
  have b: "linked (nxt c) (prv c) NBUF xs b" "linked (nxt c) (prv c) b ys NBUF" "b < NBUF"
    using l d by (simp_all add: linked_append)
  have "nxt c b \<le> NBUF" "prv c b \<le> NBUF" "nxt c b \<noteq> b"
    using linked_bounds(1) [OF b(2)] linked_bounds(2) [OF b(1)] d b(3) by auto
  then have "nxt (unlink_buf b c) = (nxt c)(prv c b := nxt c b)"
    "prv (unlink_buf b c) = (prv c)(nxt c b := prv c b)"
    using len by (simp_all add: unlink_buf_def Let_def link_upd)
  moreover have "length (bufs (unlink_buf b c)) = NBUF"
    using len by (simp add: unlink_buf_def Let_def)
  ultimately show ?thesis
    using linked_unlink [OF l d(1)] d by (auto simp: chain_def)
qed

lemma chain_payload:
  assumes "chain c xs" "length (bufs c') = NBUF" "nxt c' = nxt c" "prv c' = prv c"
  shows "chain c' xs"
  using assms by (simp add: chain_def)

lemma scan_next_find:
  assumes "linked (nxt c) pv a xs NBUF" "NBUF \<notin> set xs" "length xs < n"
  shows "scan_next n c P (nxt c a) = Some (find (\<lambda>b. P (bufs c ! b)) xs)"
  using assms
proof (induction xs arbitrary: a n)
  case Nil
  then show ?case by (cases n) (auto simp: scan_next.simps)
next
  case (Cons x xs)
  then show ?case by (cases n) (auto simp: scan_next.simps)
qed

lemma scan_prev_find:
  assumes "linked nx (prv c) NBUF xs z" "NBUF \<notin> set xs" "length xs < n"
  shows "scan_prev n c P (prv c z) = Some (find (\<lambda>b. P (bufs c ! b)) (rev xs))"
  using assms
proof (induction xs arbitrary: z n rule: rev_induct)
  case Nil
  then show ?case by (cases n) (auto simp: scan_prev.simps)
next
  case (snoc x xs)
  then show ?case by (cases n) (auto simp: scan_prev.simps linked_append)
qed

lemma chain_length:
  assumes "chain c xs"
  shows "length xs \<le> NBUF" "NBUF \<notin> set xs"
proof -
  have "distinct xs" "set xs \<subseteq> {..<NBUF}" using assms by (auto simp: chain_def)
  then have "card (set xs) \<le> card {..<NBUF}" by (intro card_mono) auto
  then show "length xs \<le> NBUF" using \<open>distinct xs\<close> by (simp add: distinct_card)
  show "NBUF \<notin> set xs" using \<open>set xs \<subseteq> {..<NBUF}\<close> by auto
qed

lemma chain_scans:
  assumes "chain c xs"
  shows "scan_next (Suc NBUF) c P (nxt c NBUF) = Some (find (\<lambda>b. P (bufs c ! b)) xs)"
    and "scan_prev (Suc NBUF) c P (prv c NBUF) = Some (find (\<lambda>b. P (bufs c ! b)) (rev xs))"
  using assms chain_length [OF assms]
  by (auto simp: chain_def intro!: scan_next_find scan_prev_find)

section \<open>Reading, writing and releasing a buffer\<close>

text \<open>The processor state in which the cache is used: a process runs and holds none of the spin
  locks that the operations take.\<close>

definition bio_env :: "kst \<Rightarrow> bool" where
  "bio_env s \<longleftrightarrow> cpu_ok (cpu s) \<and> curproc (cpu s) \<noteq> None \<and> locks s BcacheLock = free_lock \<and>
     locks s PtableLock = free_lock \<and> (\<forall>b. locks s (SleepLk (BufLock b)) = free_lock) \<and>
     (\<forall>q \<in> set (procs (ptable s)). \<forall>b. pchan q \<noteq> Some (ChSleeplock (BufLock b)))"

definition mypid :: "kst \<Rightarrow> int" where
  "mypid s = pid (get_proc (the (curproc (cpu s))) s)"

definition free_slk :: sleeplock where "free_slk = \<lparr>slocked = False, spid = 0\<rparr>"
definition my_slk :: "kst \<Rightarrow> sleeplock" where "my_slk s = \<lparr>slocked = True, spid = mypid s\<rparr>"

lemma slk_sel [simp]: "slocked free_slk = False" "slocked (my_slk s)" "spid (my_slk s) = mypid s"
  by (simp_all add: free_slk_def my_slk_def)

lemma bio_env_upd [simp]:
  "bio_env (s\<lparr>slocks := sl\<rparr>) = bio_env s"
  "bio_env (s\<lparr>bcache := c\<rparr>) = bio_env s"
  "bio_env (s\<lparr>disk := d\<rparr>) = bio_env s"
  "k = cpu s \<Longrightarrow> bio_env (s\<lparr>cpu := quiet k\<rparr>) = bio_env s"
  by (simp_all add: bio_env_def)

lemma mypid_upd [simp]:
  "mypid (s\<lparr>slocks := sl\<rparr>) = mypid s" "mypid (s\<lparr>bcache := c\<rparr>) = mypid s" "mypid (s\<lparr>disk := d\<rparr>) = mypid s"
  "k = cpu s \<Longrightarrow> mypid (s\<lparr>cpu := quiet k\<rparr>) = mypid s"
  by (simp_all add: mypid_def get_proc_def)

lemma my_slk_upd [simp]:
  "my_slk (s\<lparr>slocks := sl\<rparr>) = my_slk s" "my_slk (s\<lparr>bcache := c\<rparr>) = my_slk s" "my_slk (s\<lparr>disk := d\<rparr>) = my_slk s"
  "k = cpu s \<Longrightarrow> my_slk (s\<lparr>cpu := quiet k\<rparr>) = my_slk s"
  by (simp_all add: my_slk_def)

lemma wake_none:
  assumes "bio_env s"
  shows "map (wake (Some (ChSleeplock (BufLock b)))) (procs (ptable s)) = procs (ptable s)"
  using assms by (intro map_idI) (auto simp: bio_env_def wake_def)

lemma wp_holdingsleep_buf:
  assumes "bio_env s"
  shows "wp (holdingsleep (BufLock b)) Q s =
     Q (slocked (slocks s (BufLock b)) \<and> spid (slocks s (BufLock b)) = mypid s) (s\<lparr>cpu := quiet (cpu s)\<rparr>)"
  using assms wp_holdingsleep [of s "BufLock b"] by (auto simp: bio_env_def mypid_def)

lemma wp_acquiresleep_buf:
  assumes "bio_env s" "\<not> slocked (slocks s (BufLock b))"
  shows "wp (acquiresleep (BufLock b)) Q s =
     Q () (s\<lparr>slocks := (slocks s)(BufLock b := my_slk s), cpu := quiet (cpu s)\<rparr>)"
  using assms wp_acquiresleep [of s "BufLock b"] by (auto simp: bio_env_def mypid_def my_slk_def)

lemma wp_releasesleep_buf:
  assumes "bio_env s"
  shows "wp (releasesleep (BufLock b)) Q s =
     Q () (s\<lparr>slocks := (slocks s)(BufLock b := free_slk), cpu := quiet (cpu s)\<rparr>)"
proof -
  have "s\<lparr>ptable := (ptable s)\<lparr>procs := procs (ptable s)\<rparr>\<rparr> = s" by simp
  then show ?thesis
    using assms wp_releasesleep [of s "BufLock b"] wake_none [OF assms, of b]
    by (auto simp: bio_env_def free_slk_def)
qed

lemma lock_bracket:
  assumes "bio_env s"
  shows "wp (oseq (acquire BcacheLock) (oseq (modify (\<lambda>s. s\<lparr>bcache := f (bcache s)\<rparr>)) (release BcacheLock))) Q s =
    Q () (s\<lparr>bcache := f (bcache s), cpu := quiet (cpu s)\<rparr>)"
  using assms by (auto simp: bio_env_def wp_rules kst_comm fun_upd_idem cpu_ok_def)

text \<open>The invariant of the cache while the running process holds the buffers \<open>H\<close>.\<close>

definition buf_idle :: "disk_state \<Rightarrow> buf \<Rightarrow> bool" where
  "buf_idle d x \<longleftrightarrow> refcnt x = 0 \<and> (bflags x = 0 \<or>
     bflags x = B_VALID \<and> bdev x = 1 \<and> bdata x = memdisk d (unat (blockno x)))"

definition buf_mine :: "disk_state \<Rightarrow> buf \<Rightarrow> bool" where
  "buf_mine d x \<longleftrightarrow> refcnt x = 1 \<and> bflags x = B_VALID \<and> bdev x = 1 \<and> unat (blockno x) < disksize d"

definition bio_inv :: "nat set \<Rightarrow> kst \<Rightarrow> bool" where
  "bio_inv H s \<longleftrightarrow> bio_env s \<and> H \<subseteq> {..<NBUF} \<and>
     (\<exists>xs. chain (bcache s) xs \<and> set xs = {..<NBUF}) \<and>
     (\<forall>b < NBUF. if b \<in> H then buf_mine (disk s) (get_buf b s) \<and> slocks s (BufLock b) = my_slk s
       else buf_idle (disk s) (get_buf b s) \<and> slocks s (BufLock b) = free_slk) \<and>
     (\<forall>a < NBUF. \<forall>b < NBUF. a \<noteq> b \<and> bdev (get_buf a s) = 1 \<and> bdev (get_buf b s) = 1 \<longrightarrow>
       blockno (get_buf a s) \<noteq> blockno (get_buf b s))"

lemma get_buf_upd:
  "a < length (bufs (bcache s)) \<Longrightarrow>
     get_buf b (upd_buf a f s) = (if a = b then f (get_buf a s) else get_buf b s)"
  by (simp add: get_buf_def upd_buf_def nth_list_update)

lemma get_buf_frame [simp]:
  "get_buf b (s\<lparr>cpu := c\<rparr>) = get_buf b s" "get_buf b (s\<lparr>slocks := sl\<rparr>) = get_buf b s"
  "get_buf b (s\<lparr>disk := d\<rparr>) = get_buf b s" "get_buf b (s\<lparr>locks := l\<rparr>) = get_buf b s"
  by (simp_all add: get_buf_def)

definition fill :: "u32 \<Rightarrow> byte list \<Rightarrow> buf \<Rightarrow> buf" where
  "fill bn d x = x\<lparr>bflags := B_VALID, bdev := 1, blockno := bn, refcnt := 1, bdata := d\<rparr>"

lemma upd_buf_sel [simp]:
  "cpu (upd_buf b f s) = cpu s" "locks (upd_buf b f s) = locks s" "slocks (upd_buf b f s) = slocks s"
  "disk (upd_buf b f s) = disk s" "ptable (upd_buf b f s) = ptable s"
  "length (bufs (bcache (upd_buf b f s))) = length (bufs (bcache s))"
  by (simp_all add: upd_buf_def)

lemma bio_env_upd_buf [simp]: "bio_env (upd_buf b f s) = bio_env s" "mypid (upd_buf b f s) = mypid s"
  by (simp_all add: bio_env_def mypid_def get_proc_def)

lemma wp_iderw_read:
  assumes "bio_env s" "slocks s (BufLock b) = my_slk s" "b < length (bufs (bcache s))"
    and "bflags (get_buf b s) = 0" "bdev (get_buf b s) = 1" "unat (blockno (get_buf b s)) < disksize (disk s)"
  shows "wp (iderw b) Q s = Q () (s\<lparr>bcache := (bcache s)\<lparr>bufs := (bufs (bcache s))[b :=
     (get_buf b s)\<lparr>bdata := memdisk (disk s) (unat (blockno (get_buf b s))), bflags := B_VALID\<rparr>]\<rparr>,
     cpu := quiet (cpu s)\<rparr>)"
  using assms
  by (simp add: iderw_def wp_rules wp_holdingsleep_buf upd_buf_def B_VALID_def B_DIRTY_def
      get_buf_def kst_comm)

lemma wp_iderw_write:
  assumes "bio_env s" "slocks s (BufLock b) = my_slk s" "b < length (bufs (bcache s))"
    and "bflags (get_buf b s) = B_VALID OR B_DIRTY" "bdev (get_buf b s) = 1"
    and "unat (blockno (get_buf b s)) < disksize (disk s)"
  shows "wp (iderw b) Q s = Q () (s\<lparr>disk := (disk s)\<lparr>memdisk := (memdisk (disk s))
       (unat (blockno (get_buf b s)) := bdata (get_buf b s))\<rparr>,
     bcache := (bcache s)\<lparr>bufs := (bufs (bcache s))[b := (get_buf b s)\<lparr>bflags := B_VALID\<rparr>]\<rparr>,
     cpu := quiet (cpu s)\<rparr>)"
  using assms
  by (simp add: iderw_def wp_rules wp_holdingsleep_buf upd_buf_def B_VALID_def B_DIRTY_def
      get_buf_def kst_comm)

definition bread_st :: "nat \<Rightarrow> u32 \<Rightarrow> kst \<Rightarrow> kst" where
  "bread_st b bn s = s\<lparr>bcache := (bcache s)\<lparr>
       num_disk_reads := num_disk_reads (bcache s) + 1,
       bufs := (bufs (bcache s))[b := fill bn (memdisk (disk s) (unat bn)) (get_buf b s)]\<rparr>,
     slocks := (slocks s)(BufLock b := my_slk s), cpu := quiet (cpu s)\<rparr>"

text \<open>The buffer \<open>bget\<close> chooses: the cached one, else the unused one released longest ago.\<close>

definition bget_choice :: "u32 \<Rightarrow> kst \<Rightarrow> nat list \<Rightarrow> nat option" where
  "bget_choice bn s xs =
     (case find (\<lambda>b. bdev (get_buf b s) = 1 \<and> blockno (get_buf b s) = bn) xs of
        Some b \<Rightarrow> Some b
      | None \<Rightarrow> find (\<lambda>b. refcnt (get_buf b s) = 0 \<and> bflags (get_buf b s) AND B_DIRTY = 0) (rev xs))"

lemma chain_reads [simp]: "chain (c\<lparr>num_disk_reads := n\<rparr>) xs = chain c xs"
proof -
  have "nxt (c\<lparr>num_disk_reads := n\<rparr>) = nxt c" "prv (c\<lparr>num_disk_reads := n\<rparr>) = prv c"
    by (auto simp: nxt_def prv_def)
  then show ?thesis by (simp add: chain_def)
qed

lemma find_SomeD: "find P xs = Some x \<Longrightarrow> P x \<and> x \<in> set xs"
  by (auto simp: find_Some_iff)

lemma wp_bget:
  assumes env: "bio_env s" and xs: "chain (bcache s) xs" and b: "bget_choice bn s xs = Some b"
    and free: "\<not> slocked (slocks s (BufLock b))"
  shows "wp (bget 1 bn) Q s = Q b (s\<lparr>bcache := (bcache s)\<lparr>bufs := (bufs (bcache s))[b :=
      (if bdev (get_buf b s) = 1 \<and> blockno (get_buf b s) = bn
       then (get_buf b s)\<lparr>refcnt := refcnt (get_buf b s) + 1\<rparr>
       else (get_buf b s)\<lparr>bdev := 1, blockno := bn, bflags := 0, refcnt := 1\<rparr>)]\<rparr>,
    slocks := (slocks s)(BufLock b := my_slk s), cpu := quiet (cpu s)\<rparr>)"
proof -
  have lk: "locks s BcacheLock = free_lock" "(locks s)(BcacheLock := free_lock) = locks s"
    "cpu_ok (cpu s)" "0 \<le> ncli (cpu s)"
    using env by (auto simp: bio_env_def cpu_ok_def)
  have sl: "wp (acquiresleep (BufLock b)) (\<lambda>_. Q b)
      (s\<lparr>bcache := (bcache s)\<lparr>bufs := (bufs (bcache s))[b := x]\<rparr>, cpu := quiet (cpu s)\<rparr>) =
      Q b (s\<lparr>bcache := (bcache s)\<lparr>bufs := (bufs (bcache s))[b := x]\<rparr>,
        slocks := (slocks s)(BufLock b := my_slk s), cpu := quiet (cpu s)\<rparr>)" for x
    using env free by (simp add: wp_acquiresleep_buf kst_comm)
  note scan1 = chain_scans(1) [OF xs, of "\<lambda>x. bdev x = 1 \<and> blockno x = bn"]
    and scan2 = chain_scans(2) [OF xs, of "\<lambda>x. refcnt x = 0 \<and> bflags x AND B_DIRTY = 0"]
  show ?thesis
  proof (cases "find (\<lambda>b. bdev (get_buf b s) = 1 \<and> blockno (get_buf b s) = bn) xs")
    case (Some a)
    then have "a = b" using b by (simp add: bget_choice_def)
    moreover have "bdev (get_buf b s) = 1 \<and> blockno (get_buf b s) = bn"
      using find_SomeD [OF Some] \<open>a = b\<close> by simp
    ultimately show ?thesis
      using Some lk sl scan1
      by (simp add: bget_def wp_rules kst_comm upd_buf_def wp_ret_fun flip: get_buf_def)
  next
    case None
    then have v: "find (\<lambda>b. refcnt (get_buf b s) = 0 \<and> bflags (get_buf b s) AND B_DIRTY = 0) (rev xs) = Some b"
      using b by (simp add: bget_choice_def)
    then have n: "(bdev (get_buf b s) = 1 \<and> blockno (get_buf b s) = bn) = False"
      using None find_SomeD [OF v] by (auto simp: find_None_iff)
    show ?thesis
      unfolding n using None v lk sl scan1 scan2
      by (simp add: bget_def wp_rules kst_comm upd_buf_def wp_ret_fun flip: get_buf_def)
  qed
qed

lemma bio_invD:
  assumes "bio_inv H s"
  shows "bio_env s" "length (bufs (bcache s)) = NBUF"
    and "b < NBUF \<Longrightarrow> b \<notin> H \<Longrightarrow> buf_idle (disk s) (get_buf b s) \<and> slocks s (BufLock b) = free_slk"
    and "b \<in> H \<Longrightarrow> b < NBUF \<and> buf_mine (disk s) (get_buf b s) \<and> slocks s (BufLock b) = my_slk s"
    and "a < NBUF \<Longrightarrow> b < NBUF \<Longrightarrow> a \<noteq> b \<Longrightarrow> bdev (get_buf a s) = 1 \<Longrightarrow> bdev (get_buf b s) = 1 \<Longrightarrow>
      blockno (get_buf a s) \<noteq> blockno (get_buf b s)"
  using assms by (auto simp: bio_inv_def chain_def split: if_splits)

lemma bget_choice_cong:
  "bufs (bcache t) = bufs (bcache s) \<Longrightarrow> bget_choice bn t xs = bget_choice bn s xs"
  unfolding bget_choice_def get_buf_def by (erule ssubst) (rule refl)

lemma bget_choice_ok:
  assumes inv: "bio_inv H s" and xs: "set xs = {..<NBUF}" and "H \<noteq> {..<NBUF}"
    and nh: "\<forall>b \<in> H. blockno (get_buf b s) \<noteq> bn"
  obtains b where "bget_choice bn s xs = Some b" "b < NBUF" "b \<notin> H"
    "\<And>a. a < NBUF \<Longrightarrow> a \<noteq> b \<Longrightarrow> \<not> (bdev (get_buf a s) = 1 \<and> blockno (get_buf a s) = bn)"
proof (cases "find (\<lambda>b. bdev (get_buf b s) = 1 \<and> blockno (get_buf b s) = bn) xs")
  case (Some b)
  note b = find_SomeD [OF Some]
  moreover have "b < NBUF" "b \<notin> H" using b xs nh by auto
  moreover have "\<not> (bdev (get_buf a s) = 1 \<and> blockno (get_buf a s) = bn)" if "a < NBUF" "a \<noteq> b" for a
    using bio_invD(5) [OF inv that(1) \<open>b < NBUF\<close> that(2)] b by auto
  ultimately show ?thesis using Some by (intro that) (auto simp: bget_choice_def)
next
  case None
  have "H \<subseteq> {..<NBUF}" using inv by (simp add: bio_inv_def)
  then obtain c where c: "c < NBUF" "c \<notin> H" using assms(3) by auto
  have "refcnt (get_buf c s) = 0 \<and> bflags (get_buf c s) AND B_DIRTY = 0"
    using bio_invD(3) [OF inv c] by (auto simp: buf_idle_def B_VALID_def B_DIRTY_def)
  then obtain b where b: "find (\<lambda>b. refcnt (get_buf b s) = 0 \<and> bflags (get_buf b s) AND B_DIRTY = 0) (rev xs) = Some b"
    using c xs by (metis (mono_tags, lifting) find_None_iff lessThan_iff not_Some_eq set_rev)
  have "b < NBUF" "b \<notin> H"
    using find_SomeD [OF b] xs bio_invD(4) [OF inv, of b] by (auto simp: buf_mine_def)
  moreover have "bget_choice bn s xs = Some b"
    using None b by (simp add: bget_choice_def)
  ultimately show ?thesis
    using None xs by (intro that) (auto simp: find_None_iff)
qed

lemma wp_bread_choice:
  assumes inv: "bio_inv H s" and xs: "chain (bcache s) xs"
    and b: "bget_choice bn s xs = Some b" "b < NBUF" "b \<notin> H" and bn: "unat bn < disksize (disk s)"
  shows "wp (bread 1 bn) Q s = Q b (bread_st b bn s)"
proof -
  let ?s = "s\<lparr>bcache := (bcache s)\<lparr>num_disk_reads := num_disk_reads (bcache s) + 1\<rparr>\<rparr>"
  have g: "get_buf a ?s = get_buf a s" for a by (simp add: get_buf_def)
  have idle: "buf_idle (disk s) (get_buf b s)" "slocks s (BufLock b) = free_slk"
    and env: "bio_env s" and len: "length (bufs (bcache s)) = NBUF"
    using bio_invD [OF inv] b by auto
  have ch: "bget_choice bn ?s xs = Some b" using b(1) bget_choice_cong [of ?s s] by simp
  define y where "y = (if bdev (get_buf b s) = 1 \<and> blockno (get_buf b s) = bn
     then (get_buf b s)\<lparr>refcnt := 1\<rparr>
     else (get_buf b s)\<lparr>bdev := 1, blockno := bn, bflags := 0, refcnt := 1\<rparr>)"
  let ?t = "?s\<lparr>bcache := (bcache ?s)\<lparr>bufs := (bufs (bcache s))[b := y]\<rparr>,
      slocks := (slocks s)(BufLock b := my_slk s), cpu := quiet (cpu s)\<rparr>"
  let ?d = "memdisk (disk s) (unat bn)"
  have get: "wp (bget 1 bn) R ?s = R b ?t" for R
    using wp_bget [OF _ _ ch, of R] env xs idle y_def by (simp add: g buf_idle_def)
  have y: "get_buf b (s\<lparr>bcache := (bcache s)\<lparr>num_disk_reads := n, bufs := (bufs (bcache s))[b := y]\<rparr>\<rparr>) = y"
    for n using len b(2) by (simp add: get_buf_def)
  have f: "bdev y = 1" "blockno y = bn" "bflags y = 0 \<or> bflags y = B_VALID"
    using idle(1) by (auto simp: y_def buf_idle_def)
  have v: "fill bn ?d (get_buf b s) = y" if "bflags y = B_VALID"
    using that idle(1) by (auto simp: y_def fill_def buf_idle_def B_VALID_def split: if_splits
        intro!: buf.equality)
  have nv: "fill bn ?d (get_buf b s) = y\<lparr>bdata := ?d, bflags := B_VALID\<rparr>"
    by (auto simp: y_def fill_def intro!: buf.equality)
  show ?thesis
  proof (cases "bflags y = 0")
    case True
    have "wp (iderw b) R ?t = R () (bread_st b bn s)" for R
      by (subst wp_iderw_read)
        (use y f env len b(2) bn True in \<open>simp_all add: bread_st_def nv kst_comm\<close>)
    then show ?thesis using True by (simp add: bread_def wp_rules get y B_VALID_def)
  next
    case False
    then show ?thesis
      using f v by (simp add: bread_def wp_rules get y B_VALID_def bread_st_def)
  qed
qed

lemma chain_links:
  assumes "chain c xs" "length bs = NBUF" "\<And>i. i < NBUF \<Longrightarrow> bnext (bs ! i) = bnext (bufs c ! i) \<and>
     bprev (bs ! i) = bprev (bufs c ! i)"
  shows "chain (c\<lparr>bufs := bs\<rparr>) xs"
proof -
  have xs: "set xs \<subseteq> {..<NBUF}" "linked (nxt c) (prv c) NBUF xs NBUF" using assms(1) by (auto simp: chain_def)
  have "linked (nxt (c\<lparr>bufs := bs\<rparr>)) (prv (c\<lparr>bufs := bs\<rparr>)) a ys NBUF"
    if "set (a # ys) \<subseteq> {..NBUF}" "linked (nxt c) (prv c) a ys NBUF" for a ys
    using that assms(3) by (induction ys arbitrary: a) (auto simp: nxt_def prv_def)
  moreover have "set (NBUF # xs) \<subseteq> {..NBUF}" using xs by auto
  ultimately show ?thesis using assms(1,2) xs by (simp add: chain_def)
qed

lemma bread_st_sel [simp]:
  "disk (bread_st b bn s) = disk s" "bio_env (bread_st b bn s) = bio_env s"
  "my_slk (bread_st b bn s) = my_slk s" "cpu (bread_st b bn s) = quiet (cpu s)"
  "slocks (bread_st b bn s) = (slocks s)(BufLock b := my_slk s)"
  by (simp_all add: bread_st_def)

lemma get_buf_bread_st:
  assumes "b < length (bufs (bcache s))"
  shows "get_buf a (bread_st b bn s) =
    (if a = b then fill bn (memdisk (disk s) (unat bn)) (get_buf b s) else get_buf a s)"
  using assms by (simp add: bread_st_def get_buf_def nth_list_update)

lemma bread_st_inv:
  assumes inv: "bio_inv H s" and b: "b < NBUF" "b \<notin> H" and bn: "unat bn < disksize (disk s)"
    and uniq: "\<And>a. a < NBUF \<Longrightarrow> a \<noteq> b \<Longrightarrow> \<not> (bdev (get_buf a s) = 1 \<and> blockno (get_buf a s) = bn)"
  shows "bio_inv (insert b H) (bread_st b bn s)"
proof -
  have len: "length (bufs (bcache s)) = NBUF" by (rule bio_invD(2) [OF inv])
  obtain xs where xs: "chain (bcache s) xs" "set xs = {..<NBUF}"
    using inv by (auto simp: bio_inv_def)
  have "chain (bcache (bread_st b bn s)) xs"
    using len xs(1) b(1) unfolding bread_st_def
    by (simp, intro chain_links) (auto simp: nth_list_update fill_def get_buf_def)
  moreover have "if a \<in> insert b H
      then buf_mine (disk s) (get_buf a (bread_st b bn s)) \<and> slocks (bread_st b bn s) (BufLock a) = my_slk s
      else buf_idle (disk s) (get_buf a (bread_st b bn s)) \<and> slocks (bread_st b bn s) (BufLock a) = free_slk"
    if "a < NBUF" for a
    using bio_invD(3,4) [OF inv, of a] that b bn len
    by (auto simp: get_buf_bread_st buf_mine_def fill_def)
  moreover have "blockno (get_buf a (bread_st b bn s)) \<noteq> blockno (get_buf c (bread_st b bn s))"
    if "a < NBUF" "c < NBUF" "a \<noteq> c" "bdev (get_buf a (bread_st b bn s)) = 1"
      "bdev (get_buf c (bread_st b bn s)) = 1" for a c
    using that uniq bio_invD(5) [OF inv that(1-3)] len b(1)
    by (auto simp: get_buf_bread_st fill_def split: if_splits)
  ultimately show ?thesis
    using inv b xs(2) by (auto simp: bio_inv_def)
qed

lemma wp_bread:
  assumes inv: "bio_inv H s" and bn: "unat bn < disksize (disk s)"
    and nh: "\<forall>b \<in> H. blockno (get_buf b s) \<noteq> bn" and H: "H \<noteq> {..<NBUF}"
    and Q: "\<And>b. b < NBUF \<Longrightarrow> b \<notin> H \<Longrightarrow> bio_inv (insert b H) (bread_st b bn s) \<Longrightarrow> Q b (bread_st b bn s)"
  shows "wp (bread 1 bn) Q s"
proof -
  obtain xs where xs: "chain (bcache s) xs" "set xs = {..<NBUF}"
    using inv by (auto simp: bio_inv_def)
  obtain b where b: "bget_choice bn s xs = Some b" "b < NBUF" "b \<notin> H"
    "\<And>a. a < NBUF \<Longrightarrow> a \<noteq> b \<Longrightarrow> \<not> (bdev (get_buf a s) = 1 \<and> blockno (get_buf a s) = bn)"
    using bget_choice_ok [OF inv xs(2) H nh] by blast
  show ?thesis
    using wp_bread_choice [OF inv xs(1) b(1-3) bn, of Q] bread_st_inv [OF inv b(2,3) bn b(4)] Q [OF b(2,3)]
    by simp
qed

text \<open>Writing a held buffer through to the disk leaves the cache as it is.\<close>

lemma wp_bwrite:
  assumes inv: "bio_inv H s" and b: "b \<in> H" and cr: "\<not> crashn_enable (bcache s)"
  shows "wp (bwrite b) Q s = Q () (s\<lparr>disk := (disk s)\<lparr>memdisk := (memdisk (disk s))
      (unat (blockno (get_buf b s)) := bdata (get_buf b s))\<rparr>, cpu := quiet (cpu s)\<rparr>)"
proof -
  have len: "length (bufs (bcache s)) = NBUF" "b < NBUF" and env: "bio_env s"
    and m: "buf_mine (disk s) (get_buf b s)" "slocks s (BufLock b) = my_slk s"
    using bio_invD [OF inv] b by auto
  let ?x = "get_buf b s"
  let ?t = "s\<lparr>bcache := (bcache s)\<lparr>bufs := (bufs (bcache s))[b := ?x\<lparr>bflags := B_VALID OR B_DIRTY\<rparr>]\<rparr>,
      cpu := quiet (cpu s)\<rparr>"
  have x: "?x\<lparr>bflags := B_VALID\<rparr> = ?x" using m(1) by (intro buf.equality) (auto simp: buf_mine_def)
  have id: "s\<lparr>disk := d, bcache := (bcache s)\<lparr>bufs := (bufs (bcache s))[b := ?x]\<rparr>, cpu := c\<rparr> = s\<lparr>disk := d, cpu := c\<rparr>" for d c
    using len by (simp add: get_buf_def)
  have g: "get_buf b (s\<lparr>bcache := (bcache s)\<lparr>bufs := (bufs (bcache s))[b := y]\<rparr>\<rparr>) = y" for y
    using len by (simp add: get_buf_def)
  have "wp (iderw b) Q ?t = Q () (s\<lparr>disk := (disk s)\<lparr>memdisk := (memdisk (disk s))
      (unat (blockno ?x) := bdata ?x)\<rparr>, cpu := quiet (cpu s)\<rparr>)"
    by (subst wp_iderw_write) (use env m len in \<open>simp_all add: g buf_mine_def kst_comm x id\<close>)
  moreover have "upd_buf b (\<lambda>x. x\<lparr>bflags := bflags x OR B_DIRTY\<rparr>) (s\<lparr>cpu := quiet (cpu s)\<rparr>) = ?t"
    using m(1) by (simp add: upd_buf_def get_buf_def buf_mine_def kst_comm)
  ultimately show ?thesis
    using cr env m(2) by (simp add: bwrite_def wp_rules wp_holdingsleep_buf)
qed

definition brelse_st :: "nat \<Rightarrow> kst \<Rightarrow> kst" where
  "brelse_st b s = s\<lparr>bcache := push_front b (unlink_buf b ((bcache s)\<lparr>bufs :=
       (bufs (bcache s))[b := (get_buf b s)\<lparr>refcnt := 0\<rparr>]\<rparr>)),
     slocks := (slocks s)(BufLock b := free_slk), cpu := quiet (cpu s)\<rparr>"

lemma brelse_st_sel [simp]:
  "disk (brelse_st b s) = disk s" "bio_env (brelse_st b s) = bio_env s"
  "my_slk (brelse_st b s) = my_slk s" "cpu (brelse_st b s) = quiet (cpu s)"
  by (simp_all add: brelse_st_def)

lemma wp_brelse:
  assumes inv: "bio_inv H s" and b: "b \<in> H"
  shows "wp (brelse b) Q s = Q () (brelse_st b s)"
proof -
  have len: "length (bufs (bcache s)) = NBUF" "b < NBUF" and env: "bio_env s"
    and m: "buf_mine (disk s) (get_buf b s)" "slocks s (BufLock b) = my_slk s"
    using bio_invD [OF inv] b by auto
  have lk: "locks s BcacheLock = free_lock" "(locks s)(BcacheLock := free_lock) = locks s"
    "cpu_ok (cpu s)" "0 \<le> ncli (cpu s)"
    using env by (auto simp: bio_env_def cpu_ok_def)
  have "refcnt (bufs (bcache s) ! b) = 1" using m(1) by (simp add: buf_mine_def get_buf_def)
  then show ?thesis
    using env m(2) lk len
    by (simp add: brelse_def wp_rules wp_holdingsleep_buf wp_releasesleep_buf brelse_st_def upd_buf_def
        get_buf_def kst_comm)
qed

lemma payload_pred:
  assumes "payload x = payload y"
  shows "buf_idle d x = buf_idle d y" "buf_mine d x = buf_mine d y" "bdev x = bdev y" "blockno x = blockno y"
    and "bdata x = bdata y"
proof -
  have "refcnt (payload x) = refcnt (payload y)" "bflags (payload x) = bflags (payload y)"
    "bdev (payload x) = bdev (payload y)" "blockno (payload x) = blockno (payload y)"
    "bdata (payload x) = bdata (payload y)"
    using assms by simp_all
  then show "buf_idle d x = buf_idle d y" "buf_mine d x = buf_mine d y" "bdev x = bdev y"
    "blockno x = blockno y" "bdata x = bdata y"
    by (simp_all add: payload_def buf_idle_def buf_mine_def)
qed

lemma payload_brelse_st:
  assumes "length (bufs (bcache s)) = NBUF" "a < NBUF" "b < NBUF"
  shows "payload (get_buf a (brelse_st b s)) =
    payload (if a = b then (get_buf b s)\<lparr>refcnt := 0\<rparr> else get_buf a s)"
proof -
  let ?c = "(bcache s)\<lparr>bufs := (bufs (bcache s))[b := (get_buf b s)\<lparr>refcnt := 0\<rparr>]\<rparr>"
  have e: "map payload (bufs (bcache (brelse_st b s))) = map payload (bufs ?c)"
    by (simp add: brelse_st_def)
  then have "length (bufs (bcache (brelse_st b s))) = NBUF"
    using assms by (metis length_map length_list_update bcache_state.select_convs(1) bcache_state.surjective bcache_state.update_convs(1))
  then have "payload (bufs (bcache (brelse_st b s)) ! a) = payload (bufs ?c ! a)"
    using arg_cong [OF e, of "\<lambda>l. l ! a"] assms by (simp add: nth_map)
  then show ?thesis
    using assms by (auto simp: get_buf_def nth_list_update)
qed

lemma brelse_st_chain:
  assumes "chain (bcache s) (ys @ b # zs)" "b < NBUF"
  shows "chain (bcache (brelse_st b s)) (b # ys @ zs)"
proof -
  have "length (bufs (bcache s)) = NBUF" using assms(1) by (simp add: chain_def)
  then have "chain ((bcache s)\<lparr>bufs := (bufs (bcache s))[b := (get_buf b s)\<lparr>refcnt := 0\<rparr>]\<rparr>) (ys @ b # zs)"
    using assms by (intro chain_links) (auto simp: nth_list_update get_buf_def)
  then show ?thesis
    unfolding brelse_st_def using assms(2)
    by (simp, intro chain_push_front chain_unlink) (auto simp: chain_def)
qed

lemma brelse_st_inv:
  assumes inv: "bio_inv H s" and b: "b \<in> H"
    and clean: "bdata (get_buf b s) = memdisk (disk s) (unat (blockno (get_buf b s)))"
  shows "bio_inv (H - {b}) (brelse_st b s)"
proof -
  have len: "length (bufs (bcache s)) = NBUF" "b < NBUF" and m: "buf_mine (disk s) (get_buf b s)"
    using bio_invD [OF inv] b by auto
  note pay = payload_brelse_st [OF len(1) _ len(2)]
  have idle: "buf_idle (disk s) ((get_buf b s)\<lparr>refcnt := 0\<rparr>)"
    using m clean by (simp add: buf_idle_def buf_mine_def)
  obtain xs where xs: "chain (bcache s) xs" "set xs = {..<NBUF}"
    using inv by (auto simp: bio_inv_def)
  then obtain ys zs where yz: "xs = ys @ b # zs" using len(2) by (metis lessThan_iff split_list)
  have "chain (bcache (brelse_st b s)) (b # ys @ zs)"
    using brelse_st_chain xs(1) yz len(2) by simp
  moreover have "set (b # ys @ zs) = {..<NBUF}" using xs(2) yz by auto
  moreover have "if a \<in> H - {b}
      then buf_mine (disk s) (get_buf a (brelse_st b s)) \<and> slocks (brelse_st b s) (BufLock a) = my_slk s
      else buf_idle (disk s) (get_buf a (brelse_st b s)) \<and> slocks (brelse_st b s) (BufLock a) = free_slk"
    if "a < NBUF" for a
    using bio_invD(3,4) [OF inv, of a] that idle payload_pred(1,2) [OF pay [OF that], of "disk s"]
    by (auto simp: brelse_st_def)
  moreover have "blockno (get_buf a (brelse_st b s)) \<noteq> blockno (get_buf c (brelse_st b s))"
    if "a < NBUF" "c < NBUF" "a \<noteq> c" "bdev (get_buf a (brelse_st b s)) = 1"
      "bdev (get_buf c (brelse_st b s)) = 1" for a c
    using that bio_invD(5) [OF inv that(1-3)]
    by (auto simp: payload_pred(3,4) [OF pay [OF that(1)]] payload_pred(3,4) [OF pay [OF that(2)]] split: if_splits)
  ultimately show ?thesis
    using inv b unfolding bio_inv_def by auto
qed

lemma bwrite_st_inv:
  assumes inv: "bio_inv H s" and b: "b \<in> H"
    and t: "t = s\<lparr>disk := (disk s)\<lparr>memdisk := (memdisk (disk s))
      (unat (blockno (get_buf b s)) := bdata (get_buf b s))\<rparr>, cpu := quiet (cpu s)\<rparr>"
  shows "bio_inv H t"
proof -
  have len: "b < NBUF" "bdev (get_buf b s) = 1" using bio_invD(4) [OF inv b] by (auto simp: buf_mine_def)
  have "buf_idle (disk t) (get_buf a s)" if "a < NBUF" "a \<notin> H" for a
  proof -
    have "a \<noteq> b" using that b by blast
    then have "bdev (get_buf a s) = 1 \<Longrightarrow> blockno (get_buf a s) \<noteq> blockno (get_buf b s)"
      using bio_invD(5) [OF inv that(1) len(1)] len(2) by auto
    then show ?thesis
      using bio_invD(3) [OF inv that] by (auto simp: buf_idle_def t word_unat_eq_iff)
  qed
  moreover have "buf_mine (disk t) x = buf_mine (disk s) x" for x by (simp add: buf_mine_def t)
  ultimately show ?thesis
    using inv unfolding bio_inv_def by (auto simp: t)
qed

section \<open>The contract of the cache\<close>

text \<open>
  A store of numbered blocks behind a cache: \<open>get\<close> returns a handle on the contents of a block,
  \<open>put\<close> writes the handle's data through, \<open>drop\<close> gives the handle back.  \<open>rest\<close> is the part of
  the state the store does not touch.
\<close>

locale block_store =
  fixes get :: "nat \<Rightarrow> ('h, 's) kop"
    and put :: "'h \<Rightarrow> (unit, 's) kop"
    and drop_h :: "'h \<Rightarrow> (unit, 's) kop"
    and content :: "'h \<Rightarrow> 's \<Rightarrow> byte list"
    and set_content :: "'h \<Rightarrow> byte list \<Rightarrow> 's \<Rightarrow> 's"
    and blocks :: "'s \<Rightarrow> nat \<Rightarrow> byte list"
    and size_of :: "'s \<Rightarrow> nat"
    and idle :: "'s \<Rightarrow> bool"
    and has :: "'h \<Rightarrow> nat \<Rightarrow> 's \<Rightarrow> bool"
    and rest :: "'s \<Rightarrow> 'r"
  assumes get_block: "idle s \<Longrightarrow> n < size_of s \<Longrightarrow>
      wp (get n) (\<lambda>h t. has h n t \<and> content h t = blocks s n \<and> blocks t = blocks s \<and>
        size_of t = size_of s \<and> rest t = rest s) s"
    and put_block: "has h n s \<Longrightarrow>
      wp (put h) (\<lambda>_ t. has h n t \<and> content h t = content h s \<and> blocks t = (blocks s)(n := content h s) \<and>
        size_of t = size_of s \<and> rest t = rest s) s"
    and drop_block: "has h n s \<Longrightarrow> content h s = blocks s n \<Longrightarrow>
      wp (drop_h h) (\<lambda>_ t. idle t \<and> blocks t = blocks s \<and> size_of t = size_of s \<and> rest t = rest s) s"
    and set_block: "has h n s \<Longrightarrow> has h n (set_content h d s) \<and> content h (set_content h d s) = d \<and>
      blocks (set_content h d s) = blocks s \<and> size_of (set_content h d s) = size_of s \<and>
      rest (set_content h d s) = rest s"
begin

text \<open>Reading a block and giving the handle back.\<close>

lemma read_back:
  assumes "idle s" "n < size_of s"
  shows "wp (obind (get n) (\<lambda>h. obind (gets (content h)) (\<lambda>d. oseq (drop_h h) (ret (f d)))))
    (\<lambda>r t. r = f (blocks s n) \<and> idle t \<and> blocks t = blocks s \<and> size_of t = size_of s \<and> rest t = rest s) s"
proof -
  have "wp (oseq (drop_h h) (ret (f (content h t)))) (\<lambda>r u. r = f (blocks s n) \<and> idle u \<and>
      blocks u = blocks s \<and> size_of u = size_of s \<and> rest u = rest s) t"
    if "has h n t \<and> content h t = blocks s n \<and> blocks t = blocks s \<and> size_of t = size_of s \<and>
      rest t = rest s" for h t
    using that by (auto simp: wp_rules wp_ret_fun intro!: wp_mono [OF drop_block])
  then show ?thesis
    by (auto simp: wp_obind wp_gets intro!: wp_mono [OF get_block [OF assms]])
qed

lemma read_then:
  assumes "idle s" "n < size_of s"
    and k: "\<And>t. idle t \<Longrightarrow> blocks t = blocks s \<Longrightarrow> size_of t = size_of s \<Longrightarrow> rest t = rest s \<Longrightarrow>
      wp (k (f (blocks s n))) Q t"
  shows "wp (obind (get n) (\<lambda>h. obind (gets (\<lambda>t. f (content h t))) (\<lambda>d. oseq (drop_h h) (k d)))) Q s"
proof -
  have "wp (oseq (drop_h h) (k (f (content h t)))) Q t"
    if "has h n t \<and> content h t = blocks s n \<and> blocks t = blocks s \<and> size_of t = size_of s \<and>
      rest t = rest s" for h t
    using that k by (auto simp: wp_oseq intro!: wp_mono [OF drop_block])
  then show ?thesis
    by (auto simp: wp_obind wp_gets intro!: wp_mono [OF get_block [OF assms(1,2)]])
qed

text \<open>Changing a block: read, modify, write through, give back.\<close>

lemma read_modify_write:
  assumes "idle s" "n < size_of s"
  shows "wp (obind (get n) (\<lambda>h. oseq (modify (\<lambda>t. set_content h (f (content h t)) t))
      (oseq (put h) (drop_h h))))
    (\<lambda>_ t. idle t \<and> blocks t = (blocks s)(n := f (blocks s n)) \<and> size_of t = size_of s \<and> rest t = rest s) s"
proof -
  have "wp (oseq (put h) (drop_h h)) (\<lambda>_ u. idle u \<and> blocks u = (blocks s)(n := f (blocks s n)) \<and>
      size_of u = size_of s \<and> rest u = rest s) (set_content h (f (content h t)) t)"
    if "has h n t \<and> content h t = blocks s n \<and> blocks t = blocks s \<and> size_of t = size_of s \<and>
      rest t = rest s" for h t
  proof -
    have "has h n (set_content h (f (content h t)) t)" using that set_block by blast
    then show ?thesis
      unfolding wp_oseq
    proof (rule wp_mono [OF put_block])
      fix a u
      assume u: "has h n u \<and> content h u = content h (set_content h (f (content h t)) t) \<and>
        blocks u = (blocks (set_content h (f (content h t)) t))(n := content h (set_content h (f (content h t)) t)) \<and>
        size_of u = size_of (set_content h (f (content h t)) t) \<and> rest u = rest (set_content h (f (content h t)) t)"
      then show "wp (drop_h h) (\<lambda>_ v. idle v \<and> blocks v = (blocks s)(n := f (blocks s n)) \<and>
          size_of v = size_of s \<and> rest v = rest s) u"
        using that set_block [of h n t "f (content h t)"]
        by (intro wp_mono [OF drop_block [of h n]]) auto
    qed
  qed
  then show ?thesis
    by (auto simp: wp_rules intro!: wp_mono [OF get_block [OF assms]])
qed

end

text \<open>The state apart from the cache, the disk, the buffers' locks and the interrupt state that
  every lock operation may normalise.\<close>

definition bio_rest :: "kst \<Rightarrow> kst" where
  "bio_rest s = s\<lparr>disk := disk zero_kst, bcache := bcache zero_kst,
     slocks := (\<lambda>l. case l of BufLock _ \<Rightarrow> free_slk | _ \<Rightarrow> slocks s l), cpu := quiet (cpu s)\<rparr>"

definition bio_idle :: "kst \<Rightarrow> bool" where
  "bio_idle s \<longleftrightarrow> bio_inv {} s \<and> \<not> crashn_enable (bcache s) \<and> disksize (disk s) < 2 ^ 31"

definition bio_has :: "nat \<Rightarrow> nat \<Rightarrow> kst \<Rightarrow> bool" where
  "bio_has b n s \<longleftrightarrow> bio_inv {b} s \<and> \<not> crashn_enable (bcache s) \<and> disksize (disk s) < 2 ^ 31 \<and>
     unat (blockno (get_buf b s)) = n"

definition set_data :: "nat \<Rightarrow> byte list \<Rightarrow> kst \<Rightarrow> kst" where
  "set_data b d = upd_buf b (\<lambda>x. x\<lparr>bdata := d\<rparr>)"

lemma bio_rest_upd [simp]:
  "bio_rest (s\<lparr>disk := d\<rparr>) = bio_rest s" "bio_rest (s\<lparr>bcache := c\<rparr>) = bio_rest s"
  "bio_rest (s\<lparr>slocks := (slocks s)(BufLock b := l)\<rparr>) = bio_rest s"
  "k = cpu s \<Longrightarrow> bio_rest (s\<lparr>cpu := quiet k\<rparr>) = bio_rest s"
  "bio_rest (bread_st b bn s) = bio_rest s" "bio_rest (brelse_st b s) = bio_rest s"
  "bio_rest (set_data b x s) = bio_rest s"
  by (simp_all add: bio_rest_def bread_st_def brelse_st_def set_data_def upd_buf_def kst_comm
      fun_eq_iff split: slkid.splits)

lemma set_data_inv:
  assumes inv: "bio_inv H s" and b: "b \<in> H"
  shows "bio_inv H (set_data b d s)"
proof -
  have len: "length (bufs (bcache s)) = NBUF" "b < NBUF" using bio_invD [OF inv] b by auto
  obtain xs where xs: "chain (bcache s) xs" "set xs = {..<NBUF}"
    using inv by (auto simp: bio_inv_def)
  have "chain (bcache (set_data b d s)) xs"
    using xs(1) len unfolding set_data_def upd_buf_def
    by (simp, intro chain_links) (auto simp: nth_list_update)
  moreover have "get_buf a (set_data b d s) = (if a = b then (get_buf b s)\<lparr>bdata := d\<rparr> else get_buf a s)" for a
    using len by (simp add: set_data_def get_buf_upd)
  moreover have "buf_mine k (x\<lparr>bdata := d\<rparr>) = buf_mine k x" for k x by (simp add: buf_mine_def)
  ultimately show ?thesis
    using inv b xs(2) unfolding bio_inv_def
    by (auto simp: set_data_def my_slk_def split: if_splits)
qed

lemma NBUF_not_single: "{} \<noteq> {..<NBUF}" "{b} \<noteq> {..<NBUF}"
proof -
  have "0 \<in> {..<NBUF}" "1 \<in> {..<NBUF}" by (simp_all add: NBUF_def)
  then show "{} \<noteq> {..<NBUF}" "{b} \<noteq> {..<NBUF}" by (force, metis One_nat_def n_not_Suc_n singletonD)
qed

interpretation disk_cache: block_store "\<lambda>n. bread 1 (of_nat n)" bwrite brelse
  "\<lambda>b s. bdata (get_buf b s)" set_data "\<lambda>s. memdisk (disk s)" "\<lambda>s. disksize (disk s)"
  bio_idle bio_has bio_rest
proof unfold_locales
  fix s n
  assume s: "bio_idle s" "n < disksize (disk s)"
  then have n: "unat (of_nat n :: u32) = n"
    by (simp only: bio_idle_def unat_of_nat) (rule mod_less, simp)
  have inv: "bio_inv {} s" and bn: "unat (of_nat n :: u32) < disksize (disk s)"
    using s n by (simp_all add: bio_idle_def)
  show "wp (bread 1 (of_nat n)) (\<lambda>h t. bio_has h n t \<and> bdata (get_buf h t) = memdisk (disk s) n \<and>
      memdisk (disk t) = memdisk (disk s) \<and> disksize (disk t) = disksize (disk s) \<and> bio_rest t = bio_rest s) s"
  proof (rule wp_bread [OF inv bn _ NBUF_not_single(1)])
    fix b
    assume b: "b < NBUF" "bio_inv (insert b {}) (bread_st b (of_nat n) s)"
    moreover have "crashn_enable (bcache (bread_st b (of_nat n) s)) = crashn_enable (bcache s)"
      by (simp add: bread_st_def)
    ultimately show "bio_has b n (bread_st b (of_nat n) s) \<and>
        bdata (get_buf b (bread_st b (of_nat n) s)) = memdisk (disk s) n \<and>
        memdisk (disk (bread_st b (of_nat n) s)) = memdisk (disk s) \<and>
        disksize (disk (bread_st b (of_nat n) s)) = disksize (disk s) \<and>
        bio_rest (bread_st b (of_nat n) s) = bio_rest s"
      using s(1) bio_invD(2) [OF inv] n
      by (simp add: bio_has_def bio_idle_def get_buf_bread_st fill_def)
  qed simp
next
  fix h n s
  assume s: "bio_has h n s"
  then have inv: "bio_inv {h} s" and cr: "\<not> crashn_enable (bcache s)" by (simp_all add: bio_has_def)
  show "wp (bwrite h) (\<lambda>_ t. bio_has h n t \<and> bdata (get_buf h t) = bdata (get_buf h s) \<and>
      memdisk (disk t) = (memdisk (disk s))(n := bdata (get_buf h s)) \<and>
      disksize (disk t) = disksize (disk s) \<and> bio_rest t = bio_rest s) s"
    using bwrite_st_inv [OF inv _ refl] s by (simp add: wp_bwrite [OF inv _ cr] bio_has_def)
  show "wp (brelse h) (\<lambda>_ t. bio_idle t \<and> memdisk (disk t) = memdisk (disk s) \<and>
      disksize (disk t) = disksize (disk s) \<and> bio_rest t = bio_rest s) s"
    if "bdata (get_buf h s) = memdisk (disk s) n"
    using brelse_st_inv [OF inv, of h] that s
    by (simp add: wp_brelse [OF inv] bio_has_def bio_idle_def) (simp add: brelse_st_def)
  fix d
  have "length (bufs (bcache s)) = NBUF" "h < NBUF" using bio_invD [OF inv] by auto
  then show "bio_has h n (set_data h d s) \<and> bdata (get_buf h (set_data h d s)) = d \<and>
      memdisk (disk (set_data h d s)) = memdisk (disk s) \<and>
      disksize (disk (set_data h d s)) = disksize (disk s) \<and> bio_rest (set_data h d s) = bio_rest s"
    using set_data_inv [OF inv, of h d] s cr
    by (simp add: bio_has_def) (simp add: set_data_def get_buf_upd, simp add: upd_buf_def)
qed

section \<open>Initialisation\<close>

text \<open>\<open>binit\<close> links all buffers, the last one first.  What it keeps of the state \<open>s\<close> it starts in:\<close>

definition binit_keeps :: "kst \<Rightarrow> kst \<Rightarrow> bool" where
  "binit_keeps s t \<longleftrightarrow> cpu t = cpu s \<and> ptable t = ptable s \<and> disk t = disk s \<and> locks t = locks s \<and>
     map payload (bufs (bcache t)) = map payload (bufs (bcache s)) \<and>
     crashn_enable (bcache t) = crashn_enable (bcache s)"

lemma wp_binit_chain:
  assumes len: "length (bufs (bcache s)) = NBUF" and lk: "\<forall>l. locks s l = free_lock"
  shows "wp binit (\<lambda>_ t. chain (bcache t) (rev [0..<NBUF]) \<and> binit_keeps s t \<and>
     (\<forall>b < NBUF. slocks t (BufLock b) = free_slk)) s"
proof -
  let ?I = "\<lambda>js t. \<exists>k \<le> NBUF. js = [k..<NBUF] \<and> chain (bcache t) (rev [0..<k]) \<and> binit_keeps s t \<and>
    (\<forall>b < k. slocks t (BufLock b) = free_slk)"
  have id: "(locks t)(l := \<lparr>locked = False, lcpu = None\<rparr>) = locks t" if "locks t = locks s" for t l
    using lk that by (metis free_lock_def fun_upd_triv)
  have step: "wp (oseq (initsleeplock (BufLock b))
        (modify (\<lambda>s. s\<lparr>bcache := push_front b (bcache s)\<rparr>))) (\<lambda>_. ?I js) t"
    if "?I (b # js) t" for b js t
  proof -
    from that obtain k where k: "b # js = [k..<NBUF]" "chain (bcache t) (rev [0..<k])" "binit_keeps s t"
      "\<forall>b < k. slocks t (BufLock b) = free_slk" by blast
    then have b: "b = k" "k < NBUF" "js = [Suc k..<NBUF]"
      using upt_eq_Cons_conv [of k NBUF b js] by auto
    moreover have "chain (push_front k (bcache t)) (rev [0..<Suc k])"
      using chain_push_front [OF k(2) \<open>k < NBUF\<close>] by simp
    ultimately show ?thesis
      using k(3,4) id [of t]
      by (auto simp: wp_rules initsleeplock_def initlock_def binit_keeps_def free_slk_def less_Suc_eq
          intro!: exI [of _ "Suc k"])
  qed
  have "chain (set_next NBUF NBUF (set_prev NBUF NBUF (bcache s))) []"
    using len by (simp add: chain_def link_upd)
  moreover have "crashn_enable (set_next NBUF NBUF (set_prev NBUF NBUF (bcache s))) = crashn_enable (bcache s)"
    by (simp add: set_next_def set_prev_def)
  ultimately have init: "?I [0..<NBUF] (s\<lparr>bcache := set_next NBUF NBUF (set_prev NBUF NBUF (bcache s))\<rparr>)"
    by (intro exI [of _ 0]) (simp add: binit_keeps_def)
  have fin: "chain (bcache t) (rev [0..<NBUF]) \<and> binit_keeps s t \<and>
      (\<forall>b < NBUF. slocks t (BufLock b) = free_slk)" if "?I [] t" for t
  proof -
    from that obtain k where "k \<le> NBUF" "[k..<NBUF] = []" "chain (bcache t) (rev [0..<k])"
      "binit_keeps s t" "\<forall>b < k. slocks t (BufLock b) = free_slk" by metis
    then show ?thesis by (auto simp: upt_eq_Nil_conv)
  qed
  have "wp (foreach [0..<NBUF] (\<lambda>b. oseq (initsleeplock (BufLock b))
        (modify (\<lambda>s. s\<lparr>bcache := push_front b (bcache s)\<rparr>))))
      (\<lambda>_ t. chain (bcache t) (rev [0..<NBUF]) \<and> binit_keeps s t \<and> (\<forall>b < NBUF. slocks t (BufLock b) = free_slk))
      (s\<lparr>bcache := set_next NBUF NBUF (set_prev NBUF NBUF (bcache s))\<rparr>)"
    by (rule wp_foreach_inv [where I = ?I, OF init step fin])
  then show ?thesis
    using id [of s] by (simp add: binit_def initlock_def wp_rules)
qed

lemma wp_binit:
  assumes "length (bufs (bcache s)) = NBUF" "\<forall>l. locks s l = free_lock"
    and zero: "\<forall>x \<in> set (bufs (bcache s)). refcnt x = 0 \<and> bflags x = 0 \<and> bdev x = 0"
    and env: "cpu_ok (cpu s)" "curproc (cpu s) \<noteq> None"
      "\<forall>q \<in> set (procs (ptable s)). \<forall>b. pchan q \<noteq> Some (ChSleeplock (BufLock b))"
  shows "wp binit (\<lambda>_ t. bio_inv {} t \<and> chain (bcache t) (rev [0..<NBUF]) \<and> binit_keeps s t) s"
proof (rule wp_mono [OF wp_binit_chain [OF assms(1,2)]])
  fix u t
  assume t: "chain (bcache t) (rev [0..<NBUF]) \<and> binit_keeps s t \<and> (\<forall>b < NBUF. slocks t (BufLock b) = free_slk)"
  have "payload (get_buf b t) = payload (get_buf b s)" if "b < NBUF" for b
    using t that assms(1) unfolding binit_keeps_def get_buf_def
    by (metis length_map nth_map)
  moreover have "buf_idle d (get_buf b s) \<and> bdev (get_buf b s) = 0" if "b < NBUF" for b d
    using zero that assms(1) by (auto simp: buf_idle_def get_buf_def)
  ultimately have "buf_idle (disk t) (get_buf b t) \<and> bdev (get_buf b t) = 0" if "b < NBUF" for b
    using payload_pred [of "get_buf b t" "get_buf b s"] that by metis
  moreover have "bio_env t" using t assms by (simp add: bio_env_def binit_keeps_def)
  moreover have "set (rev [0..<NBUF]) = {..<NBUF}" by auto
  ultimately show "bio_inv {} t \<and> chain (bcache t) (rev [0..<NBUF]) \<and> binit_keeps s t"
    using t unfolding bio_inv_def by auto
qed

section \<open>Properties\<close>

text \<open>A machine with a running process and a disk of eight blocks, before \<open>binit\<close>.\<close>

definition demo_disk :: kst where
  "demo_disk = zero_kst\<lparr>cpu := (cpu zero_kst)\<lparr>curproc := Some 0\<rparr>,
     disk := \<lparr>disksize = 8, memdisk = (\<lambda>n. replicate BSIZE (of_nat n))\<rparr>\<rparr>"

lemma demo_binit: "wp binit (\<lambda>_ t. bio_inv {} t \<and> chain (bcache t) (rev [0..<NBUF]) \<and> binit_keeps demo_disk t) demo_disk"
  by (rule wp_binit)
    (simp_all add: demo_disk_def zero_kst_def zero_buf_def zero_proc_def cpu_ok_def free_lock_def)

text \<open>C10: the cache is coherent with the disk.  For a block inside the disk that the process does not
  hold yet, and with a buffer left, \<open>bread\<close> returns a buffer that holds exactly the block's
  contents on disk, locked for the calling process, whether the block was cached or not; the disk
  and the buffers already held do not change.\<close>

theorem bread_coherent:
  assumes "bio_inv H s" "unat bn < disksize (disk s)" "H \<noteq> {..<NBUF}"
    and "\<forall>b \<in> H. blockno (get_buf b s) \<noteq> bn"
  shows "wp (bread 1 bn) (\<lambda>b t. b < NBUF \<and> b \<notin> H \<and>
     bdata (get_buf b t) = memdisk (disk s) (unat bn) \<and> blockno (get_buf b t) = bn \<and>
     slocks t (BufLock b) = my_slk s \<and> disk t = disk s \<and>
     (\<forall>a \<in> H. get_buf a t = get_buf a s) \<and> bio_inv (insert b H) t) s"
  using assms bio_invD(2) [OF assms(1)]
  by (intro wp_bread [OF assms(1,2,4,3)]) (auto simp: get_buf_bread_st fill_def)

theorem bread_coherent_witness:
  "\<exists>t. binit demo_disk = Ret () t \<and>
     wp (bread 1 3) (\<lambda>b u. bdata (get_buf b u) = replicate BSIZE 3 \<and> bio_inv {b} u) t"
proof -
  obtain t where t: "binit demo_disk = Ret () t" "bio_inv {} t" "binit_keeps demo_disk t"
    using demo_binit by (auto elim!: wpE)
  have d: "disksize (disk t) = 8" "memdisk (disk t) 3 = replicate BSIZE 3"
    using t(3) by (simp_all add: binit_keeps_def demo_disk_def)
  have "wp (bread 1 3) (\<lambda>b u. bdata (get_buf b u) = replicate BSIZE 3 \<and> bio_inv {b} u) t"
    by (rule wp_mono [OF bread_coherent [OF t(2)]]) (use d NBUF_not_single in auto)
  then show ?thesis using t(1) by blast
qed

text \<open>C11: a read-modify-write through the cache reaches the disk: reading a block, changing the
  buffer's data by any function \<open>f\<close>, \<open>bwrite\<close> and \<open>brelse\<close> return, the disk block then holds
  the changed data, no other block changes, and the cache is coherent and idle again.\<close>

theorem update_block_reaches_disk:
  assumes "bio_idle s" "n < disksize (disk s)"
  shows "wp (obind (bread 1 (of_nat n)) (\<lambda>b.
       oseq (modify (\<lambda>t. set_data b (f (bdata (get_buf b t))) t)) (oseq (bwrite b) (brelse b))))
     (\<lambda>_ t. bio_idle t \<and> memdisk (disk t) = (memdisk (disk s))(n := f (memdisk (disk s) n)) \<and>
       disksize (disk t) = disksize (disk s) \<and> bio_rest t = bio_rest s) s"
  by (rule disk_cache.read_modify_write [OF assms])

theorem update_block_reaches_disk_witness:
  "\<exists>t. binit demo_disk = Ret () t \<and>
     wp (obind (bread 1 (of_nat 3)) (\<lambda>b.
         oseq (modify (\<lambda>t. set_data b (rev (bdata (get_buf b t))) t)) (oseq (bwrite b) (brelse b))))
       (\<lambda>_ u. bio_idle u \<and> memdisk (disk u) 3 = rev (memdisk (disk t) 3)) t"
proof -
  obtain t where t: "binit demo_disk = Ret () t" "bio_inv {} t" "binit_keeps demo_disk t"
    using demo_binit by (auto elim!: wpE)
  then have "bio_idle t" "3 < disksize (disk t)"
    by (simp_all add: bio_idle_def binit_keeps_def demo_disk_def zero_kst_def)
  from update_block_reaches_disk [OF this, of rev] show ?thesis
    using t(1) by (auto elim!: wp_mono)
qed

text \<open>C12: the doubly linked list implements the list of buffers in order of last use.  Releasing a
  held buffer returns, and the pointers then form the old list with that buffer moved to the
  front.\<close>

theorem brelse_moves_to_front:
  assumes "bio_inv H s" "b \<in> H" "chain (bcache s) xs" "set xs = {..<NBUF}"
  shows "wp (brelse b) (\<lambda>_ t. chain (bcache t) (b # remove1 b xs) \<and> slocks t (BufLock b) = free_slk) s"
proof -
  have b: "b < NBUF" using bio_invD(4) [OF assms(1,2)] by simp
  then obtain ys zs where yz: "xs = ys @ b # zs" using assms(4) by (metis lessThan_iff split_list)
  then have "remove1 b xs = ys @ zs" using assms(3) by (auto simp: chain_def remove1_append)
  then show ?thesis
    using brelse_st_chain [of s ys b zs] assms(3) yz b
    by (simp add: wp_brelse [OF assms(1,2)]) (simp add: brelse_st_def)
qed

theorem brelse_moves_to_front_witness:
  "\<exists>t b u. binit demo_disk = Ret () t \<and> bread 1 3 t = Ret b u \<and>
     wp (brelse b) (\<lambda>_ v. chain (bcache v) (b # remove1 b (rev [0..<NBUF]))) u"
proof -
  obtain t where t: "binit demo_disk = Ret () t" "bio_inv {} t" "binit_keeps demo_disk t"
    "chain (bcache t) (rev [0..<NBUF])"
    using demo_binit by (auto elim!: wpE)
  have "disksize (disk t) = 8" using t(3) by (simp add: binit_keeps_def demo_disk_def)
  then have "wp (bread 1 3) (\<lambda>b u. bio_inv {b} u \<and> b < NBUF \<and> u = bread_st b 3 t) t"
    using t(2) NBUF_not_single(1) by (intro wp_bread [OF t(2)]) auto
  then obtain b u where u: "bread 1 3 t = Ret b u" "bio_inv {b} u" "b < NBUF" "u = bread_st b 3 t"
    by (auto elim!: wpE)
  have "chain (bcache u) (rev [0..<NBUF])"
    using t(4) u(3) bio_invD(2) [OF t(2)] unfolding u(4) bread_st_def
    by (simp, intro chain_links) (auto simp: nth_list_update fill_def get_buf_def)
  then have "wp (brelse b) (\<lambda>_ v. chain (bcache v) (b # remove1 b (rev [0..<NBUF])) \<and>
      slocks v (BufLock b) = free_slk) u"
    by (intro brelse_moves_to_front [OF u(2)]) auto
  then show ?thesis using t(1) u(1) by (auto elim!: wp_mono)
qed

end
