(* ===== verification/Layout.thy ===== *)
theory Layout
  imports Kstate
begin

unbundle bit_operations_syntax

text \<open>
  The on-disk structures of \<open>inc/fs.h\<close> as bytes: little-endian fields at the offsets the compiler
  gives them (\<open>struct dinode\<close> is 64 bytes, \<open>struct dirent\<close> and \<open>struct superblock\<close> 16).
  \<open>kernel/fs.c\<close> reads them with \<open>memmove\<close>, \<open>mkfs.c\<close> writes them.
\<close>

section \<open>Little-endian words\<close>

definition le16 :: "byte list \<Rightarrow> u16" where
  "le16 bs = ucast (bs ! 0) OR push_bit 8 (ucast (bs ! 1))"

definition le32 :: "byte list \<Rightarrow> u32" where
  "le32 bs = ucast (bs ! 0) OR push_bit 8 (ucast (bs ! 1)) OR push_bit 16 (ucast (bs ! 2)) OR
     push_bit 24 (ucast (bs ! 3))"

definition le64 :: "byte list \<Rightarrow> u64" where
  "le64 bs = ucast (le32 bs) OR push_bit 32 (ucast (le32 (drop 4 bs)))"

definition to16 :: "u16 \<Rightarrow> byte list" where
  "to16 w = [ucast w, ucast (drop_bit 8 w)]"

definition to32 :: "u32 \<Rightarrow> byte list" where
  "to32 w = [ucast w, ucast (drop_bit 8 w), ucast (drop_bit 16 w), ucast (drop_bit 24 w)]"

definition field :: "nat \<Rightarrow> nat \<Rightarrow> byte list \<Rightarrow> byte list" where
  "field off n bs = take n (drop off bs)"

lemma le16_to16 [simp]: "le16 (to16 w) = w"
  by (rule bit_word_eqI) (auto simp: le16_def to16_def bit_simps)

lemma le32_to32 [simp]: "le32 (to32 w) = w"
proof (rule bit_word_eqI)
  fix n
  assume "n < LENGTH(32)"
  then consider "n < 8" | "8 \<le> n" "n < 16" | "16 \<le> n" "n < 24" | "24 \<le> n" "n < 32" by fastforce
  then show "bit (le32 (to32 w)) n = bit w n"
    by cases (auto simp: le32_def to32_def bit_simps)
qed

lemma length_to [simp]: "length (to16 v) = 2" "length (to32 w) = 4"
  by (simp_all add: to16_def to32_def)

section \<open>Structures\<close>

definition dec_superblock :: "byte list \<Rightarrow> superblock" where
  "dec_superblock bs = \<lparr>sb_size = le32 (field 0 4 bs), sb_nblocks = le32 (field 4 4 bs),
     sb_bmapstart = le32 (field 8 4 bs), sb_inodestart = le32 (field 12 4 bs)\<rparr>"

definition enc_superblock :: "superblock \<Rightarrow> byte list" where
  "enc_superblock s = to32 (sb_size s) @ to32 (sb_nblocks s) @ to32 (sb_bmapstart s) @ to32 (sb_inodestart s)"

definition dec_dinode :: "byte list \<Rightarrow> dinode" where
  "dec_dinode bs = \<lparr>di_type = le16 (field 0 2 bs), di_devid = le16 (field 2 2 bs),
     di_size = le32 (field 4 4 bs),
     di_data = \<lparr>startblkno = le32 (field 8 4 bs), nblocks = le32 (field 12 4 bs)\<rparr>\<rparr>"

text \<open>The 48 bytes of \<open>pad\<close> are \<open>pad\<close>.\<close>

definition enc_dinode :: "dinode \<Rightarrow> byte list \<Rightarrow> byte list" where
  "enc_dinode d pad = to16 (di_type d) @ to16 (di_devid d) @ to32 (di_size d) @
     to32 (startblkno (di_data d)) @ to32 (nblocks (di_data d)) @ pad"

definition dec_dirent :: "byte list \<Rightarrow> dirent" where
  "dec_dirent bs = \<lparr>de_inum = le16 (field 0 2 bs), de_name = field 2 DIRSIZ bs\<rparr>"

definition enc_dirent :: "dirent \<Rightarrow> byte list" where
  "enc_dirent d = to16 (de_inum d) @ de_name d"

lemma field_append:
  "field 0 n (xs @ ys) = (if n \<le> length xs then take n xs else xs @ take (n - length xs) ys)"
  "length xs \<le> off \<Longrightarrow> field off n (xs @ ys) = field (off - length xs) n ys"
  by (auto simp: field_def)

lemma field_self: "length xs = n \<Longrightarrow> field 0 n xs = xs"
  by (simp add: field_def)

lemma dec_enc_superblock [simp]: "dec_superblock (enc_superblock s @ rest) = s"
  by (simp add: dec_superblock_def enc_superblock_def field_append)

lemma dec_enc_dinode [simp]: "dec_dinode (enc_dinode d pad) = d"
  by (simp add: dec_dinode_def enc_dinode_def field_append)

lemma dec_enc_dirent [simp]: "length (de_name d) = DIRSIZ \<Longrightarrow> dec_dirent (enc_dirent d) = d"
  by (simp add: dec_dirent_def enc_dirent_def field_append field_self)

end
