(* ===== verification/CString.thy ===== *)
theory CString
  imports Prelude
begin

unbundle bit_operations_syntax

text \<open>
  The string and memory routines of the kernel (\<open>kernel/string.c\<close>) and of the user library
  (\<open>user/lib/ulib.c\<close>).

  Routines that write get the whole memory, a function from addresses to bytes (the ranges they
  touch do not wrap around the address space).  Routines that only read get, for each pointer,
  the memory as seen from it: \<open>p i\<close> is \<open>p[i]\<close>.  \<open>cstr\<close> is such a view of a byte list followed
  by zero bytes.
\<close>

type_synonym mem = "nat \<Rightarrow> byte"

definition cstr :: "byte list \<Rightarrow> mem" where
  "cstr xs i = (if i < length xs then xs ! i else 0)"

section \<open>Filling\<close>

fun stosb :: "nat \<Rightarrow> byte \<Rightarrow> nat \<Rightarrow> mem \<Rightarrow> mem" where
  "stosb d c 0 m = m"
| "stosb d c (Suc n) m = stosb (Suc d) c n (m(d := c))"

definition store32 :: "nat \<Rightarrow> u32 \<Rightarrow> mem \<Rightarrow> mem" where
  "store32 d w m = m(d := ucast w, d + 1 := ucast (drop_bit 8 w), d + 2 := ucast (drop_bit 16 w),
     d + 3 := ucast (drop_bit 24 w))"

fun stosl :: "nat \<Rightarrow> u32 \<Rightarrow> nat \<Rightarrow> mem \<Rightarrow> mem" where
  "stosl d w 0 m = m"
| "stosl d w (Suc n) m = stosl (d + 4) w n (store32 d w m)"

definition memset :: "nat \<Rightarrow> u32 \<Rightarrow> nat \<Rightarrow> mem \<Rightarrow> mem" where
  "memset dst c n m =
     (if dst mod 4 = 0 \<and> n mod 4 = 0
      then let c = c AND 0xFF
           in stosl dst (push_bit 24 c OR push_bit 16 c OR push_bit 8 c OR c) (n div 4) m
      else stosb dst (ucast c) n m)"

definition u_memset :: "nat \<Rightarrow> u32 \<Rightarrow> nat \<Rightarrow> mem \<Rightarrow> mem" where
  "u_memset dst c n m = stosb dst (ucast c) n m"

section \<open>Copying\<close>

fun copy_fwd :: "nat \<Rightarrow> nat \<Rightarrow> nat \<Rightarrow> mem \<Rightarrow> mem" where
  "copy_fwd d s 0 m = m"
| "copy_fwd d s (Suc n) m = copy_fwd (d + 1) (s + 1) n (m(d := m s))"

fun copy_back :: "nat \<Rightarrow> nat \<Rightarrow> nat \<Rightarrow> mem \<Rightarrow> mem" where
  "copy_back d s 0 m = m"
| "copy_back d s (Suc n) m = copy_back (d - 1) (s - 1) n (m(d - 1 := m (s - 1)))"

definition memmove :: "nat \<Rightarrow> nat \<Rightarrow> nat \<Rightarrow> mem \<Rightarrow> mem" where
  "memmove dst src n m =
     (if src < dst \<and> src + n > dst then copy_back (dst + n) (src + n) n m else copy_fwd dst src n m)"

definition u_memmove :: "nat \<Rightarrow> nat \<Rightarrow> nat \<Rightarrow> mem \<Rightarrow> mem" where
  "u_memmove dst src n m = copy_fwd dst src n m"

text \<open>\<open>memmove\<close> between two different objects.\<close>

definition put_bytes :: "nat \<Rightarrow> byte list \<Rightarrow> (nat \<Rightarrow> byte) \<Rightarrow> nat \<Rightarrow> byte" where
  "put_bytes off xs m = (\<lambda>i. if off \<le> i \<and> i < off + length xs then xs ! (i - off) else m i)"

definition get_bytes :: "nat \<Rightarrow> nat \<Rightarrow> (nat \<Rightarrow> byte) \<Rightarrow> byte list" where
  "get_bytes off n m = map (\<lambda>i. m (off + i)) [0..<n]"

section \<open>Comparing\<close>

fun memcmp :: "mem \<Rightarrow> mem \<Rightarrow> nat \<Rightarrow> int" where
  "memcmp s1 s2 0 = 0"
| "memcmp s1 s2 (Suc n) =
     (if s1 0 \<noteq> s2 0 then uint (s1 0) - uint (s2 0)
      else memcmp (\<lambda>i. s1 (Suc i)) (\<lambda>i. s2 (Suc i)) n)"

fun strncmp :: "mem \<Rightarrow> mem \<Rightarrow> nat \<Rightarrow> int" where
  "strncmp p q 0 = 0"
| "strncmp p q (Suc n) =
     (if p 0 \<noteq> 0 \<and> p 0 = q 0 then strncmp (\<lambda>i. p (Suc i)) (\<lambda>i. q (Suc i)) n
      else uint (p 0) - uint (q 0))"

partial_function (option) strcmp :: "mem \<Rightarrow> mem \<Rightarrow> nat \<Rightarrow> int option" where
  "strcmp p q i =
     (if p i \<noteq> 0 \<and> p i = q i then strcmp p q (Suc i) else Some (uint (p i) - uint (q i)))"

partial_function (option) strlen_from :: "mem \<Rightarrow> nat \<Rightarrow> nat option" where
  "strlen_from s n = (if s n \<noteq> 0 then strlen_from s (Suc n) else Some n)"

definition strlen :: "mem \<Rightarrow> nat option" where
  "strlen s = strlen_from s 0"

partial_function (option) strchr :: "mem \<Rightarrow> byte \<Rightarrow> nat \<Rightarrow> nat option option" where
  "strchr s c i = (if s i = 0 then Some None else if s i = c then Some (Some i) else strchr s c (Suc i))"

section \<open>Copying strings\<close>

text \<open>The destination is a separate object, seen from its start; \<open>i\<close> counts the steps of \<open>s\<close> and
  \<open>t\<close>, \<open>n\<close> is the value of the counter before the test.\<close>

fun zero_rest :: "mem \<Rightarrow> nat \<Rightarrow> nat \<Rightarrow> mem" where
  "zero_rest s i 0 = s"
| "zero_rest s i (Suc n) = zero_rest (s(i := 0)) (Suc i) n"

fun strncpy_loop :: "mem \<Rightarrow> mem \<Rightarrow> nat \<Rightarrow> nat \<Rightarrow> mem" where
  "strncpy_loop s t i 0 = s"
| "strncpy_loop s t i (Suc n) =
     (let s' = s(i := t i) in if t i \<noteq> 0 then strncpy_loop s' t (Suc i) n else zero_rest s' (Suc i) n)"

definition strncpy :: "mem \<Rightarrow> mem \<Rightarrow> int \<Rightarrow> mem" where
  "strncpy s t n = strncpy_loop s t 0 (nat n)"

fun safestrcpy_loop :: "mem \<Rightarrow> mem \<Rightarrow> nat \<Rightarrow> nat \<Rightarrow> mem" where
  "safestrcpy_loop s t i 0 = s(i := 0)"
| "safestrcpy_loop s t i (Suc n) =
     (let s' = s(i := t i) in if t i \<noteq> 0 then safestrcpy_loop s' t (Suc i) n else s'(Suc i := 0))"

definition safestrcpy :: "mem \<Rightarrow> mem \<Rightarrow> int \<Rightarrow> mem" where
  "safestrcpy s t n = (if n \<le> 0 then s else safestrcpy_loop s t 0 (nat (n - 1)))"

partial_function (option) strcpy :: "mem \<Rightarrow> mem \<Rightarrow> nat \<Rightarrow> mem option" where
  "strcpy s t i = (let s' = s(i := t i) in if t i \<noteq> 0 then strcpy s' t (Suc i) else Some s')"

section \<open>Numbers\<close>

text \<open>\<open>'0' <= *s && *s <= '9'\<close>; the sum is computed in \<open>int\<close>, which wraps.\<close>

partial_function (option) atoi :: "mem \<Rightarrow> nat \<Rightarrow> u32 \<Rightarrow> u32 option" where
  "atoi s i n = (if 48 \<le> s i \<and> s i \<le> 57 then atoi s (Suc i) (n * 10 + ucast (s i) - 48) else Some n)"

section \<open>Memory routines do what they say\<close>

lemma stosb_apply: "stosb d c n m a = (if d \<le> a \<and> a < d + n then c else m a)"
proof (induction n arbitrary: d m)
  case (Suc n)
  show ?case by (auto simp: Suc.IH)
qed auto

lemma store32_rep:
  fixes c :: u32
  assumes "w = push_bit 24 (c AND 0xFF) OR push_bit 16 (c AND 0xFF) OR push_bit 8 (c AND 0xFF) OR (c AND 0xFF)"
  shows "ucast w = (ucast c :: byte)" "ucast (drop_bit 8 w) = (ucast c :: byte)"
    "ucast (drop_bit 16 w) = (ucast c :: byte)" "ucast (drop_bit 24 w) = (ucast c :: byte)"
proof -
  have m: "c AND 0xFF = take_bit 8 c"
    using take_bit_eq_mask [of 8 c] by (simp add: mask_eq_exp_minus_1)
  show "ucast w = (ucast c :: byte)" "ucast (drop_bit 8 w) = (ucast c :: byte)"
    "ucast (drop_bit 16 w) = (ucast c :: byte)" "ucast (drop_bit 24 w) = (ucast c :: byte)"
    unfolding assms m by (rule bit_word_eqI; auto simp: bit_simps)+
qed

lemma stosl_apply:
  assumes "ucast w = b" "ucast (drop_bit 8 w) = b" "ucast (drop_bit 16 w) = b" "ucast (drop_bit 24 w) = b"
  shows "stosl d w n m a = (if d \<le> a \<and> a < d + 4 * n then b else m a)"
  using assms
proof (induction n arbitrary: d m)
  case (Suc n)
  show ?case using Suc.prems by (auto simp: Suc.IH store32_def)
qed auto

lemma copy_fwd_apply:
  assumes "d \<le> s \<or> s + n \<le> d"
  shows "copy_fwd d s n m a = (if d \<le> a \<and> a < d + n then m (s + (a - d)) else m a)"
  using assms
proof (induction n arbitrary: d s m)
  case 0
  then show ?case by auto
next
  case (Suc n)
  then have "d + 1 \<le> s + 1 \<or> s + 1 + n \<le> d + 1" by auto
  then show ?case
    using Suc.prems by (simp only: copy_fwd.simps Suc.IH) (auto simp: Suc_diff_Suc)
qed

lemma copy_back_apply:
  assumes "s \<le> d" "n \<le> s"
  shows "copy_back d s n m a = (if d - n \<le> a \<and> a < d then m (s - (d - a)) else m a)"
  using assms
proof (induction n arbitrary: d s m)
  case 0
  then show ?case by auto
next
  case (Suc n)
  have "s - 1 \<le> d - 1" "n \<le> s - 1" using Suc.prems by auto
  then show ?case
    using Suc.prems by (simp only: copy_back.simps Suc.IH) (auto simp: not_less)
qed

lemma memmove_apply: "memmove dst src n m a = (if dst \<le> a \<and> a < dst + n then m (src + (a - dst)) else m a)"
proof (cases "src < dst \<and> src + n > dst")
  case True
  then show ?thesis
    using copy_back_apply [of "src + n" "dst + n" n m a] by (auto simp: memmove_def)
next
  case False
  then show ?thesis
    using copy_fwd_apply [of dst src n m a] by (auto simp: memmove_def)
qed

lemma memset_apply: "memset dst c n m a = (if dst \<le> a \<and> a < dst + n then ucast c else m a)"
proof (cases "dst mod 4 = 0 \<and> n mod 4 = 0")
  case True
  then have "4 * (n div 4) = n" by auto
  then show ?thesis
    using True stosl_apply [OF store32_rep [OF refl, of c], of dst "n div 4" m a]
    by (simp add: memset_def Let_def)
next
  case False
  then have "memset dst c n m = stosb dst (ucast c) n m" by (auto simp: memset_def)
  then show ?thesis by (simp add: stosb_apply)
qed

lemma memcmp_eq_0: "memcmp p q n = 0 \<longleftrightarrow> (\<forall>i < n. p i = q i)"
proof (induction p q n rule: memcmp.induct)
  case (2 p q n)
  have "(\<forall>i < Suc n. p i = q i) \<longleftrightarrow> p 0 = q 0 \<and> (\<forall>i < n. p (Suc i) = q (Suc i))"
    by (auto simp: less_Suc_eq_0_disj)
  then show ?case using 2 by (auto simp: word_uint_eq_iff)
qed simp

text \<open>The first \<open>n\<close> bytes, up to the first zero byte.\<close>

definition same_upto :: "nat \<Rightarrow> mem \<Rightarrow> mem \<Rightarrow> bool" where
  "same_upto n p q \<longleftrightarrow> (\<forall>i < n. (\<forall>j < i. p j \<noteq> 0) \<longrightarrow> p i = q i)"

lemma same_upto_Suc:
  "same_upto (Suc n) p q \<longleftrightarrow> p 0 = q 0 \<and> (p 0 \<noteq> 0 \<longrightarrow> same_upto n (\<lambda>i. p (Suc i)) (\<lambda>i. q (Suc i)))"
proof -
  have "(\<forall>j < Suc i. p j \<noteq> 0) \<longleftrightarrow> p 0 \<noteq> 0 \<and> (\<forall>j < i. p (Suc j) \<noteq> 0)" for i
    by (auto simp: less_Suc_eq_0_disj)
  then show ?thesis by (auto simp: same_upto_def less_Suc_eq_0_disj)
qed

lemma strncmp_eq_0: "strncmp p q n = 0 \<longleftrightarrow> same_upto n p q"
proof (induction p q n rule: strncmp.induct)
  case (1 p q)
  then show ?case by (simp add: same_upto_def)
next
  case (2 p q n)
  then show ?case by (auto simp: same_upto_Suc word_uint_eq_iff)
qed

text \<open>A string of at most \<open>n\<close> bytes copied from \<open>t\<close> into \<open>s\<close> from index \<open>i\<close> on, and terminated.\<close>

definition copied :: "mem \<Rightarrow> mem \<Rightarrow> nat \<Rightarrow> nat \<Rightarrow> mem \<Rightarrow> nat \<Rightarrow> bool" where
  "copied s t i n r e \<longleftrightarrow> i \<le> e \<and> e \<le> i + n \<and> r e = 0 \<and> (\<forall>j. i \<le> j \<and> j < e \<longrightarrow> r j = t j \<and> t j \<noteq> 0) \<and>
     (\<forall>j. j < i \<or> i + n < j \<longrightarrow> r j = s j) \<and> (e < i + n \<longrightarrow> t e = 0)"

lemma copied_Suc:
  assumes "copied (s(i := t i)) t (Suc i) n r e" "t i \<noteq> 0"
  shows "copied s t i (Suc n) r e"
proof -
  have c: "Suc i \<le> e" "e \<le> Suc i + n" "r e = 0" "\<And>j. Suc i \<le> j \<Longrightarrow> j < e \<Longrightarrow> r j = t j \<and> t j \<noteq> 0"
    "\<And>j. j < Suc i \<or> Suc i + n < j \<Longrightarrow> r j = (s(i := t i)) j" "e < Suc i + n \<longrightarrow> t e = 0"
    using assms(1) by (auto simp: copied_def)
  have "r j = t j \<and> t j \<noteq> 0" if "i \<le> j" "j < e" for j
    using c(4) [of j] c(5) [of j] that assms(2) by (cases "j = i") auto
  moreover have "r j = s j" if "j < i \<or> i + Suc n < j" for j
    using c(5) [of j] that by auto
  ultimately show ?thesis using c(1,2,3,6) by (simp add: copied_def)
qed

lemma safestrcpy_loop_spec: "\<exists>e. copied s t i n (safestrcpy_loop s t i n) e"
proof (induction n arbitrary: i s)
  case 0
  show ?case by (intro exI [of _ i]) (simp add: copied_def)
next
  case (Suc n)
  show ?case
  proof (cases "t i = 0")
    case True
    then show ?thesis by (intro exI [of _ i]) (simp add: copied_def Let_def)
  next
    case False
    obtain e where "copied (s(i := t i)) t (Suc i) n (safestrcpy_loop (s(i := t i)) t (Suc i) n) e"
      using Suc.IH by blast
    from copied_Suc [OF this False] False show ?thesis
      by (intro exI [of _ e]) (simp only: safestrcpy_loop.simps Let_def if_True simp_thms)
  qed
qed

lemma strlen_from_found:
  assumes "s e = 0" "\<forall>j. i \<le> j \<and> j < e \<longrightarrow> s j \<noteq> 0" "i \<le> e"
  shows "strlen_from s i = Some e"
  using assms
proof (induction "e - i" arbitrary: i)
  case 0
  then show ?case by (subst strlen_from.simps) auto
next
  case (Suc k)
  then have "strlen_from s (Suc i) = Some e" by auto
  moreover have "s i \<noteq> 0" using Suc by auto
  ultimately show ?case by (subst strlen_from.simps) simp
qed

section \<open>Properties\<close>

text \<open>C27: \<open>memmove\<close> copies as if through a temporary: for every choice of the two ranges,
  overlapping or not, the destination then holds the old contents of the source and no other byte
  changes.\<close>

theorem memmove_copies:
  "memmove dst src n m = (\<lambda>a. if dst \<le> a \<and> a < dst + n then m (src + (a - dst)) else m a)"
  by (rule ext) (rule memmove_apply)

text \<open>C28: both paths of \<open>memset\<close>, by words and by bytes, write the low byte of \<open>c\<close> into exactly the
  \<open>n\<close> bytes from \<open>dst\<close>.\<close>

theorem memset_fills:
  "memset dst c n m = (\<lambda>a. if dst \<le> a \<and> a < dst + n then ucast c else m a)"
  by (rule ext) (rule memset_apply)

text \<open>C29: \<open>safestrcpy\<close> always terminates the destination.  For \<open>n > 0\<close> the result is a prefix of the
  source string followed by a zero byte at some index \<open>e < n\<close>; the string is cut only when it does
  not fit, and no byte at index \<open>n\<close> or above is written.\<close>

theorem safestrcpy_terminates:
  assumes "0 < n"
  shows "\<exists>e < nat n. strlen (safestrcpy s t n) = Some e \<and> (\<forall>j < e. safestrcpy s t n j = t j) \<and>
     (e < nat n - 1 \<longrightarrow> t e = 0) \<and> (\<forall>j \<ge> nat n. safestrcpy s t n j = s j)"
proof -
  obtain e where e: "copied s t 0 (nat (n - 1)) (safestrcpy s t n) e"
    using safestrcpy_loop_spec [of s t 0 "nat (n - 1)"] assms by (auto simp: safestrcpy_def)
  then have "strlen (safestrcpy s t n) = Some e"
    unfolding strlen_def by (intro strlen_from_found) (auto simp: copied_def)
  then show ?thesis
    using e assms by (intro exI [of _ e]) (auto simp: copied_def nat_diff_distrib')
qed

theorem safestrcpy_terminates_witness:
  "\<exists>e < nat 4. strlen (safestrcpy (\<lambda>_. 7) (cstr [104, 101, 108, 108, 111]) 4) = Some e"
  using safestrcpy_terminates [of 4 "\<lambda>_. 7" "cstr [104, 101, 108, 108, 111]"] by auto

end
