(* ===== verification/Fs.thy ===== *)
theory Fs
  imports Bio Layout CString
begin

unbundle bit_operations_syntax

text \<open>
  The file system (\<open>kernel/fs.c\<close>): the super block, the bitmap allocator, the inode cache, reading
  and writing through inodes, directories and path names.

  An inode pointer is \<open>INode i\<close> (a slot of \<open>icache.inode\<close>) or \<open>InodeFile\<close>.  Buffers the C code
  fills through a pointer are returned.  The device switch \<open>devsw\<close>, a table of function pointers
  indexed by device number, is the argument \<open>rd\<close> (its \<open>read\<close> column) or \<open>wr\<close> (its \<open>write\<close>
  column); \<open>None\<close> is the null pointer.  A path or a name is a byte list without its terminating
  zero; a name buffer always has \<open>DIRSIZ\<close> bytes.  Loops run on fuel that the lemmas show to be
  enough; without it they are \<open>Hang\<close>.
\<close>

type_synonym dev_read = "iptr \<Rightarrow> u32 \<Rightarrow> (int \<times> byte list, kst) kop"
type_synonym dev_write = "iptr \<Rightarrow> byte list \<Rightarrow> (int, kst) kop"

section \<open>Inodes in memory\<close>

definition get_inode :: "iptr \<Rightarrow> kst \<Rightarrow> inode" where
  "get_inode ip s = (case ip of INode i \<Rightarrow> inodes (icache s) ! i | InodeFile \<Rightarrow> inodefile (icache s))"

definition upd_inode :: "iptr \<Rightarrow> (inode \<Rightarrow> inode) \<Rightarrow> kst \<Rightarrow> kst" where
  "upd_inode ip f s = s\<lparr>icache := (case ip of
       INode i \<Rightarrow> (icache s)\<lparr>inodes := (inodes (icache s))[i := f (inodes (icache s) ! i)]\<rparr>
     | InodeFile \<Rightarrow> (icache s)\<lparr>inodefile := f (inodefile (icache s))\<rparr>)\<rparr>"

definition ilock :: "iptr \<Rightarrow> slkid" where
  "ilock ip = (case ip of INode i \<Rightarrow> InodeLock i | InodeFile \<Rightarrow> InodefileLock)"

section \<open>Blocks\<close>

definition readsb :: "u32 \<Rightarrow> (superblock, kst) kop" where
  "readsb dev =
     obind (bread dev 1) (\<lambda>bp.
     obind (gets (\<lambda>s. dec_superblock (bdata (get_buf bp s)))) (\<lambda>r.
     oseq (brelse bp) (ret r)))"

definition bit_set :: "byte list \<Rightarrow> nat \<Rightarrow> bool" where
  "bit_set d bi \<longleftrightarrow> (d ! (bi div 8)) AND push_bit (bi mod 8) 1 \<noteq> 0"

fun mark_bits :: "byte list \<Rightarrow> nat list \<Rightarrow> bool \<Rightarrow> byte list option" where
  "mark_bits d [] inuse = Some d"
| "mark_bits d (bi # bis) inuse =
     (let m = push_bit (bi mod 8) 1 in
      if inuse then mark_bits (d[bi div 8 := (d ! (bi div 8)) OR m]) bis inuse
      else if \<not> bit_set d bi then None
      else mark_bits (d[bi div 8 := (d ! (bi div 8)) AND NOT m]) bis inuse)"

definition bmark :: "nat \<Rightarrow> nat \<Rightarrow> nat \<Rightarrow> bool \<Rightarrow> (unit, kst) kop" where
  "bmark bp start end' inuse =
     obind (gets (\<lambda>s. mark_bits (bdata (get_buf bp s)) [start..<Suc end'] inuse)) (\<lambda>r.
     case r of
       None \<Rightarrow> panic ''freeing free block''
     | Some d \<Rightarrow> modify (upd_buf bp (\<lambda>x. x\<lparr>bdata := d, bflags := bflags x OR B_DIRTY\<rparr>)))"

definition BPB :: nat where "BPB = BSIZE * 8"

definition BBLOCK :: "u32 \<Rightarrow> superblock \<Rightarrow> u32" where
  "BBLOCK b x = b div of_nat BPB + sb_bmapstart x"

text \<open>The inner loop of \<open>balloc\<close> over the bits of one bitmap block: the first run of \<open>n\<close> clear bits
  among the bits \<open>bis\<close>, as its first and last bit; \<open>sz\<close> bits of a run that began at \<open>i\<close> were seen
  already.\<close>

fun balloc_scan :: "byte list \<Rightarrow> nat \<Rightarrow> nat list \<Rightarrow> nat \<Rightarrow> nat \<Rightarrow> (nat \<times> nat) option" where
  "balloc_scan d n [] sz i = None"
| "balloc_scan d n (bi # bis) sz i =
     (if \<not> bit_set d bi
      then let sz = sz + 1; i = (if sz = 1 then bi else i)
           in if sz = n then Some (i, bi) else balloc_scan d n bis sz i
      else balloc_scan d n bis 0 0)"

fun balloc_loop :: "nat \<Rightarrow> u32 \<Rightarrow> nat \<Rightarrow> nat \<Rightarrow> (nat, kst) kop" where
  "balloc_loop 0 dev n b = hang"
| "balloc_loop (Suc k) dev n b =
     obind (gets (\<lambda>s. sb (icache s))) (\<lambda>x.
     if b < unat (sb_size x)
     then obind (bread dev (BBLOCK (of_nat b) x)) (\<lambda>bp.
          obind (gets (\<lambda>s. balloc_scan (bdata (get_buf bp s)) n
                             [0..<min BPB (unat (sb_size x) - b)] 0 0)) (\<lambda>r.
          case r of
            Some (i, bi) \<Rightarrow>
              oseq (bmark bp i bi True) (oseq (brelse bp) (ret (b + i)))
          | None \<Rightarrow> oseq (brelse bp) (balloc_loop k dev n (b + BPB))))
     else panic ''balloc: can't allocate contiguous blocks'')"

definition balloc :: "u32 \<Rightarrow> u32 \<Rightarrow> (nat, kst) kop" where
  "balloc dev n =
     obind (gets (\<lambda>s. unat (sb_size (sb (icache s))))) (\<lambda>size.
     balloc_loop (size div BPB + 2) dev (unat n) 0)"

definition bfree :: "u32 \<Rightarrow> u32 \<Rightarrow> u32 \<Rightarrow> (unit, kst) kop" where
  "bfree dev b n =
     oseq (kassert (n \<ge> 1) ''freeing less than 1 block'') (
     obind (gets (\<lambda>s. sb (icache s))) (\<lambda>x.
     oseq (kassert (BBLOCK b x = BBLOCK (b + n - 1) x)
            ''returned blocks live in different bitmap sectors'') (
     obind (bread dev (BBLOCK b x)) (\<lambda>bp.
     oseq (bmark bp (unat b mod BPB) (unat (b + n - 1) mod BPB) False)
       (brelse bp)))))"

section \<open>Reading and writing inodes\<close>

definition copy_dinode :: "dinode \<Rightarrow> inode \<Rightarrow> inode" where
  "copy_dinode di x = x\<lparr>itype := di_type di, idevid := di_devid di, isize := di_size di,
     idata := di_data di, ivalid := True\<rparr>"

definition init_inodefile :: "u32 \<Rightarrow> (unit, kst) kop" where
  "init_inodefile dev =
     obind (gets (\<lambda>s. sb_inodestart (sb (icache s)))) (\<lambda>start.
     obind (bread dev start) (\<lambda>b.
     obind (gets (\<lambda>s. dec_dinode (bdata (get_buf b s)))) (\<lambda>di.
     oseq (modify (upd_inode InodeFile (\<lambda>x. copy_dinode di (x\<lparr>inum := INODEFILEINO, idev := dev, iref := 1\<rparr>))))
       (brelse b))))"

definition iinit :: "u32 \<Rightarrow> (unit, kst) kop" where
  "iinit dev =
     oseq (initlock IcacheLock) (
     oseq (foreach [0..<NINODE] (\<lambda>i. initsleeplock (InodeLock i))) (
     oseq (initsleeplock InodefileLock) (
     obind (readsb dev) (\<lambda>x.
     oseq (modify (\<lambda>s. s\<lparr>icache := (icache s)\<lparr>sb := x\<rparr>\<rparr>))
       (init_inodefile dev)))))"

text \<open>The copy loop of \<open>readi\<close>; \<open>n\<close> is what is left to read.\<close>

fun readi_loop :: "nat \<Rightarrow> iptr \<Rightarrow> u32 \<Rightarrow> u32 \<Rightarrow> (byte list, kst) kop" where
  "readi_loop 0 ip off n = hang"
| "readi_loop (Suc k) ip off n =
     (if n = 0 then ret [] else
      obind (gets (get_inode ip)) (\<lambda>x.
      obind (bread (idev x) (startblkno (idata x) + off div of_nat BSIZE)) (\<lambda>bp.
      let m = min n (of_nat BSIZE - off mod of_nat BSIZE) in
      obind (gets (\<lambda>s. take (unat m) (drop (unat (off mod of_nat BSIZE)) (bdata (get_buf bp s))))) (\<lambda>d.
      oseq (brelse bp) (
      obind (readi_loop k ip (off + m) (n - m)) (\<lambda>r.
      ret (d @ r)))))))"

definition readi :: "(u16 \<Rightarrow> dev_read option) \<Rightarrow> iptr \<Rightarrow> u32 \<Rightarrow> u32 \<Rightarrow> (int \<times> byte list, kst) kop" where
  "readi rd ip off n =
     obind (holdingsleep (ilock ip)) (\<lambda>h.
     if \<not> h then panic ''not holding lock'' else
     obind (gets (get_inode ip)) (\<lambda>x.
     if itype x = T_DEV then
       (if sint (idevid x) < 0 \<or> sint (idevid x) \<ge> int NDEV \<or> rd (idevid x) = None
        then ret (-1, [])
        else the (rd (idevid x)) ip n)
     else if off > isize x \<or> off + n < off then ret (-1, [])
     else let n = (if off + n > isize x then isize x - off else n) in
          obind (readi_loop (Suc (unat n)) ip off n) (\<lambda>d.
          ret (sint n, d))))"

definition writei :: "(u16 \<Rightarrow> dev_write option) \<Rightarrow> iptr \<Rightarrow> byte list \<Rightarrow> u32 \<Rightarrow> (int, kst) kop" where
  "writei wr ip src off =
     obind (holdingsleep (ilock ip)) (\<lambda>h.
     if \<not> h then panic ''not holding lock'' else
     obind (gets (get_inode ip)) (\<lambda>x.
     if itype x = T_DEV then
       (if sint (idevid x) < 0 \<or> sint (idevid x) \<ge> int NDEV \<or> wr (idevid x) = None
        then ret (-1)
        else the (wr (idevid x)) ip src)
     else ret (-1)))"

section \<open>Locking inodes\<close>

definition unlocki :: "iptr option \<Rightarrow> (unit, kst) kop" where
  "unlocki ipo =
     (case ipo of None \<Rightarrow> panic ''unlocki'' | Some ip \<Rightarrow>
     obind (holdingsleep (ilock ip)) (\<lambda>h.
     obind (gets (\<lambda>s. iref (get_inode ip s))) (\<lambda>r.
     if \<not> h \<or> r < 1 then panic ''unlocki'' else releasesleep (ilock ip))))"

definition DINODE_SIZE :: u32 where "DINODE_SIZE = 64"

definition INODEOFF :: "u32 \<Rightarrow> u32" where
  "INODEOFF i = i * DINODE_SIZE"

text \<open>\<open>locki(&icache.inodefile)\<close>.  When the inode file is not valid yet, \<open>read_dinode\<close> finds its
  lock held, so the recursion of the C code goes no deeper; if it did not, \<open>locki\<close> would call
  itself for ever.\<close>

definition locki_inodefile :: "(u16 \<Rightarrow> dev_read option) \<Rightarrow> (unit, kst) kop" where
  "locki_inodefile rd =
     obind (gets (\<lambda>s. get_inode InodeFile s)) (\<lambda>x.
     if iref x < 1 then panic ''locki'' else
     oseq (acquiresleep InodefileLock) (
     obind (gets (\<lambda>s. get_inode InodeFile s)) (\<lambda>y.
     if ivalid y then ret () else
     obind (holdingsleep InodefileLock) (\<lambda>h.
     if \<not> h then hang else
     obind (readi rd InodeFile (INODEOFF (inum y)) DINODE_SIZE) (\<lambda>(r, d).
     oseq (modify (upd_inode InodeFile (copy_dinode (dec_dinode d))))
       (obind (gets (\<lambda>s. itype (get_inode InodeFile s))) (\<lambda>ty.
        kwhen (ty = 0) (panic ''iget: no type''))))))))"

definition read_dinode :: "(u16 \<Rightarrow> dev_read option) \<Rightarrow> u32 \<Rightarrow> (dinode, kst) kop" where
  "read_dinode rd i =
     obind (holdingsleep InodefileLock) (\<lambda>h.
     oseq (kwhen (\<not> h) (locki_inodefile rd)) (
     obind (readi rd InodeFile (INODEOFF i) DINODE_SIZE) (\<lambda>(r, d).
     oseq (kwhen (\<not> h) (unlocki (Some InodeFile)))
       (ret (dec_dinode d)))))"

definition locki :: "(u16 \<Rightarrow> dev_read option) \<Rightarrow> iptr option \<Rightarrow> (unit, kst) kop" where
  "locki rd ipo =
     (case ipo of None \<Rightarrow> panic ''locki'' | Some InodeFile \<Rightarrow> locki_inodefile rd | Some ip \<Rightarrow>
     obind (gets (\<lambda>s. iref (get_inode ip s))) (\<lambda>r.
     if r < 1 then panic ''locki'' else
     oseq (acquiresleep (ilock ip)) (
     obind (gets (get_inode ip)) (\<lambda>x.
     if ivalid x then ret () else
     oseq (locki_inodefile rd) (
     obind (read_dinode rd (inum x)) (\<lambda>dip.
     oseq (unlocki (Some InodeFile)) (
     oseq (modify (upd_inode ip (copy_dinode dip)))
       (obind (gets (\<lambda>s. itype (get_inode ip s))) (\<lambda>ty.
        kwhen (ty = 0) (panic ''iget: no type'')))))))))) "

definition stati :: "iptr \<Rightarrow> (stat, kst) kop" where
  "stati ip =
     obind (holdingsleep (ilock ip)) (\<lambda>h.
     if \<not> h then panic ''not holding lock'' else
     gets (\<lambda>s. let x = get_inode ip s in
       \<lparr>st_type = itype x, st_dev = idev x, st_ino = inum x, st_size = isize x\<rparr>))"

definition concurrent_stati :: "(u16 \<Rightarrow> dev_read option) \<Rightarrow> iptr \<Rightarrow> (stat, kst) kop" where
  "concurrent_stati rd ip =
     oseq (locki rd (Some ip)) (obind (stati ip) (\<lambda>st. oseq (unlocki (Some ip)) (ret st)))"

definition concurrent_readi :: "(u16 \<Rightarrow> dev_read option) \<Rightarrow> iptr \<Rightarrow> u32 \<Rightarrow> u32 \<Rightarrow> (int \<times> byte list, kst) kop" where
  "concurrent_readi rd ip off n =
     oseq (locki rd (Some ip)) (obind (readi rd ip off n) (\<lambda>r. oseq (unlocki (Some ip)) (ret r)))"

definition concurrent_writei ::
  "(u16 \<Rightarrow> dev_read option) \<Rightarrow> (u16 \<Rightarrow> dev_write option) \<Rightarrow> iptr \<Rightarrow> byte list \<Rightarrow> u32 \<Rightarrow> (int, kst) kop" where
  "concurrent_writei rd wr ip src off =
     oseq (locki rd (Some ip)) (obind (writei wr ip src off) (\<lambda>r. oseq (unlocki (Some ip)) (ret r)))"

section \<open>References to inodes\<close>

definition iget :: "u32 \<Rightarrow> u32 \<Rightarrow> (iptr, kst) kop" where
  "iget dev i =
     oseq (acquire IcacheLock) (
     obind (gets (\<lambda>s. inodes (icache s))) (\<lambda>xs.
     case find_idx (\<lambda>x. iref x > 0 \<and> idev x = dev \<and> inum x = i) xs of
       Some k \<Rightarrow>
         oseq (modify (upd_inode (INode k) (\<lambda>x. x\<lparr>iref := iref x + 1\<rparr>))) (
         oseq (release IcacheLock) (ret (INode k)))
     | None \<Rightarrow>
         (case find_idx (\<lambda>x. iref x = 0) xs of
            None \<Rightarrow> panic ''iget: no inodes''
          | Some k \<Rightarrow>
              oseq (modify (upd_inode (INode k)
                      (\<lambda>x. x\<lparr>iref := 1, ivalid := False, idev := dev, inum := i\<rparr>))) (
              oseq (release IcacheLock) (ret (INode k))))))"

definition idup :: "iptr \<Rightarrow> (iptr, kst) kop" where
  "idup ip =
     oseq (acquire IcacheLock) (
     oseq (modify (upd_inode ip (\<lambda>x. x\<lparr>iref := iref x + 1\<rparr>))) (
     oseq (release IcacheLock) (ret ip)))"

definition irelease :: "iptr \<Rightarrow> (unit, kst) kop" where
  "irelease ip =
     oseq (acquire IcacheLock) (
     oseq (modify (upd_inode ip (\<lambda>x. (if iref x = 1 then x\<lparr>itype := 0\<rparr> else x)\<lparr>iref := iref x - 1\<rparr>)))
       (release IcacheLock))"

declare readi_loop.simps [simp del] balloc_loop.simps [simp del]

section \<open>Directories and paths\<close>

definition namecmp :: "byte list \<Rightarrow> byte list \<Rightarrow> int" where
  "namecmp s t = strncmp (cstr s) (cstr t) DIRSIZ"

definition DIRENT_SIZE :: u32 where "DIRENT_SIZE = 16"

fun dirlookup_loop :: "nat \<Rightarrow> (u16 \<Rightarrow> dev_read option) \<Rightarrow> iptr \<Rightarrow> byte list \<Rightarrow> u32 \<Rightarrow> ((iptr \<times> u32) option, kst) kop" where
  "dirlookup_loop 0 rd dp name off = hang"
| "dirlookup_loop (Suc k) rd dp name off =
     obind (gets (get_inode dp)) (\<lambda>x.
     if off < isize x
     then obind (readi rd dp off DIRENT_SIZE) (\<lambda>(r, d).
          if r \<noteq> uint DIRENT_SIZE then panic ''dirlink read'' else
          let de = dec_dirent d in
          if de_inum de = 0 then dirlookup_loop k rd dp name (off + DIRENT_SIZE)
          else if namecmp name (de_name de) = 0
          then obind (iget (idev x) (ucast (de_inum de))) (\<lambda>ip. ret (Some (ip, off)))
          else dirlookup_loop k rd dp name (off + DIRENT_SIZE))
     else ret None)"

definition dirlookup :: "(u16 \<Rightarrow> dev_read option) \<Rightarrow> iptr \<Rightarrow> byte list \<Rightarrow> ((iptr \<times> u32) option, kst) kop" where
  "dirlookup rd dp name =
     obind (gets (get_inode dp)) (\<lambda>x.
     if itype x \<noteq> T_DIR then panic ''dirlookup not DIR'' else
     dirlookup_loop (unat (isize x) div 16 + 2) rd dp name 0)"

definition slash :: byte where "slash = 47"

definition skipelem :: "byte list \<Rightarrow> byte list \<Rightarrow> (byte list \<times> byte list) option" where
  "skipelem path name =
     (let path = dropWhile (\<lambda>c. c = slash) path in
      if path = [] then None
      else let s = takeWhile (\<lambda>c. c \<noteq> slash) path;
               path = dropWhile (\<lambda>c. c \<noteq> slash) path;
               name = (if length s \<ge> DIRSIZ then take DIRSIZ s
                       else s @ 0 # drop (length s + 1) name)
           in Some (dropWhile (\<lambda>c. c = slash) path, name))"

fun namex_loop ::
  "nat \<Rightarrow> (u16 \<Rightarrow> dev_read option) \<Rightarrow> byte list \<Rightarrow> bool \<Rightarrow> byte list \<Rightarrow> iptr \<Rightarrow> (iptr option \<times> byte list, kst) kop" where
  "namex_loop 0 rd path nip name ip = hang"
| "namex_loop (Suc k) rd path nip name ip =
     (case skipelem path name of
        None \<Rightarrow>
          if nip then oseq (irelease ip) (ret (None, name)) else ret (Some ip, name)
      | Some (path, name) \<Rightarrow>
          oseq (locki rd (Some ip)) (
          obind (gets (\<lambda>s. itype (get_inode ip s))) (\<lambda>ty.
          if ty \<noteq> T_DIR then
            oseq (unlocki (Some ip)) (oseq (irelease ip) (ret (None, name)))
          else if nip \<and> path = [] then
            oseq (unlocki (Some ip)) (ret (Some ip, name))
          else
            obind (dirlookup rd ip name) (\<lambda>next'.
            case next' of
              None \<Rightarrow> oseq (unlocki (Some ip)) (oseq (irelease ip) (ret (None, name)))
            | Some (ip', off) \<Rightarrow>
                oseq (unlocki (Some ip)) (
                oseq (irelease ip) (
                namex_loop k rd path nip name ip'))))))"

declare dirlookup_loop.simps [simp del] namex_loop.simps [simp del]

text \<open>A path that starts at the root.  Every round consumes at least one byte of the path.\<close>

definition namex_abs ::
  "(u16 \<Rightarrow> dev_read option) \<Rightarrow> byte list \<Rightarrow> bool \<Rightarrow> byte list \<Rightarrow> (iptr option \<times> byte list, kst) kop" where
  "namex_abs rd path nip name =
     obind (iget ROOTDEV ROOTINO) (\<lambda>ip. namex_loop (Suc (length path)) rd path nip name ip)"

text \<open>A name buffer on the stack; its initial bytes are never read.\<close>

definition fresh_name :: "byte list" where "fresh_name = replicate DIRSIZ 0"

definition namex ::
  "(u16 \<Rightarrow> dev_read option) \<Rightarrow> byte list \<Rightarrow> bool \<Rightarrow> byte list \<Rightarrow> (iptr option \<times> byte list, kst) kop" where
  "namex rd path nip name =
     (if path \<noteq> [] \<and> hd path = slash then namex_abs rd path nip name
      else obind (namex_abs rd [slash] False fresh_name) (\<lambda>(r, _).
           case r of
             None \<Rightarrow> panic ''trap''
           | Some root \<Rightarrow>
               obind (idup root) (\<lambda>ip. namex_loop (Suc (length path)) rd path nip name ip)))"

definition namei :: "(u16 \<Rightarrow> dev_read option) \<Rightarrow> byte list \<Rightarrow> (iptr option, kst) kop" where
  "namei rd path = obind (namex rd path False fresh_name) (\<lambda>(r, _). ret r)"

definition nameiparent :: "(u16 \<Rightarrow> dev_read option) \<Rightarrow> byte list \<Rightarrow> byte list \<Rightarrow> (iptr option \<times> byte list, kst) kop" where
  "nameiparent rd path name = namex rd path True name"

definition iopen :: "(u16 \<Rightarrow> dev_read option) \<Rightarrow> byte list \<Rightarrow> (iptr option, kst) kop" where
  "iopen rd path =
     obind (namei rd path) (\<lambda>r.
     oseq (kwhen (r \<noteq> None) (oseq (locki rd r) (unlocki r)))
       (ret r))"

definition rootlookup :: "(u16 \<Rightarrow> dev_read option) \<Rightarrow> byte list \<Rightarrow> (iptr option, kst) kop" where
  "rootlookup rd name =
     obind (namei rd [slash]) (\<lambda>r.
     case r of
       None \<Rightarrow> panic ''trap''
     | Some dp \<Rightarrow> obind (dirlookup rd dp name) (\<lambda>e. ret (map_option fst e)))"

section \<open>What reading returns\<close>

lemma bio_rest_sel:
  assumes "bio_rest t = bio_rest s"
  shows "icache t = icache s" "ptable t = ptable s" "locks t = locks s" "kmem t = kmem s"
    "file_table t = file_table s" "pviews t = pviews s" "cons t = cons s"
    "curproc (cpu t) = curproc (cpu s)" "ncli (cpu t) = ncli (cpu s)"
    "\<And>i. slocks t (InodeLock i) = slocks s (InodeLock i)" "slocks t InodefileLock = slocks s InodefileLock"
proof -
  show "icache t = icache s" "ptable t = ptable s" "locks t = locks s" "kmem t = kmem s"
    "file_table t = file_table s" "pviews t = pviews s" "cons t = cons s"
    "curproc (cpu t) = curproc (cpu s)" "ncli (cpu t) = ncli (cpu s)"
    using arg_cong [OF assms, of icache] arg_cong [OF assms, of ptable] arg_cong [OF assms, of locks]
      arg_cong [OF assms, of kmem] arg_cong [OF assms, of file_table] arg_cong [OF assms, of pviews]
      arg_cong [OF assms, of cons] arg_cong [OF assms, of "\<lambda>u. curproc (cpu u)"]
      arg_cong [OF assms, of "\<lambda>u. ncli (cpu u)"]
    by (simp_all add: bio_rest_def)
  show "slocks t (InodeLock i) = slocks s (InodeLock i)" for i
    using arg_cong [OF assms, of "\<lambda>u. slocks u (InodeLock i)"] by (simp add: bio_rest_def)
  show "slocks t InodefileLock = slocks s InodefileLock"
    using arg_cong [OF assms, of "\<lambda>u. slocks u InodefileLock"] by (simp add: bio_rest_def)
qed

lemma ilock_rest:
  assumes "bio_rest t = bio_rest s"
  shows "slocks t (ilock ip) = slocks s (ilock ip)"
  using bio_rest_sel(10,11) [OF assms] by (cases ip) (simp_all add: ilock_def)

lemma get_inode_icache: "icache t = icache s \<Longrightarrow> get_inode ip t = get_inode ip s"
  by (cases ip) (simp_all add: get_inode_def)

text \<open>Byte \<open>off\<close> of the extent that starts at block \<open>start\<close>.\<close>

definition extent_byte :: "(nat \<Rightarrow> byte list) \<Rightarrow> nat \<Rightarrow> nat \<Rightarrow> byte" where
  "extent_byte bl start off = bl (start + off div BSIZE) ! (off mod BSIZE)"

definition extent_bytes :: "(nat \<Rightarrow> byte list) \<Rightarrow> nat \<Rightarrow> nat \<Rightarrow> nat \<Rightarrow> byte list" where
  "extent_bytes bl start off n = map (extent_byte bl start) [off..<off + n]"

lemma length_extent_bytes [simp]: "length (extent_bytes bl start off n) = n"
  by (simp add: extent_bytes_def)

lemma extent_bytes_append:
  "extent_bytes bl start off m @ extent_bytes bl start (off + m) n = extent_bytes bl start off (m + n)"
  unfolding extent_bytes_def map_append [symmetric]
  using upt_add_eq_append [of off "off + m" n] by (simp only: le_add1 add.assoc)

lemma div_mod_shift:
  fixes off j b :: nat
  assumes "off mod b + j < b"
  shows "(off + j) div b = off div b" "(off + j) mod b = off mod b + j"
proof -
  have "off + j = (off mod b + j) + b * (off div b)" by simp
  then show "(off + j) div b = off div b" "(off + j) mod b = off mod b + j"
    using assms by (simp_all only: div_mult_self2 mod_mult_self2) simp_all
qed

lemma block_slice:
  assumes "length (bl (start + off div BSIZE)) = BSIZE" "m \<le> BSIZE - off mod BSIZE"
  shows "take m (drop (off mod BSIZE) (bl (start + off div BSIZE))) = extent_bytes bl start off m"
proof (rule nth_equalityI)
  have "off mod BSIZE \<le> BSIZE" by (simp add: BSIZE_def)
  then show "length (take m (drop (off mod BSIZE) (bl (start + off div BSIZE)))) = length (extent_bytes bl start off m)"
    using assms by simp
  fix j
  assume "j < length (take m (drop (off mod BSIZE) (bl (start + off div BSIZE))))"
  then have j: "j < m" "off mod BSIZE + j < BSIZE" using assms by auto
  then show "take m (drop (off mod BSIZE) (bl (start + off div BSIZE))) ! j = extent_bytes bl start off m ! j"
    using assms by (simp add: extent_bytes_def extent_byte_def div_mod_shift)
qed

lemma wp_obind_gets: "wp (obind (gets f) g) Q s = wp (g (f s)) Q s"
  by (simp add: wp_rules)

lemma unat_min: "unat (min a b :: u32) = min (unat a) (unat b)"
  by (auto simp: min_def word_le_nat_alt)

lemma block_part:
  "unat (off mod of_nat BSIZE :: u32) = unat off mod BSIZE"
  "unat (of_nat BSIZE - off mod of_nat BSIZE :: u32) = BSIZE - unat off mod BSIZE"
proof -
  have B: "unat (of_nat BSIZE :: u32) = BSIZE" by (simp add: BSIZE_def)
  show m: "unat (off mod of_nat BSIZE :: u32) = unat off mod BSIZE" by (simp only: unat_mod B)
  have "unat off mod BSIZE \<le> BSIZE" by (simp add: BSIZE_def)
  then have "off mod of_nat BSIZE \<le> (of_nat BSIZE :: u32)" by (simp only: word_le_nat_alt m B)
  then show "unat (of_nat BSIZE - off mod of_nat BSIZE :: u32) = BSIZE - unat off mod BSIZE"
    by (simp only: unat_sub m B)
qed

lemma block_number: "a + off div of_nat BSIZE = (of_nat (unat a + unat off div BSIZE) :: u32)"
proof -
  have "unat (off div of_nat BSIZE :: u32) = unat off div BSIZE" by (simp add: unat_div BSIZE_def)
  then have "(of_nat (unat a + unat off div BSIZE) :: u32) = of_nat (unat a) + of_nat (unat (off div of_nat BSIZE :: u32))"
    by simp
  then show ?thesis by simp
qed

definition extent_on_disk :: "nat \<Rightarrow> nat \<Rightarrow> kst \<Rightarrow> bool" where
  "extent_on_disk start n s \<longleftrightarrow> (\<forall>o' < n. start + o' div BSIZE < disksize (disk s))"

definition blocks_full :: "kst \<Rightarrow> bool" where
  "blocks_full s \<longleftrightarrow> (\<forall>b < disksize (disk s). length (memdisk (disk s) b) = BSIZE)"

lemma disk_eq: "memdisk d = memdisk e \<Longrightarrow> disksize d = disksize e \<Longrightarrow> d = (e :: disk_state)"
  by (rule disk_state.equality) auto

lemma wp_readi_loop:
  assumes "bio_idle s" "blocks_full s" "idev (get_inode ip s) = 1"
    and "start = unat (startblkno (idata (get_inode ip s)))"
    and "unat off + unat n < 2 ^ 32" "extent_on_disk start (unat off + unat n) s" "unat n < k"
  shows "wp (readi_loop k ip off n) (\<lambda>r t. r = extent_bytes (memdisk (disk s)) start (unat off) (unat n) \<and>
     bio_idle t \<and> disk t = disk s \<and> bio_rest t = bio_rest s) s"
  using assms
proof (induction k arbitrary: off n s)
  case 0
  then show ?case by simp
next
  case (Suc k)
  show ?case
  proof (cases "n = 0")
    case True
    then show ?thesis using Suc.prems by (simp add: readi_loop.simps wp_rules extent_bytes_def)
  next
    case False
    then have n0: "0 < unat n" by (simp add: unat_gt_0)
    let ?m = "min n (of_nat BSIZE - off mod of_nat BSIZE)"
    have um: "unat ?m = min (unat n) (BSIZE - unat off mod BSIZE)" by (simp only: unat_min block_part)
    have B: "0 < BSIZE - unat off mod BSIZE" by (simp add: BSIZE_def)
    have m: "0 < unat ?m" "unat ?m \<le> unat n" "unat ?m \<le> BSIZE - unat off mod BSIZE"
      using n0 B um by simp_all
    have off': "unat (off + ?m) = unat off + unat ?m"
      using Suc.prems(5) m(2) by (simp add: unat_word_ariths)
    have n': "unat (n - ?m) = unat n - unat ?m" by (rule unat_sub) simp
    let ?bn = "start + unat off div BSIZE"
    have bn: "?bn < disksize (disk s)"
      using Suc.prems(6) n0 by (simp add: extent_on_disk_def)
    have slice: "take (unat ?m) (drop (unat (off mod of_nat BSIZE :: u32)) (memdisk (disk s) ?bn))
        = extent_bytes (memdisk (disk s)) start (unat off) (unat ?m)"
      unfolding block_part(1) using bn Suc.prems(2) m(3) by (intro block_slice) (simp add: blocks_full_def)
    let ?k = "\<lambda>d. obind (readi_loop k ip (off + ?m) (n - ?m)) (\<lambda>r. ret (d @ r))"
    have eq: "wp (readi_loop (Suc k) ip off n) Q s = wp (obind (bread 1 (of_nat ?bn)) (\<lambda>bp.
        obind (gets (\<lambda>t. take (unat ?m) (drop (unat (off mod of_nat BSIZE :: u32)) (bdata (get_buf bp t)))))
          (\<lambda>d. oseq (brelse bp) (?k d)))) Q s" for Q
      using False Suc.prems(3)
      by (simp only: readi_loop.simps wp_obind_gets Let_def block_number Suc.prems(4) if_False)
    show ?thesis
      unfolding eq
    proof (rule disk_cache.read_then [OF Suc.prems(1) bn], unfold slice)
      fix t
      assume t: "bio_idle t" "memdisk (disk t) = memdisk (disk s)" "disksize (disk t) = disksize (disk s)"
        "bio_rest t = bio_rest s"
      have d: "disk t = disk s" by (rule disk_eq) (use t in auto)
      have less: "unat n - unat ?m < k" 
        using diff_less [OF m(1) n0] Suc.prems(7) by (simp only: less_Suc_eq_le order.strict_trans2)
      have g: "get_inode ip t = get_inode ip s" using bio_rest_sel(1) [OF t(4)] by (rule get_inode_icache)
      have "wp (readi_loop k ip (off + ?m) (n - ?m))
          (\<lambda>r u. r = extent_bytes (memdisk (disk t)) start (unat (off + ?m)) (unat (n - ?m)) \<and>
            bio_idle u \<and> disk u = disk t \<and> bio_rest u = bio_rest t) t"
        by (rule Suc.IH)
          (use Suc.prems t d g off' n' m less in \<open>simp_all add: blocks_full_def extent_on_disk_def\<close>)
      moreover have "extent_bytes (memdisk (disk s)) start (unat off) (unat ?m) @
          extent_bytes (memdisk (disk s)) start (unat (off + ?m)) (unat (n - ?m)) =
          extent_bytes (memdisk (disk s)) start (unat off) (unat n)"
        using m(2) by (simp only: off' n' extent_bytes_append) simp
      ultimately show "wp (?k (extent_bytes (memdisk (disk s)) start (unat off) (unat ?m)))
          (\<lambda>r u. r = extent_bytes (memdisk (disk s)) start (unat off) (unat n) \<and> bio_idle u \<and>
            disk u = disk s \<and> bio_rest u = bio_rest s) t"
        using d t(4) by (auto simp: wp_obind wp_ret_fun elim!: wp_mono)
    qed
  qed
qed

text \<open>The state in which a process may read inode \<open>ip\<close>: it holds the inode's lock and no buffer.\<close>

definition can_read :: "iptr \<Rightarrow> kst \<Rightarrow> bool" where
  "can_read ip s \<longleftrightarrow> bio_idle s \<and> blocks_full s \<and> locks s (SleepLk (ilock ip)) = free_lock \<and>
     slocked (slocks s (ilock ip)) \<and> spid (slocks s (ilock ip)) = mypid s"

definition on_disk :: "iptr \<Rightarrow> kst \<Rightarrow> bool" where
  "on_disk ip s \<longleftrightarrow> (let x = get_inode ip s in itype x \<noteq> T_DEV \<and> idev x = 1 \<and> unat (isize x) < 2 ^ 31 \<and>
     extent_on_disk (unat (startblkno (idata x))) (unat (isize x)) s)"

lemma wp_holdingsleep_ilock:
  assumes "can_read ip s"
  shows "wp (holdingsleep (ilock ip)) Q s = Q True (s\<lparr>cpu := quiet (cpu s)\<rparr>)"
proof -
  obtain p where "curproc (cpu s) = Some p" "cpu_ok (cpu s)"
    using assms by (auto simp: can_read_def bio_idle_def bio_inv_def bio_env_def)
  then show ?thesis
    using assms wp_holdingsleep [of s "ilock ip" p] by (auto simp: can_read_def mypid_def)
qed

lemma bio_idle_quiet [simp]:
  "k = cpu s \<Longrightarrow> bio_idle (s\<lparr>cpu := quiet k\<rparr>) = bio_idle s"
  by (simp add: bio_idle_def bio_inv_def)

lemma get_inode_cpu [simp]: "get_inode ip (s\<lparr>cpu := c\<rparr>) = get_inode ip s"
  by (rule get_inode_icache) simp

lemma fs_pred_cpu [simp]:
  "blocks_full (s\<lparr>cpu := c\<rparr>) = blocks_full s" "extent_on_disk a n (s\<lparr>cpu := c\<rparr>) = extent_on_disk a n s"
  by (simp_all add: blocks_full_def extent_on_disk_def)

text \<open>How many bytes \<open>readi\<close> returns: what lies before the end of the file.\<close>

definition read_len :: "inode \<Rightarrow> u32 \<Rightarrow> u32 \<Rightarrow> nat" where
  "read_len x off n = min (unat n) (unat (isize x) - unat off)"

lemma clip_len:
  assumes "off \<le> isize x" "\<not> off + n < off"
  shows "unat (if off + n > isize x then isize x - off else n) = read_len x off n"
proof -
  have s: "unat (off + n) = unat off + unat n"
    using assms(2) unat_plus_simple [of off n] by (simp add: not_less)
  have "unat (isize x - off) = unat (isize x) - unat off" using assms(1) by (rule unat_sub)
  then show ?thesis
    using s assms(1) by (auto simp: read_len_def word_less_nat_alt word_le_nat_alt)
qed

lemma wp_readi:
  assumes cr: "can_read ip s" and od: "on_disk ip s" and x: "x = get_inode ip s"
    and off: "off \<le> isize x" "\<not> off + n < off"
  shows "wp (readi rd ip off n) (\<lambda>rd' t. rd' = (int (read_len x off n),
      extent_bytes (memdisk (disk s)) (unat (startblkno (idata x))) (unat off) (read_len x off n)) \<and>
     bio_idle t \<and> disk t = disk s \<and> bio_rest t = bio_rest s) s"
proof -
  define n' where "n' = (if off + n > isize x then isize x - off else n)"
  have n': "unat n' = read_len x off n" unfolding n'_def by (rule clip_len [OF off])
  have sz: "unat (isize x) < 2 ^ 31" "itype x \<noteq> T_DEV" "idev x = 1"
    "extent_on_disk (unat (startblkno (idata x))) (unat (isize x)) s"
    using od by (simp_all add: on_disk_def Let_def x)
  have le: "unat off + unat n' \<le> unat (isize x)"
    using off(1) n' by (auto simp: read_len_def word_le_nat_alt)
  then have "unat n' < 2 ^ 31" using sz(1) by linarith
  then have si: "sint n' = int (unat n')" by (simp only: sint_u32 uint_nat)
  let ?s = "s\<lparr>cpu := quiet (cpu s)\<rparr>"
  have "wp (readi_loop (Suc (unat n')) ip off n') (\<lambda>r t. r = extent_bytes (memdisk (disk ?s))
      (unat (startblkno (idata x))) (unat off) (unat n') \<and> bio_idle t \<and> disk t = disk ?s \<and>
      bio_rest t = bio_rest ?s) ?s"
  proof (rule wp_readi_loop)
    show "extent_on_disk (unat (startblkno (idata x))) (unat off + unat n') ?s"
      using sz(4) le by (simp add: extent_on_disk_def)
    show "unat off + unat n' < 2 ^ 32" using le sz(1) by simp
  qed (use cr sz x in \<open>simp_all add: can_read_def\<close>)
  then have "wp (obind (readi_loop (Suc (unat n')) ip off n') (\<lambda>d. ret (sint n', d))) (\<lambda>rd' t.
      rd' = (int (read_len x off n), extent_bytes (memdisk (disk s)) (unat (startblkno (idata x)))
        (unat off) (read_len x off n)) \<and> bio_idle t \<and> disk t = disk s \<and> bio_rest t = bio_rest s) ?s"
    by (auto simp: wp_obind wp_ret_fun si n' elim!: wp_mono)
  moreover have "wp (readi rd ip off n) Q s =
      wp (obind (readi_loop (Suc (unat n')) ip off n') (\<lambda>d. ret (sint n', d))) Q ?s" for Q
    using off(2) leD [OF off(1)] sz(2)
    by (simp add: readi_def wp_obind wp_holdingsleep_ilock [OF cr] wp_gets Let_def n'_def flip: x)
  ultimately show ?thesis by simp
qed

section \<open>The bitmap\<close>

lemma bit_set_bit: "bit_set d bi = bit (d ! (bi div 8)) (bi mod 8)"
  by (simp add: bit_set_def bit_iff_and_push_bit_not_eq_0)

lemma bit_set_update:
  assumes "bi < 8 * length d" "k < 8 * length d"
  shows "bit_set (d[bi div 8 := (d ! (bi div 8)) OR push_bit (bi mod 8) 1]) k = (k = bi \<or> bit_set d k)"
    and "bit_set (d[bi div 8 := (d ! (bi div 8)) AND NOT (push_bit (bi mod 8) 1)]) k = (k \<noteq> bi \<and> bit_set d k)"
proof -
  have l: "bi div 8 < length d" using assms(1) by (rule less_mult_imp_div_less [OF ord_less_eq_trans]) simp
  have m: "bi mod 8 < 8" "k mod 8 < 8" by simp_all
  have "k = bi \<longleftrightarrow> bi div 8 = k div 8 \<and> bi mod 8 = k mod 8" by (metis div_mult_mod_eq)
  then consider "k = bi" | "bi div 8 \<noteq> k div 8" "k \<noteq> bi" | "bi div 8 = k div 8" "bi mod 8 \<noteq> k mod 8" "k \<noteq> bi"
    by metis
  note cases = this
  show "bit_set (d[bi div 8 := (d ! (bi div 8)) OR push_bit (bi mod 8) 1]) k = (k = bi \<or> bit_set d k)"
    using cases
  proof cases
    case 1
    then show ?thesis using l m unfolding bit_set_bit by (simp only: nth_list_update_eq) (simp add: bit_simps)
  next
    case 2
    then show ?thesis unfolding bit_set_bit by (simp only: nth_list_update_neq not_False_eq_True simp_thms)
  next
    case 3
    have "bit (x OR push_bit (bi mod 8) 1 :: byte) (k mod 8) = bit x (k mod 8)" for x
      using 3(2) by (auto simp: bit_simps)
    then show ?thesis
      using 3 l unfolding bit_set_bit 3(1) [symmetric] by (simp only: nth_list_update_eq simp_thms)
  qed
  show "bit_set (d[bi div 8 := (d ! (bi div 8)) AND NOT (push_bit (bi mod 8) 1)]) k = (k \<noteq> bi \<and> bit_set d k)"
    using cases
  proof cases
    case 1
    then show ?thesis using l m unfolding bit_set_bit by (simp only: nth_list_update_eq) (simp add: bit_simps)
  next
    case 2
    then show ?thesis unfolding bit_set_bit by (simp only: nth_list_update_neq not_False_eq_True simp_thms)
  next
    case 3
    have "bit (x AND NOT (push_bit (bi mod 8) 1) :: byte) (k mod 8) = bit x (k mod 8)" for x
      using 3(2) m(2) by (auto simp: bit_simps)
    then show ?thesis
      using 3 l unfolding bit_set_bit 3(1) [symmetric] by (simp only: nth_list_update_eq simp_thms)
  qed
qed

lemma mark_bits_set:
  assumes "\<forall>bi \<in> set bis. bi < 8 * length d"
  shows "\<exists>d'. mark_bits d bis True = Some d' \<and> length d' = length d \<and>
     (\<forall>k < 8 * length d. bit_set d' k = (k \<in> set bis \<or> bit_set d k))"
  using assms
proof (induction bis arbitrary: d)
  case (Cons bi bis)
  let ?e = "d[bi div 8 := (d ! (bi div 8)) OR push_bit (bi mod 8) 1]"
  have "\<forall>b \<in> set bis. b < 8 * length ?e" using Cons.prems by simp
  from Cons.IH [OF this] Cons.prems show ?case
    using bit_set_update(1) [of bi d] by auto
qed simp

lemma mark_bits_clear:
  assumes "\<forall>bi \<in> set bis. bi < 8 * length d \<and> bit_set d bi" "distinct bis"
  shows "\<exists>d'. mark_bits d bis False = Some d' \<and> length d' = length d \<and>
     (\<forall>k < 8 * length d. bit_set d' k = (k \<notin> set bis \<and> bit_set d k))"
  using assms
proof (induction bis arbitrary: d)
  case (Cons bi bis)
  let ?e = "d[bi div 8 := (d ! (bi div 8)) AND NOT (push_bit (bi mod 8) 1)]"
  have "\<forall>b \<in> set bis. b < 8 * length ?e \<and> bit_set ?e b"
    using Cons.prems bit_set_update(2) [of bi d] by auto
  from Cons.IH [OF this] Cons.prems show ?case
    using bit_set_update(2) [of bi d] by auto
qed simp

lemma bits_determine:
  assumes "length d = length e" "\<forall>k < 8 * length d. bit_set d k = bit_set e k"
  shows "d = e"
proof (rule nth_equalityI [OF assms(1)])
  fix i
  assume i: "i < length d"
  show "d ! i = e ! i"
  proof (rule bit_word_eqI)
    fix j
    assume "j < LENGTH(8)"
    then have j: "j < 8" by simp
    then have "8 * i + j < 8 * length d" using i by linarith
    then have "bit_set d (8 * i + j) = bit_set e (8 * i + j)" using assms(2) by blast
    then show "bit (d ! i) j = bit (e ! i) j" using j by (simp add: bit_set_bit)
  qed
qed

definition clear_run :: "byte list \<Rightarrow> nat \<Rightarrow> nat \<Rightarrow> bool" where
  "clear_run d k n \<longleftrightarrow> (\<forall>i. k \<le> i \<and> i < k + n \<longrightarrow> \<not> bit_set d i)"

lemma clear_run_0 [simp]: "clear_run d k 0"
  by (auto simp: clear_run_def)

lemma clear_run_hit: "k \<le> i \<Longrightarrow> i < k + n \<Longrightarrow> bit_set d i \<Longrightarrow> \<not> clear_run d k n"
  by (auto simp: clear_run_def)

lemma clear_run_Suc: "clear_run d k (Suc n) \<longleftrightarrow> clear_run d k n \<and> \<not> bit_set d (k + n)"
proof -
  have "k \<le> i \<and> i < k + Suc n \<longleftrightarrow> (k \<le> i \<and> i < k + n) \<or> i = k + n" for i by linarith
  then show ?thesis unfolding clear_run_def by metis
qed

text \<open>The scan has read \<open>f + sz\<close> bits, the last \<open>sz\<close> of them clear.\<close>

lemma balloc_scan_inv:
  assumes "f + sz \<le> m" "sz < n" "clear_run d f sz" "0 < sz \<longrightarrow> i = f"
    and "\<forall>k. k + n \<le> f + sz \<longrightarrow> \<not> clear_run d k n"
    and "0 < f \<longrightarrow> bit_set d (f - 1)"
  shows "case balloc_scan d n [f + sz..<m] sz i of
      Some (g, l) \<Rightarrow> Suc l = g + n \<and> l < m \<and> clear_run d g n \<and> (\<forall>k < g. \<not> clear_run d k n)
    | None \<Rightarrow> \<forall>k. k + n \<le> m \<longrightarrow> \<not> clear_run d k n"
  using assms
proof (induction "m - (f + sz)" arbitrary: f sz i)
  case 0
  then have "f + sz = m" by simp
  then show ?case using 0 by simp
next
  case (Suc x)
  let ?b = "f + sz"
  have lt: "?b < m" using Suc.hyps(2) by linarith
  then have u: "[?b..<m] = ?b # [Suc ?b..<m]" by (rule upt_conv_Cons)
  have before: "\<not> clear_run d k n" if "k < f" for k
  proof (cases "k + n \<le> ?b")
    case True
    then show ?thesis using Suc.prems(5) by blast
  next
    case False
    have "k \<le> f - 1" "f - 1 < k + n" using that False by linarith+
    then show ?thesis using clear_run_hit Suc.prems(6) that by (metis not_gr_zero not_less_zero)
  qed
  show ?case
  proof (cases "bit_set d ?b")
    case True
    have none: "\<forall>k. k + n \<le> Suc ?b \<longrightarrow> \<not> clear_run d k n"
    proof (intro allI impI)
      fix k
      assume k: "k + n \<le> Suc ?b"
      show "\<not> clear_run d k n"
      proof (cases "k + n \<le> ?b")
        case False
        then have "k \<le> ?b" "?b < k + n" using k Suc.prems(2) by linarith+
        then show ?thesis using clear_run_hit True by blast
      qed (use Suc.prems(5) in blast)
    qed
    have "x = m - (Suc ?b + 0)" using Suc.hyps(2) by linarith
    from Suc.hyps(1) [OF this, of 0] none True Suc.prems(2) lt show ?thesis
      by (simp add: u)
  next
    case False
    have run: "clear_run d f (Suc sz)" using Suc.prems(3) False by (simp add: clear_run_Suc)
    have i': "(if sz + 1 = 1 then ?b else i) = f" using Suc.prems(4) by simp
    show ?thesis
    proof (cases "sz + 1 = n")
      case True
      then show ?thesis using False lt run before i' by (auto simp: u Let_def)
    next
      case ne: False
      have none: "\<forall>k. k + n \<le> f + Suc sz \<longrightarrow> \<not> clear_run d k n"
      proof (intro allI impI)
        fix k
        assume "k + n \<le> f + Suc sz"
        then have "k < f" using Suc.prems(2) ne by linarith
        then show "\<not> clear_run d k n" by (rule before)
      qed
      have "x = m - (f + Suc sz)" "f + Suc sz \<le> m" "Suc sz < n"
        using Suc.hyps(2) lt Suc.prems(2) ne by linarith+
      from Suc.hyps(1) [OF this(1,2,3) run _ none Suc.prems(6), of f] ne False i' show ?thesis
        by (simp add: u Let_def)
    qed
  qed
qed

section \<open>Path elements\<close>

text \<open>The elements of a path: what lies between its slashes.\<close>

fun split_path :: "byte list \<Rightarrow> byte list \<Rightarrow> byte list list" where
  "split_path acc [] = (if acc = [] then [] else [rev acc])"
| "split_path acc (c # xs) =
     (if c = slash then (if acc = [] then split_path [] xs else rev acc # split_path [] xs)
      else split_path (c # acc) xs)"

definition elems :: "byte list \<Rightarrow> byte list list" where
  "elems path = split_path [] path"

lemma elems_slashes: "elems (dropWhile (\<lambda>c. c = slash) p) = elems p"
  by (induction p) (auto simp: elems_def)

lemma split_path_word:
  "split_path acc p = (let w = rev acc @ takeWhile (\<lambda>c. c \<noteq> slash) p in
     if w = [] then elems (dropWhile (\<lambda>c. c \<noteq> slash) p)
     else w # elems (dropWhile (\<lambda>c. c \<noteq> slash) p))"
  by (induction p arbitrary: acc) (auto simp: Let_def elems_def)

lemma elems_Cons:
  assumes "p \<noteq> []" "hd p \<noteq> slash"
  shows "elems p = takeWhile (\<lambda>c. c \<noteq> slash) p # elems (dropWhile (\<lambda>c. c = slash) (dropWhile (\<lambda>c. c \<noteq> slash) p))"
proof -
  have "takeWhile (\<lambda>c. c \<noteq> slash) p \<noteq> []" using assms by (cases p) auto
  then show ?thesis
    using split_path_word [of "[]" p] by (simp add: elems_def [symmetric] Let_def elems_slashes)
qed

text \<open>A name as a directory entry stores it: cut to \<open>DIRSIZ\<close> bytes, terminated if shorter.\<close>

definition name_of :: "byte list \<Rightarrow> byte list \<Rightarrow> byte list" where
  "name_of w old = (if length w \<ge> DIRSIZ then take DIRSIZ w else w @ 0 # drop (length w + 1) old)"

lemma skipelem_elems:
  "skipelem path name =
     (case elems path of
        [] \<Rightarrow> None
      | w # ws \<Rightarrow> Some (dropWhile (\<lambda>c. c = slash) (dropWhile (\<lambda>c. c \<noteq> slash)
                     (dropWhile (\<lambda>c. c = slash) path)), name_of w name))"
proof (cases "dropWhile (\<lambda>c. c = slash) path")
  case Nil
  have "elems [] = []" by (simp add: elems_def)
  then have "elems path = []" using elems_slashes [of path] by (simp only: Nil)
  then show ?thesis using Nil by (simp add: skipelem_def)
next
  case (Cons c xs)
  then have "c \<noteq> slash" by (metis (full_types) dropWhile_eq_Cons_conv)
  then have "elems path = takeWhile (\<lambda>c. c \<noteq> slash) (c # xs) #
      elems (dropWhile (\<lambda>c. c = slash) (dropWhile (\<lambda>c. c \<noteq> slash) (c # xs)))"
    using elems_Cons [of "c # xs"] elems_slashes [of path] Cons by simp
  then show ?thesis using Cons by (simp add: skipelem_def Let_def name_of_def)
qed

section \<open>Properties\<close>

text \<open>C18: reading a file.  For an inode that is not a device, holds its lock and lies on the disk, and
  an offset inside the file, \<open>readi\<close> returns.  The count is the number of bytes before the end of
  the file, at most \<open>n\<close>; the bytes are those of the file's extent on disk from \<open>off\<close> on, across
  any number of block boundaries; the disk and everything outside the buffer cache are unchanged.\<close>

theorem readi_reads_file:
  assumes "can_read ip s" "on_disk ip s" "off \<le> isize (get_inode ip s)" "\<not> off + n < off"
  shows "wp (readi rd ip off n) (\<lambda>(r, d) t.
     r = int (min (unat n) (unat (isize (get_inode ip s)) - unat off)) \<and>
     d = extent_bytes (memdisk (disk s)) (unat (startblkno (idata (get_inode ip s)))) (unat off) (nat r) \<and>
     bio_idle t \<and> disk t = disk s \<and> bio_rest t = bio_rest s) s"
  by (rule wp_mono [OF wp_readi [OF assms(1,2) refl assms(3,4)]]) (auto simp: read_len_def)

text \<open>The disk of \<open>demo_disk\<close> after \<open>binit\<close>, and a file of 700 bytes from block 3 in slot 0 whose lock
  the process holds.\<close>

definition with_file :: "kst \<Rightarrow> kst" where
  "with_file s = s\<lparr>icache := (icache s)\<lparr>inodes := [\<lparr>idev = 1, inum = 2, iref = 1, ivalid = True,
       itype = T_FILE, idevid = 0, isize = 700, idata = \<lparr>startblkno = 3, nblocks = 2\<rparr>\<rparr>]\<rparr>,
     slocks := (slocks s)(InodeLock 0 := my_slk s)\<rparr>"

lemma with_file_ready:
  assumes "bio_inv {} t" "binit_keeps demo_disk t"
  shows "can_read (INode 0) (with_file t)" "on_disk (INode 0) (with_file t)"
    "isize (get_inode (INode 0) (with_file t)) = 700"
    "startblkno (idata (get_inode (INode 0) (with_file t))) = 3" "disk (with_file t) = disk demo_disk"
proof -
  have d: "disk t = disk demo_disk" "locks t = locks demo_disk" "\<not> crashn_enable (bcache t)"
    using assms(2) by (simp_all add: binit_keeps_def demo_disk_def zero_kst_def)
  have b: "bio_inv {} (with_file t)"
    using assms(1) unfolding bio_inv_def with_file_def
    by (simp add: bio_env_def get_buf_def)
  have pid: "mypid (with_file t) = mypid t" by (simp add: mypid_def with_file_def get_proc_def)
  show "can_read (INode 0) (with_file t)"
    using b d pid by (simp add: can_read_def bio_idle_def blocks_full_def ilock_def)
      (simp add: with_file_def demo_disk_def)
  have "o' div 512 < 5" if "o' < 700" for o' :: nat
    using that by (intro less_mult_imp_div_less) simp
  then show "on_disk (INode 0) (with_file t)"
    using d by (simp add: on_disk_def Let_def extent_on_disk_def get_inode_def with_file_def demo_disk_def
        T_FILE_def T_DEV_def BSIZE_def)
  show "isize (get_inode (INode 0) (with_file t)) = 700"
    "startblkno (idata (get_inode (INode 0) (with_file t))) = 3" "disk (with_file t) = disk demo_disk"
    using d by (simp_all add: get_inode_def with_file_def)
qed

theorem readi_reads_file_witness:
  "\<exists>t. binit demo_disk = Ret () t \<and>
     wp (readi (\<lambda>_. None) (INode 0) 500 20) (\<lambda>(r, d) u. r = 20 \<and>
       d = extent_bytes (memdisk (disk demo_disk)) 3 500 20) (with_file t)"
proof -
  obtain t where t: "binit demo_disk = Ret () t" "bio_inv {} t" "binit_keeps demo_disk t"
    using demo_binit by (auto elim!: wpE)
  note w = with_file_ready [OF t(2,3)]
  have "wp (readi (\<lambda>_. None) (INode 0) 500 20) (\<lambda>(r, d) u. r = 20 \<and>
      d = extent_bytes (memdisk (disk demo_disk)) 3 500 20) (with_file t)"
    by (rule wp_mono [OF readi_reads_file [OF w(1,2)]]) (auto simp: w)
  then show ?thesis using t(1) by blast
qed

text \<open>C30: the bitmap allocator is first-fit.  For a block of the bitmap and \<open>n > 0\<close>, the search of
  \<open>balloc\<close> over its first \<open>m\<close> bits returns the first and last bit of the leftmost run of \<open>n\<close> clear
  bits, and fails only when there is no such run.\<close>

theorem balloc_first_fit:
  assumes "0 < n"
  shows "case balloc_scan d n [0..<m] 0 0 of
      Some (f, l) \<Rightarrow> Suc l = f + n \<and> l < m \<and> clear_run d f n \<and> (\<forall>k < f. \<not> clear_run d k n)
    | None \<Rightarrow> \<forall>k. k + n \<le> m \<longrightarrow> \<not> clear_run d k n"
  using balloc_scan_inv [of 0 0 m n d 0] assms by (auto simp: clear_run_def)

theorem balloc_first_fit_witness:
  "(case balloc_scan [0xF5, 0] 2 [0..<16] 0 0 of
      Some (f, l) \<Rightarrow> Suc l = f + 2 \<and> l < 16 \<and> clear_run [0xF5, 0] f 2 \<and> (\<forall>k < f. \<not> clear_run [0xF5, 0] k 2)
    | None \<Rightarrow> \<forall>k. k + 2 \<le> 16 \<longrightarrow> \<not> clear_run [0xF5, 0] k 2)"
  by (rule balloc_first_fit) simp

text \<open>C31: freeing blocks undoes allocating them: marking a run of clear bits as used succeeds and
  changes exactly these bits, and marking the same run as free then gives back the old bitmap.\<close>

theorem bmark_free_undoes_alloc:
  assumes "f + n \<le> 8 * length d" "clear_run d f n"
  shows "\<exists>d'. mark_bits d [f..<f + n] True = Some d' \<and>
     (\<forall>k < 8 * length d. bit_set d' k = (f \<le> k \<and> k < f + n \<or> bit_set d k)) \<and>
     mark_bits d' [f..<f + n] False = Some d"
proof -
  obtain d' where d': "mark_bits d [f..<f + n] True = Some d'" "length d' = length d"
    "\<forall>k < 8 * length d. bit_set d' k = (k \<in> set [f..<f + n] \<or> bit_set d k)"
    using mark_bits_set [of "[f..<f + n]" d] assms(1) by auto
  have "\<forall>b \<in> set [f..<f + n]. b < 8 * length d' \<and> bit_set d' b" using d' assms(1) by auto
  then obtain e where e: "mark_bits d' [f..<f + n] False = Some e" "length e = length d"
    "\<forall>k < 8 * length d. bit_set e k = (k \<notin> set [f..<f + n] \<and> bit_set d' k)"
    using mark_bits_clear [of "[f..<f + n]" d'] d'(2) by auto
  have "e = d"
    using e d'(3) assms(2) by (intro bits_determine) (auto simp: clear_run_def)
  then show ?thesis using d' e by auto
qed

theorem bmark_free_undoes_alloc_witness:
  "\<exists>d'. mark_bits [0xF5, 0] [8..<8 + 2] True = Some d' \<and> mark_bits d' [8..<8 + 2] False = Some [0xF5, 0]"
proof -
  have "i = 8 \<or> i = 9" if "8 \<le> i \<and> i < 8 + 2" for i :: nat using that by linarith
  then have "clear_run [0xF5, 0] 8 2" by (fastforce simp: clear_run_def bit_set_def)
  moreover have "8 + 2 \<le> 8 * length [0xF5, 0 :: byte]" by simp
  ultimately show ?thesis using bmark_free_undoes_alloc [of 8 2 "[0xF5, 0]"] by blast
qed

text \<open>C32: path elements.  \<open>skipelem\<close> returns null exactly when no element is left; otherwise the name
  is the first element (cut to \<open>DIRSIZ\<close> bytes, or terminated), the remaining path has the other
  elements, starts with no slash and is shorter, so the walk of \<open>namex\<close> ends.\<close>

theorem skipelem_next_element:
  "case skipelem path name of
     None \<Rightarrow> elems path = []
   | Some (rest, nm) \<Rightarrow> elems path = hd (elems path) # elems rest \<and> nm = name_of (hd (elems path)) name \<and>
       dropWhile (\<lambda>c. c = slash) rest = rest \<and> length rest < length path"
proof (cases "dropWhile (\<lambda>c. c = slash) path")
  case Nil
  have "elems [] = []" by (simp add: elems_def)
  then have "elems path = []" using elems_slashes [of path] by (simp only: Nil)
  then show ?thesis by (simp add: skipelem_elems)
next
  case (Cons c xs)
  let ?rest = "dropWhile (\<lambda>c. c = slash) (dropWhile (\<lambda>c. c \<noteq> slash) (c # xs))"
  have c: "c \<noteq> slash" using Cons by (metis (full_types) dropWhile_eq_Cons_conv)
  then have e: "elems path = takeWhile (\<lambda>c. c \<noteq> slash) (c # xs) # elems ?rest"
    using elems_Cons [of "c # xs"] elems_slashes [of path] Cons by simp
  have "length ?rest \<le> length xs"
    using c by (simp add: le_trans [OF length_dropWhile_le length_dropWhile_le])
  moreover have "length (c # xs) \<le> length path" using length_dropWhile_le [of "\<lambda>c. c = slash" path] Cons by simp
  moreover have "dropWhile (\<lambda>c. c = slash) ?rest = ?rest" by (rule dropWhile_idem)
  ultimately show ?thesis using e Cons by (simp add: skipelem_elems)
qed

end
