(* ===== verification/Vspace.thy ===== *)
theory Vspace
  imports PageTable Fs
begin

unbundle bit_operations_syntax

text \<open>
  Address spaces (\<open>kernel/vspace.c\<close>): the three regions of a process, the page descriptors behind
  them, and the page table built from the descriptors.

  Every \<open>struct vspace\<close> is the field of a process, so a pointer to one is the number of the process,
  and a pointer to a region is that number with the number of the region.  A pointer to a
  \<open>struct vpage_info\<close> is the page of descriptors that holds it with an index.  The contents of user
  pages are bytes (\<open>byte_view\<close>).  Following a null pointer is \<open>Panic ''trap''\<close>.  The two
  functions that dump an address space to the console are not modelled.
\<close>

section \<open>Regions and descriptors\<close>

type_synonym rptr = "nat \<times> nat"
type_synonym vpi_ptr = "u64 \<times> nat"

definition VR_CODE :: nat where "VR_CODE = 0"
definition VR_HEAP :: nat where "VR_HEAP = 1"
definition VR_USTACK :: nat where "VR_USTACK = 2"
definition VPI_PRESENT :: u16 where "VPI_PRESENT = 1"
definition VPI_WRITABLE :: u16 where "VPI_WRITABLE = 1"
definition VPI_READONLY :: u16 where "VPI_READONLY = 0"

text \<open>\<open>struct vpage_info\<close> has 24 bytes, so a page holds 169 of them and the link.\<close>

definition VPIPPAGE :: nat where "VPIPPAGE = 4096 div 24 - 1"

definition VRTOP :: "vregion \<Rightarrow> u64" where
  "VRTOP r = (if dir r = VRDIR_UP then va_base r + vsize r else va_base r)"

definition VRBOT :: "vregion \<Rightarrow> u64" where
  "VRBOT r = (if dir r = VRDIR_UP then va_base r else va_base r - vsize r)"

definition get_region :: "rptr \<Rightarrow> kst \<Rightarrow> vregion" where
  "get_region vr s = regions (pvspace (get_proc (fst vr) s)) ! snd vr"

definition upd_vspace :: "nat \<Rightarrow> (vspace \<Rightarrow> vspace) \<Rightarrow> kst \<Rightarrow> kst" where
  "upd_vspace p f = upd_proc p (\<lambda>q. q\<lparr>pvspace := f (pvspace q)\<rparr>)"

definition upd_region :: "rptr \<Rightarrow> (vregion \<Rightarrow> vregion) \<Rightarrow> kst \<Rightarrow> kst" where
  "upd_region vr f = upd_vspace (fst vr) (\<lambda>v. v\<lparr>regions := (regions v)[snd vr := f (regions v ! snd vr)]\<rparr>)"

definition get_vpi :: "vpi_ptr \<Rightarrow> kst \<Rightarrow> vpage_info" where
  "get_vpi v s = infos (vpi_view (pviews s) (fst v)) (snd v)"

definition upd_vpi_page :: "u64 \<Rightarrow> (vpi_page \<Rightarrow> vpi_page) \<Rightarrow> kst \<Rightarrow> kst" where
  "upd_vpi_page a f s = s\<lparr>pviews := (pviews s)\<lparr>vpi_view :=
     (vpi_view (pviews s))(a := f (vpi_view (pviews s) a))\<rparr>\<rparr>"

definition upd_vpi :: "vpi_ptr \<Rightarrow> (vpage_info \<Rightarrow> vpage_info) \<Rightarrow> kst \<Rightarrow> kst" where
  "upd_vpi v f = upd_vpi_page (fst v) (\<lambda>q. q\<lparr>infos := (infos q)(snd v := f (infos q (snd v)))\<rparr>)"

definition set_vnext :: "u64 \<Rightarrow> u64 \<Rightarrow> kst \<Rightarrow> kst" where
  "set_vnext a n = upd_vpi_page a (\<lambda>q. q\<lparr>vnext := n\<rparr>)"

definition write_page :: "u64 \<Rightarrow> nat \<Rightarrow> byte list \<Rightarrow> (unit, kst) kop" where
  "write_page a off xs = modify (\<lambda>s. s\<lparr>pviews := (pviews s)\<lparr>byte_view :=
     (byte_view (pviews s))(a := put_bytes off xs (byte_view (pviews s) a))\<rparr>\<rparr>)"

text \<open>\<open>P2V(ppn << PT_SHIFT)\<close>.\<close>

definition page_of :: "u64 \<Rightarrow> u64" where
  "page_of n = P2V (push_bit 12 n)"

section \<open>Finding descriptors\<close>

text \<open>The result is a C \<open>int\<close>.\<close>

definition va2vpi_idx :: "vregion \<Rightarrow> u64 \<Rightarrow> u32" where
  "va2vpi_idx r va =
     (if dir r = VRDIR_UP then ucast (drop_bit 12 (va - va_base r))
      else ucast (drop_bit 12 (va_base r - 1 - va)))"

definition x86perms :: "vpage_info \<Rightarrow> u64" where
  "x86perms vpi = PTE_U OR (if present vpi \<noteq> 0 then PTE_P else 0) OR (if writable vpi \<noteq> 0 then PTE_W else 0)"

text \<open>The loop of \<open>va2vpage_info\<close>.  The index is compared with an unsigned constant of 64 bits.\<close>

fun vpi_walk :: "nat \<Rightarrow> u64 \<Rightarrow> u32 \<Rightarrow> (vpi_ptr option, kst) kop" where
  "vpi_walk 0 info idx = hang"
| "vpi_walk (Suc k) info idx =
     (if of_nat VPIPPAGE \<le> (scast idx :: u64) then
        oseq (kassert (info \<noteq> 0) ''idx was out of bounds'') (
        obind (gets (\<lambda>s. vnext (vpi_view (pviews s) info))) (\<lambda>nx.
        if nx = 0 then
          obind kalloc (\<lambda>n.
          oseq (modify (set_vnext info n)) (
          if n = 0 then ret None else
          oseq (memset_page n 0)
            (vpi_walk k n (idx - of_nat VPIPPAGE))))
        else vpi_walk k nx (idx - of_nat VPIPPAGE)))
      else ret (Some (info, unat idx)))"

declare vpi_walk.simps [simp del]

definition va2vpage_info :: "rptr \<Rightarrow> u64 \<Rightarrow> (vpi_ptr option, kst) kop" where
  "va2vpage_info vr va =
     obind (gets (get_region vr)) (\<lambda>r.
     oseq (kwhen (pages r = 0) (
             obind kalloc (\<lambda>n.
             oseq (modify (upd_region vr (\<lambda>x. x\<lparr>pages := n\<rparr>)))
               (if n = 0 then panic ''trap'' else memset_page n 0)))) (
     obind (gets (get_region vr)) (\<lambda>r.
     let idx = va2vpi_idx r va in
     vpi_walk (Suc (unat idx div VPIPPAGE)) (pages r) idx)))"

definition va2vpi :: "rptr \<Rightarrow> u64 \<Rightarrow> (vpi_ptr, kst) kop" where
  "va2vpi vr va = obind (va2vpage_info vr va) (\<lambda>v. case v of None \<Rightarrow> panic ''trap'' | Some v \<Rightarrow> ret v)"

definition in_region :: "u64 \<Rightarrow> vregion \<Rightarrow> bool" where
  "in_region va r \<longleftrightarrow>
     (if dir r = VRDIR_UP then va \<ge> va_base r \<and> va < va_base r + vsize r
      else va \<ge> va_base r - vsize r \<and> va < va_base r)"

definition va2vregion :: "vspace \<Rightarrow> u64 \<Rightarrow> nat option" where
  "va2vregion vs va = find_idx (in_region va) (regions vs)"

definition vregioncontains :: "vregion \<Rightarrow> u64 \<Rightarrow> u32 \<Rightarrow> bool" where
  "vregioncontains r va sz \<longleftrightarrow>
     (if sz = 0 \<and> va = VRTOP r then False
      else va \<ge> VRBOT r \<and> va + scast sz \<le> VRTOP r)"

definition vspacecontains :: "vspace \<Rightarrow> u64 \<Rightarrow> u32 \<Rightarrow> int" where
  "vspacecontains vs va sz =
     (case va2vregion vs va of
        None \<Rightarrow> -1
      | Some i \<Rightarrow> if vregioncontains (regions vs ! i) va sz then 1 else 0)"

section \<open>Adding memory to a region\<close>

text \<open>The loop of \<open>vregionaddmap\<close>: \<open>None\<close> when it runs to the end, the address it stopped at when an
  allocation fails.\<close>

fun addmap_loop :: "nat \<Rightarrow> rptr \<Rightarrow> u64 \<Rightarrow> u64 \<Rightarrow> u16 \<Rightarrow> u16 \<Rightarrow> (u64 option, kst) kop" where
  "addmap_loop 0 vr a lim pr wr = hang"
| "addmap_loop (Suc k) vr a lim pr wr =
     (if \<not> a < lim then ret None else
      obind (va2vpage_info vr a) (\<lambda>v.
      case v of None \<Rightarrow> ret (Some a) | Some vpi \<Rightarrow>
      obind kalloc (\<lambda>mem.
      if mem = 0 then ret (Some a) else
      oseq (memset_page mem 0) (
      oseq (modify (upd_vpi vpi (\<lambda>_. \<lparr>used = 1, ppn = PGNUM (V2P mem), present = pr, writable = wr\<rparr>)))
        (addmap_loop k vr (a + PGSIZE) lim pr wr)))))"

fun addmap_undo :: "nat \<Rightarrow> rptr \<Rightarrow> u64 \<Rightarrow> u64 \<Rightarrow> (unit, kst) kop" where
  "addmap_undo 0 vr a lo = hang"
| "addmap_undo (Suc k) vr a lo =
     (if \<not> lo \<le> a then ret () else
      obind (va2vpage_info vr a) (\<lambda>v.
      case v of None \<Rightarrow> panic ''vpi info missing'' | Some vpi \<Rightarrow>
      obind (gets (\<lambda>s. ppn (get_vpi vpi s))) (\<lambda>n.
      oseq (kfree (page_of n)) (
      oseq (modify (upd_vpi vpi (\<lambda>_. \<lparr>used = 0, ppn = 0, present = 0, writable = 0\<rparr>)))
        (addmap_undo k vr (a - PGSIZE) lo)))))"

declare addmap_loop.simps [simp del] addmap_undo.simps [simp del]

definition vregionaddmap :: "rptr \<Rightarrow> u64 \<Rightarrow> u64 \<Rightarrow> u16 \<Rightarrow> u16 \<Rightarrow> (int, kst) kop" where
  "vregionaddmap vr from_va sz pr wr =
     (if KERNBASE \<le> sz + from_va then ret (-1)
      else if sz = 0 then ret 0
      else
        let fuel = unat sz div 4096 + 2 in
        obind (addmap_loop fuel vr (PGROUNDUP from_va) (from_va + sz) pr wr) (\<lambda>r.
        case r of
          None \<Rightarrow> ret (sint (ucast sz :: u32))
        | Some a \<Rightarrow> oseq (addmap_undo fuel vr (a - PGSIZE) (PGROUNDUP from_va)) (ret (-1))))"

fun adddata_loop :: "nat \<Rightarrow> rptr \<Rightarrow> u64 \<Rightarrow> byte list \<Rightarrow> u64 \<Rightarrow> u64 \<Rightarrow> (unit, kst) kop" where
  "adddata_loop 0 vr va data i sz = hang"
| "adddata_loop (Suc k) vr va data i sz =
     (if \<not> i < sz then ret () else
      obind (va2vpi vr (va + i)) (\<lambda>vpi.
      obind (gets (get_vpi vpi)) (\<lambda>v.
      oseq (kassert (used v \<noteq> 0) ''vpi->used'') (
      oseq (write_page (page_of (ppn v)) 0 (take (unat (min (sz - i) PGSIZE)) (drop (unat i) data)))
        (adddata_loop k vr va data (i + PGSIZE) sz)))))"

definition vradddata :: "rptr \<Rightarrow> u64 \<Rightarrow> byte list \<Rightarrow> u32 \<Rightarrow> u16 \<Rightarrow> u16 \<Rightarrow> (int, kst) kop" where
  "vradddata vr va data sz pr wr =
     obind (vregionaddmap vr va (scast sz) pr wr) (\<lambda>r.
     if r < 0 then ret r else
     oseq (adddata_loop (unat (scast sz :: u64) div 4096 + 2) vr va data 0 (scast sz)) (ret 0))"

fun loaddata_loop ::
  "nat \<Rightarrow> (u16 \<Rightarrow> dev_read option) \<Rightarrow> rptr \<Rightarrow> u64 \<Rightarrow> iptr \<Rightarrow> u32 \<Rightarrow> u32 \<Rightarrow> u32 \<Rightarrow> (int, kst) kop" where
  "loaddata_loop 0 rd vr va ip offset i sz = hang"
| "loaddata_loop (Suc k) rd vr va ip offset i sz =
     (if \<not> i < sz then ret 0 else
      obind (va2vpi vr (va + ucast i)) (\<lambda>vpi.
      obind (gets (get_vpi vpi)) (\<lambda>v.
      oseq (kassert (used v \<noteq> 0) ''page must be allocated'') (
      let n = min (sz - i) 4096 in
      obind (readi rd ip (offset + i) n) (\<lambda>(r, d).
      oseq (write_page (page_of (ppn v)) 0 d)
        (if (of_int r :: u32) \<noteq> n then ret (-1)
         else loaddata_loop k rd vr va ip offset (i + 4096) sz))))))"

definition vrloaddata ::
  "(u16 \<Rightarrow> dev_read option) \<Rightarrow> rptr \<Rightarrow> u64 \<Rightarrow> iptr \<Rightarrow> u32 \<Rightarrow> u32 \<Rightarrow> (int, kst) kop" where
  "vrloaddata rd vr va ip offset sz =
     oseq (kassert (va mod PGSIZE = 0) ''va must be page aligned'')
       (loaddata_loop (unat sz div 4096 + 2) rd vr va ip offset 0 sz)"

declare adddata_loop.simps [simp del] loaddata_loop.simps [simp del]

section \<open>Page tables of an address space\<close>

fun mapregion_loop :: "nat \<Rightarrow> nat \<Rightarrow> rptr \<Rightarrow> u64 \<Rightarrow> u64 \<Rightarrow> (unit, kst) kop" where
  "mapregion_loop 0 p vr start lim = hang"
| "mapregion_loop (Suc k) p vr start lim =
     (if \<not> start < lim then ret () else
      obind (va2vpi vr start) (\<lambda>vpi.
      obind (gets (get_vpi vpi)) (\<lambda>v.
      obind (gets (\<lambda>s. pgtbl (pvspace (get_proc p s)))) (\<lambda>pml4.
      oseq (mappages pml4 (drop_bit 12 start) 1 (ppn v) (x86perms v) False)
        (mapregion_loop k p vr (start + PGSIZE) lim)))))"

declare mapregion_loop.simps [simp del]

definition free_user_entry :: "nat \<Rightarrow> nat \<Rightarrow> (unit, kst) kop" where
  "free_user_entry p i =
     obind (gets (\<lambda>s. pgtbl (pvspace (get_proc p s)))) (\<lambda>pml4.
     obind (gets (get_pte (pml4, i))) (\<lambda>e.
     kwhen (pte_present e) (oseq (freevm_pdpt (table_of e)) (modify (set_pte (pml4, i) 0)))))"

definition map_region :: "nat \<Rightarrow> nat \<Rightarrow> (unit, kst) kop" where
  "map_region p i =
     obind (gets (get_region (p, i))) (\<lambda>r.
     oseq (kassert (VRBOT r mod PGSIZE = 0) ''start % PGSIZE == 0'')
       (mapregion_loop (unat (VRTOP r - VRBOT r) div 4096 + 2) p (p, i) (VRBOT r) (VRTOP r)))"

definition vspaceupdate :: "nat \<Rightarrow> (unit, kst) kop" where
  "vspaceupdate p =
     oseq (foreach [0..<Suc (PML4_INDEX SZ_4G)] (free_user_entry p))
       (foreach [0..<NREGIONS] (map_region p))"

definition vspacemarknotpresent :: "nat \<Rightarrow> u64 \<Rightarrow> (unit, kst) kop" where
  "vspacemarknotpresent p user_va =
     oseq (kassert (user_va mod PGSIZE = 0) ''user_va % PGSIZE == 0'') (
     obind (gets (\<lambda>s. pvspace (get_proc p s))) (\<lambda>vs.
     case va2vregion vs user_va of None \<Rightarrow> panic ''vr'' | Some r \<Rightarrow>
     obind (va2vpage_info (p, r) user_va) (\<lambda>v.
     case v of None \<Rightarrow> panic ''vpi'' | Some vpi \<Rightarrow>
     obind (gets (\<lambda>s. present (get_vpi vpi s))) (\<lambda>pr.
     if pr \<noteq> 0 then panic ''Passed user_va had present vpi.'' else
     obind (walkpml4 (pgtbl vs) user_va False) (\<lambda>pte.
     case pte of None \<Rightarrow> ret () | Some e \<Rightarrow> modify (set_pte e 0))))))"

definition vspaceinstall :: "nat option \<Rightarrow> (unit, kst) kop" where
  "vspaceinstall po =
     (case po of None \<Rightarrow> panic ''mrinstall: null proc'' | Some p \<Rightarrow>
     obind (gets (get_proc p)) (\<lambda>q.
     if kstack q = 0 then panic ''mrinstall: null kstack''
     else if pgtbl (pvspace q) = 0 then panic ''mrinstall: page table not initialized''
     else
       oseq pushcli (
       oseq (modify (\<lambda>s. s\<lparr>cpu := (cpu s)\<lparr>ts_rsp0 := kstack q + PGSIZE, cr3 := V2P (pgtbl (pvspace q))\<rparr>\<rparr>))
         popcli)))"

definition vspaceinstallkern :: "(unit, kst) kop" where
  "vspaceinstallkern = modify (\<lambda>s. s\<lparr>cpu := (cpu s)\<lparr>cr3 := V2P (kpml4 (pviews s))\<rparr>\<rparr>)"

text \<open>The segment registers that \<open>seginit\<close> loads are not part of the state; it also clears the
  current process.\<close>

definition vspacebootinit :: "u64 \<Rightarrow> (unit, kst) kop" where
  "vspacebootinit data_start =
     obind (setupkvm data_start) (\<lambda>t.
     oseq (modify (\<lambda>s. s\<lparr>pviews := (pviews s)\<lparr>kpml4 := t\<rparr>\<rparr>)) (
     oseq vspaceinstallkern
       (modify (\<lambda>s. s\<lparr>cpu := (cpu s)\<lparr>curproc := None\<rparr>\<rparr>))))"

section \<open>Creating, copying and freeing\<close>

definition vspaceinit :: "u64 \<Rightarrow> nat \<Rightarrow> (int, kst) kop" where
  "vspaceinit data_start p =
     obind (setupkvm data_start) (\<lambda>t.
     oseq (modify (upd_vspace p (\<lambda>v. v\<lparr>pgtbl := t\<rparr>))) (
     if t = 0 then ret (-1) else
     oseq (modify (upd_vspace p (\<lambda>v. v\<lparr>regions := map (\<lambda>_. zero_region) (regions v)\<rparr>))) (
     oseq (modify (upd_region (p, VR_CODE) (\<lambda>r. r\<lparr>dir := VRDIR_UP\<rparr>))) (
     oseq (modify (upd_region (p, VR_HEAP) (\<lambda>r. r\<lparr>dir := VRDIR_UP\<rparr>))) (
     oseq (modify (upd_region (p, VR_USTACK) (\<lambda>r. r\<lparr>dir := VRDIR_DOWN\<rparr>)))
       (ret 0))))))"

definition SZ_2G :: u64 where "SZ_2G = 0x80000000"

definition vspaceinitcode :: "nat \<Rightarrow> byte list \<Rightarrow> u64 \<Rightarrow> (unit, kst) kop" where
  "vspaceinitcode p init sz =
     (let stack = SZ_2G in
     oseq (modify (upd_region (p, VR_CODE) (\<lambda>r. r\<lparr>va_base := 0x10000, vsize := PGROUNDUP sz + 2 * PGSIZE\<rparr>))) (
     obind (vradddata (p, VR_CODE) 0x10000 init (ucast sz) VPI_PRESENT VPI_WRITABLE) (\<lambda>r.
     oseq (kassert (r = 0) ''failed to allocate init code data'') (
     obind (vregionaddmap (p, VR_CODE) (0x10000 + PGROUNDUP sz) (2 * PGSIZE) VPI_PRESENT VPI_WRITABLE) (\<lambda>r.
     oseq (kassert (0 \<le> r) ''vregionaddmap'') (
     oseq (modify (upd_region (p, VR_USTACK) (\<lambda>r. r\<lparr>va_base := stack, vsize := PGSIZE\<rparr>))) (
     obind (vregionaddmap (p, VR_USTACK) (stack - PGSIZE) PGSIZE VPI_PRESENT VPI_WRITABLE) (\<lambda>r.
     oseq (kassert (0 \<le> r) ''vregionaddmap'')
       (vspaceupdate p)))))))))"

definition vspaceinitstack :: "nat \<Rightarrow> u64 \<Rightarrow> (int, kst) kop" where
  "vspaceinitstack p start =
     oseq (modify (upd_region (p, VR_USTACK) (\<lambda>r. r\<lparr>va_base := start, vsize := PGSIZE\<rparr>))) (
     obind (vregionaddmap (p, VR_USTACK) (start - PGSIZE) PGSIZE VPI_PRESENT VPI_WRITABLE) (\<lambda>r.
     if r < 0 then ret (-1) else
     oseq (vspaceupdate p) (ret 0)))"

text \<open>The fuel is the number of pages of memory: a list of descriptor pages is not longer.\<close>

fun free_page_desc_list :: "nat \<Rightarrow> u64 \<Rightarrow> (unit, kst) kop" where
  "free_page_desc_list 0 page = hang"
| "free_page_desc_list (Suc k) page =
     oseq (kassert (page mod PGSIZE = 0) ''page % PGSIZE == 0'') (
     if page = 0 then ret () else
     obind (gets (\<lambda>s. vnext (vpi_view (pviews s) page))) (\<lambda>nx.
     oseq (free_page_desc_list k nx) (kfree page)))"

definition vspacefree :: "nat \<Rightarrow> (unit, kst) kop" where
  "vspacefree p =
     oseq (foreach [0..<NREGIONS] (\<lambda>i.
             obind (gets (\<lambda>s. (Suc (unat (npages (kmem s))), pages (get_region (p, i) s)))) (\<lambda>(k, pg).
             oseq (free_page_desc_list k pg) (modify (upd_region (p, i) (\<lambda>_. zero_region)))))) (
     obind (gets (\<lambda>s. pgtbl (pvspace (get_proc p s)))) freevm)"

text \<open>The loop of \<open>copy_vpi_page\<close> over the descriptors of one page; \<open>False\<close> when memory runs out.\<close>

fun copy_infos :: "nat list \<Rightarrow> u64 \<Rightarrow> u64 \<Rightarrow> (bool, kst) kop" where
  "copy_infos [] dst src = ret True"
| "copy_infos (i # is) dst src =
     obind (gets (get_vpi (src, i))) (\<lambda>v.
     if used v = 0 then copy_infos is dst src else
     oseq (modify (upd_vpi (dst, i) (\<lambda>x. x\<lparr>used := used v, present := present v, writable := writable v\<rparr>))) (
     obind kalloc (\<lambda>data.
     if data = 0 then ret False else
     oseq (modify (\<lambda>s. s\<lparr>pviews := (pviews s)\<lparr>byte_view :=
             (byte_view (pviews s))(data := byte_view (pviews s) (page_of (ppn v)))\<rparr>\<rparr>)) (
     oseq (modify (upd_vpi (dst, i) (\<lambda>x. x\<lparr>ppn := PGNUM (V2P data)\<rparr>)))
       (copy_infos is dst src)))))"

text \<open>\<open>store\<close> stores through the pointer \<open>dst\<close>.\<close>

fun copy_vpi_page :: "nat \<Rightarrow> (u64 \<Rightarrow> kst \<Rightarrow> kst) \<Rightarrow> u64 \<Rightarrow> (int, kst) kop" where
  "copy_vpi_page 0 store src = hang"
| "copy_vpi_page (Suc k) store src =
     (if src = 0 then oseq (modify (store 0)) (ret 0) else
      obind kalloc (\<lambda>dst.
      oseq (modify (store dst)) (
      if dst = 0 then ret (-1) else
      oseq (memset_page dst 0) (
      obind (copy_infos [0..<VPIPPAGE] dst src) (\<lambda>ok.
      if \<not> ok then ret (-1) else
      obind (gets (\<lambda>s. vnext (vpi_view (pviews s) src))) (\<lambda>nx.
      copy_vpi_page k (set_vnext dst) nx))))))"

declare copy_vpi_page.simps [simp del] free_page_desc_list.simps [simp del]

fun copy_regions :: "nat list \<Rightarrow> nat \<Rightarrow> (int, kst) kop" where
  "copy_regions [] dst = ret 0"
| "copy_regions (i # is) dst =
     obind (gets (\<lambda>s. (Suc (unat (npages (kmem s))), pages (get_region (dst, i) s)))) (\<lambda>(k, pg).
     obind (copy_vpi_page k (\<lambda>v. upd_region (dst, i) (\<lambda>r. r\<lparr>pages := v\<rparr>)) pg) (\<lambda>r.
     if r < 0 then ret (-1) else copy_regions is dst))"

definition vspacecopy :: "nat \<Rightarrow> nat \<Rightarrow> (int, kst) kop" where
  "vspacecopy dst src =
     oseq (modify (\<lambda>s. upd_vspace dst (\<lambda>v. v\<lparr>regions := regions (pvspace (get_proc src s))\<rparr>) s)) (
     obind (copy_regions [0..<NREGIONS] dst) (\<lambda>r.
     if r < 0 then ret (-1) else
     oseq (vspaceupdate dst) (ret 0)))"

section \<open>Writing to user memory\<close>

fun writetova_loop :: "nat \<Rightarrow> nat \<Rightarrow> u64 \<Rightarrow> u64 \<Rightarrow> byte list \<Rightarrow> u32 \<Rightarrow> (int, kst) kop" where
  "writetova_loop 0 p va lim data sz = hang"
| "writetova_loop (Suc k) p va lim data sz =
     (if \<not> va < lim then ret 0 else
      let d = ucast (PGROUNDUP va - va) :: u32;
          wsz = (if sint d \<le> sint sz then d else sz) in
      obind (gets (\<lambda>s. va2vregion (pvspace (get_proc p s)) va)) (\<lambda>r.
      case r of None \<Rightarrow> ret (-1) | Some i \<Rightarrow>
      obind (va2vpi (p, i) va) (\<lambda>vpi.
      obind (gets (get_vpi vpi)) (\<lambda>v.
      oseq (kassert (used v \<noteq> 0) ''vpi->used'') (
      if writable v = 0 then ret (-1) else
      oseq (write_page (page_of (ppn v)) (unat (va mod PGSIZE)) (take (unat wsz) data))
        (writetova_loop k p (va + scast wsz) lim (drop (unat wsz) data) (sz - wsz)))))))"

declare writetova_loop.simps [simp del]

definition vspacewritetova :: "nat \<Rightarrow> u64 \<Rightarrow> byte list \<Rightarrow> u32 \<Rightarrow> (int, kst) kop" where
  "vspacewritetova p va data sz =
     oseq (kassert (0 < sint sz) ''sz less than or equal to 0'') (
     oseq (kassert (va + scast sz < KERNBASE) ''went over kernel vm base'')
       (writetova_loop (unat sz + 2) p va (va + scast sz) data sz))"

section \<open>Loading a program\<close>

record elfhdr =
  e_magic :: u32
  e_entry :: u64
  e_phoff :: u64
  e_phnum :: u16

record proghdr =
  ph_type :: u32
  ph_flags :: u32
  ph_off :: u64
  ph_vaddr :: u64
  ph_filesz :: u64
  ph_memsz :: u64

definition dec_elfhdr :: "byte list \<Rightarrow> elfhdr" where
  "dec_elfhdr bs = \<lparr>e_magic = le32 (field 0 4 bs), e_entry = le64 (field 24 8 bs),
     e_phoff = le64 (field 32 8 bs), e_phnum = le16 (field 56 2 bs)\<rparr>"

definition dec_proghdr :: "byte list \<Rightarrow> proghdr" where
  "dec_proghdr bs = \<lparr>ph_type = le32 (field 0 4 bs), ph_flags = le32 (field 4 4 bs),
     ph_off = le64 (field 8 8 bs), ph_vaddr = le64 (field 16 8 bs),
     ph_filesz = le64 (field 32 8 bs), ph_memsz = le64 (field 40 8 bs)\<rparr>"

definition ELF_MAGIC :: u32 where "ELF_MAGIC = 0x464C457F"
definition ELF_PROG_LOAD :: u32 where "ELF_PROG_LOAD = 1"
definition ELF_PROG_FLAG_WRITE :: u32 where "ELF_PROG_FLAG_WRITE = 2"

text \<open>The loop of \<open>vspaceloadcode\<close> over the program headers; \<open>n\<close> are left, \<open>first\<close>, \<open>code_end\<close>
  and \<open>sz\<close> are the local variables.  \<open>None\<close> is \<open>goto elf_failure\<close>.\<close>

fun loadcode_loop ::
  "nat \<Rightarrow> (u16 \<Rightarrow> dev_read option) \<Rightarrow> nat \<Rightarrow> iptr \<Rightarrow> u32 \<Rightarrow> bool \<Rightarrow> u64 \<Rightarrow> int \<Rightarrow>
     ((bool \<times> u64 \<times> int) option, kst) kop" where
  "loadcode_loop 0 rd p ip off first code_end sz = ret (Some (first, code_end, sz))"
| "loadcode_loop (Suc n) rd p ip off first code_end sz =
     obind (readi rd ip off 56) (\<lambda>(r, d).
     let ph = dec_proghdr d in
     if r \<noteq> 56 then ret None
     else if ph_type ph \<noteq> ELF_PROG_LOAD then loadcode_loop n rd p ip (off + 56) first code_end sz
     else if ph_memsz ph < ph_filesz ph then ret None
     else if ph_vaddr ph + ph_memsz ph < ph_vaddr ph then ret None
     else
       oseq (kwhen first (modify (upd_region (p, VR_CODE) (\<lambda>x. x\<lparr>va_base := PGROUNDDOWN (ph_vaddr ph)\<rparr>)))) (
       obind (vregionaddmap (p, VR_CODE) (ph_vaddr ph) (ph_memsz ph) VPI_PRESENT
               (if ph_flags ph AND ELF_PROG_FLAG_WRITE \<noteq> 0 then VPI_WRITABLE else VPI_READONLY)) (\<lambda>sz'.
       if sz' < 0 then ret None
       else if ph_vaddr ph mod PGSIZE \<noteq> 0 then ret None
       else
         obind (vrloaddata rd (p, VR_CODE) (ph_vaddr ph) ip (ucast (ph_off ph)) (ucast (ph_filesz ph))) (\<lambda>r.
         if r < 0 then ret None
         else loadcode_loop n rd p ip (off + 56) False (ph_vaddr ph + ph_memsz ph) sz'))))"

declare loadcode_loop.simps [simp del]

definition load_failed :: "iptr \<Rightarrow> (int \<times> u64 option, kst) kop" where
  "load_failed ip = oseq (unlocki (Some ip)) (oseq (irelease ip) (ret (0, None)))"

definition vspaceloadcode ::
  "(u16 \<Rightarrow> dev_read option) \<Rightarrow> nat \<Rightarrow> byte list \<Rightarrow> (int \<times> u64 option, kst) kop" where
  "vspaceloadcode rd p path =
     obind (namei rd path) (\<lambda>r.
     case r of None \<Rightarrow> ret (0, None) | Some ip \<Rightarrow>
     oseq (locki rd (Some ip)) (
     obind (readi rd ip 0 64) (\<lambda>(r, d).
     let elf = dec_elfhdr d in
     if r \<noteq> 64 then load_failed ip
     else if e_magic elf \<noteq> ELF_MAGIC then load_failed ip
     else
       obind (loadcode_loop (unat (e_phnum elf)) rd p ip (ucast (e_phoff elf)) True 0 0) (\<lambda>res.
       case res of None \<Rightarrow> load_failed ip | Some (first, code_end, sz) \<Rightarrow>
       oseq (kassert (\<not> first) ''!first_section'') (
       oseq (modify (upd_region (p, VR_CODE) (\<lambda>x. x\<lparr>vsize := code_end - va_base x\<rparr>))) (
       oseq (modify (upd_region (p, VR_HEAP) (\<lambda>x. x\<lparr>va_base := PGROUNDUP code_end + PGSIZE, vsize := 0\<rparr>))) (
       oseq (unlocki (Some ip)) (
       oseq (irelease ip) (ret (sz, Some (e_entry elf))))))))))) "

end
