(* ===== verification/FsRefs.thy ===== *)
theory FsRefs
  imports Fs
begin

text \<open>
  Reference counts of the inode cache: the contract \<open>ref_counted\<close> of a table of shared objects and
  its interpretation for \<open>iget\<close>, \<open>idup\<close> and \<open>irelease\<close> of \<open>kernel/fs.c\<close>.
\<close>

section \<open>Counting references\<close>


text \<open>The inode cache: at most one slot in use per inode, and no negative count.\<close>

definition icache_inv :: "kst \<Rightarrow> bool" where
  "icache_inv s \<longleftrightarrow> cpu_ok (cpu s) \<and> locks s IcacheLock = free_lock \<and> length (inodes (icache s)) = NINODE \<and>
     (\<forall>x \<in> set (inodes (icache s)). 0 \<le> iref x) \<and>
     (\<forall>i < NINODE. \<forall>j < NINODE. i \<noteq> j \<and> 0 < iref (inodes (icache s) ! i) \<and> 0 < iref (inodes (icache s) ! j) \<longrightarrow>
       (idev (inodes (icache s) ! i), inum (inodes (icache s) ! i)) \<noteq>
       (idev (inodes (icache s) ! j), inum (inodes (icache s) ! j)))"

definition slot_refs :: "u32 \<times> u32 \<Rightarrow> inode \<Rightarrow> int" where
  "slot_refs k x = (if 0 < iref x \<and> (idev x, inum x) = k then iref x else 0)"

definition icache_refs :: "kst \<Rightarrow> u32 \<times> u32 \<Rightarrow> int" where
  "icache_refs s k = sum_list (map (slot_refs k) (inodes (icache s)))"

definition ilive :: "iptr \<Rightarrow> kst \<Rightarrow> bool" where
  "ilive ip s \<longleftrightarrow> (\<exists>i < NINODE. ip = INode i \<and> 0 < iref (inodes (icache s) ! i))"

definition ikey :: "iptr \<Rightarrow> kst \<Rightarrow> u32 \<times> u32" where
  "ikey ip s = (idev (get_inode ip s), inum (get_inode ip s))"





lemma upd_inode_sel [simp]:
  "cpu (upd_inode ip f s) = cpu s" "locks (upd_inode ip f s) = locks s" "slocks (upd_inode ip f s) = slocks s"
  "disk (upd_inode ip f s) = disk s" "bcache (upd_inode ip f s) = bcache s" "ptable (upd_inode ip f s) = ptable s"
  "length (inodes (icache (upd_inode ip f s))) = length (inodes (icache s))"
  "sb (icache (upd_inode ip f s)) = sb (icache s)"
  by (auto simp: upd_inode_def split: iptr.splits)



lemma icache_inv_quiet [simp]: "k = cpu s \<Longrightarrow> icache_inv (s\<lparr>cpu := quiet k\<rparr>) = icache_inv s"
  by (simp add: icache_inv_def)

lemma icache_cpu [simp]:
  "icache_refs (s\<lparr>cpu := c\<rparr>) = icache_refs s" "ilive ip (s\<lparr>cpu := c\<rparr>) = ilive ip s"
  "ikey ip (s\<lparr>cpu := c\<rparr>) = ikey ip s" "upd_inode ip f (s\<lparr>cpu := c\<rparr>) = (upd_inode ip f s)\<lparr>cpu := c\<rparr>"
  by (simp_all add: icache_refs_def ilive_def ikey_def fun_eq_iff)
    (cases ip; simp add: upd_inode_def)












section \<open>Properties\<close>




end
