(* ===== verification/Ring.thy ===== *)
theory Ring
  imports Prelude
begin

text \<open>
  Ring buffers with free-running 32-bit indices: the pipe of \<open>kernel/file.c\<close> (2048 bytes) and the
  input buffer of \<open>kernel/console.c\<close> (128 bytes) store at \<open>index % size\<close> and let the indices wrap
  around at \<open>2 ^ 32\<close>, which both sizes divide.

  The locale \<open>byte_queue\<close> is what the users of such a buffer rely on.
\<close>

section \<open>The content of a ring\<close>

definition ring_content :: "nat \<Rightarrow> u32 \<Rightarrow> u32 \<Rightarrow> (nat \<Rightarrow> 'a) \<Rightarrow> 'a list" where
  "ring_content N r w b = map (\<lambda>i. b ((unat r + i) mod N)) [0..<unat (w - r)]"

lemma length_ring_content [simp]: "length (ring_content N r w b) = unat (w - r)"
  by (simp add: ring_content_def)

lemma nth_ring_content [simp]:
  "i < unat (w - r) \<Longrightarrow> ring_content N r w b ! i = b ((unat r + i) mod N)"
  by (simp add: ring_content_def)

lemma unat_add_mod_ring:
  assumes "N dvd 2 ^ 32"
  shows "unat (r + of_nat i :: u32) mod N = (unat r + i) mod N"
proof -
  have "unat (r + of_nat i :: u32) = (unat r + i) mod 2 ^ 32"
    by (simp add: unat_word_ariths unat_of_nat mod_add_right_eq)
  then show ?thesis using assms by (simp add: mod_mod_cancel)
qed

lemma unat_diff_grow:
  assumes "unat (w - r :: u32) + n < 2 ^ 32"
  shows "unat (w + of_nat n - r) = unat (w - r) + n"
proof -
  have *: "w + of_nat n - r = (w - r) + of_nat n" by simp
  have "unat ((w - r) + of_nat n :: u32) = (unat (w - r) + n) mod 2 ^ 32"
    by (simp add: unat_word_ariths unat_of_nat mod_add_right_eq)
  then show ?thesis unfolding * using assms by simp
qed

lemma unat_diff_shrink:
  assumes "n \<le> unat (w - r :: u32)"
  shows "unat (w - (r + of_nat n)) = unat (w - r) - n"
proof -
  have "unat (w - r) < 2 ^ LENGTH(32)" by (rule unsigned_less)
  then have lt: "n < 2 ^ 32" using assms by simp
  then have n: "unat (of_nat n :: u32) = n" by (simp add: unat_of_nat)
  have *: "w - (r + of_nat n) = (w - r) - of_nat n" by simp
  have "(of_nat n :: u32) \<le> w - r" using assms n by (simp add: word_le_nat_alt)
  from unat_sub [OF this] show ?thesis unfolding * n .
qed

lemma ring_content_put:
  assumes N: "N dvd 2 ^ 32" and room: "unat (w - r) + length xs \<le> N" "N < 2 ^ 32"
    and new: "\<And>i. i < length xs \<Longrightarrow> c ((unat w + i) mod N) = xs ! i"
    and old: "\<And>i. i < unat (w - r) \<Longrightarrow> c ((unat r + i) mod N) = b ((unat r + i) mod N)"
  shows "ring_content N r (w + of_nat (length xs)) c = ring_content N r w b @ xs"
proof (rule nth_equalityI)
  have grow: "unat (w + of_nat (length xs) - r) = unat (w - r) + length xs"
    using room by (intro unat_diff_grow) simp
  then show "length (ring_content N r (w + of_nat (length xs)) c) = length (ring_content N r w b @ xs)"
    by simp
  fix i
  assume i: "i < length (ring_content N r (w + of_nat (length xs)) c)"
  show "ring_content N r (w + of_nat (length xs)) c ! i = (ring_content N r w b @ xs) ! i"
  proof (cases "i < unat (w - r)")
    case True
    then show ?thesis using i grow old by (simp add: nth_append)
  next
    case False
    define j where "j = i - unat (w - r)"
    have j: "j < length xs" "i = unat (w - r) + j" using False i grow by (auto simp: j_def)
    have "(unat r + unat (w - r)) mod N = unat w mod N"
      using unat_add_mod_ring [OF N, of r "unat (w - r)"] by simp
    then have "(unat r + i) mod N = (unat w + j) mod N"
      unfolding j(2) by (metis add.assoc mod_add_left_eq)
    then show ?thesis using i grow j new by (simp add: nth_append)
  qed
qed

lemma ring_content_get:
  assumes N: "N dvd 2 ^ 32" and n: "n \<le> unat (w - r)"
  shows "ring_content N (r + of_nat n) w b = drop n (ring_content N r w b)"
proof (rule nth_equalityI)
  show "length (ring_content N (r + of_nat n) w b) = length (drop n (ring_content N r w b))"
    using unat_diff_shrink [OF n] by simp
  fix i
  assume "i < length (ring_content N (r + of_nat n) w b)"
  then have i: "i < unat (w - r) - n" using unat_diff_shrink [OF n] by simp
  have "(unat (r + of_nat n) + i) mod N = (unat r + n + i) mod N"
    using unat_add_mod_ring [OF N, of r n] by (metis mod_add_left_eq)
  then show "ring_content N (r + of_nat n) w b ! i = drop n (ring_content N r w b) ! i"
    using i unat_diff_shrink [OF n] by (simp add: add.assoc)
qed

section \<open>The contract of a byte queue\<close>

datatype 'b qop = Put "'b list" | Get nat

fun queue_run :: "('b list \<Rightarrow> 'q \<Rightarrow> 'q) \<Rightarrow> (nat \<Rightarrow> 'q \<Rightarrow> 'b list \<times> 'q) \<Rightarrow> 'b qop list \<Rightarrow> 'q \<Rightarrow> 'b list \<times> 'q" where
  "queue_run put get [] q = ([], q)"
| "queue_run put get (Put xs # ops) q = queue_run put get ops (put xs q)"
| "queue_run put get (Get n # ops) q =
     (let (out, q') = get n q; (outs, q'') = queue_run put get ops q' in (out @ outs, q''))"

fun queue_input :: "'b qop list \<Rightarrow> 'b list" where
  "queue_input [] = []"
| "queue_input (Put xs # ops) = xs @ queue_input ops"
| "queue_input (Get n # ops) = queue_input ops"

fun queue_admits ::
  "('b list \<Rightarrow> 'q \<Rightarrow> 'q) \<Rightarrow> (nat \<Rightarrow> 'q \<Rightarrow> 'b list \<times> 'q) \<Rightarrow> (nat \<Rightarrow> 'q \<Rightarrow> bool) \<Rightarrow> (nat \<Rightarrow> 'q \<Rightarrow> bool) \<Rightarrow>
     'b qop list \<Rightarrow> 'q \<Rightarrow> bool" where
  "queue_admits put get can_put can_get [] q = True"
| "queue_admits put get can_put can_get (Put xs # ops) q =
     (can_put (length xs) q \<and> queue_admits put get can_put can_get ops (put xs q))"
| "queue_admits put get can_put can_get (Get n # ops) q =
     (can_get n q \<and> queue_admits put get can_put can_get ops (snd (get n q)))"

locale byte_queue =
  fixes put :: "'b list \<Rightarrow> 'q \<Rightarrow> 'q"
    and get :: "nat \<Rightarrow> 'q \<Rightarrow> 'b list \<times> 'q"
    and content :: "'q \<Rightarrow> 'b list"
    and can_put :: "nat \<Rightarrow> 'q \<Rightarrow> bool"
    and can_get :: "nat \<Rightarrow> 'q \<Rightarrow> bool"
    and inv :: "'q \<Rightarrow> bool"
  assumes put_appends: "inv q \<Longrightarrow> can_put (length xs) q \<Longrightarrow> content (put xs q) = content q @ xs"
    and put_inv: "inv q \<Longrightarrow> can_put (length xs) q \<Longrightarrow> inv (put xs q)"
    and get_takes: "inv q \<Longrightarrow> can_get n q \<Longrightarrow> fst (get n q) @ content (snd (get n q)) = content q"
    and get_inv: "inv q \<Longrightarrow> can_get n q \<Longrightarrow> inv (snd (get n q))"
begin

text \<open>First in, first out: over any run, what came out and what is still inside is what was inside
  and what went in, in order.\<close>

lemma fifo:
  assumes "inv q" "queue_admits put get can_put can_get ops q"
  shows "fst (queue_run put get ops q) @ content (snd (queue_run put get ops q)) = content q @ queue_input ops"
    and "inv (snd (queue_run put get ops q))"
proof -
  have "fst (queue_run put get ops q) @ content (snd (queue_run put get ops q)) = content q @ queue_input ops \<and>
      inv (snd (queue_run put get ops q))"
    using assms
  proof (induction ops arbitrary: q)
    case Nil
    then show ?case by simp
  next
    case (Cons op ops)
    show ?case
    proof (cases op)
      case (Put xs)
      then show ?thesis using Cons.IH [of "put xs q"] Cons.prems put_appends put_inv by simp
    next
      case (Get n)
      have step: "inv (snd (get n q))" "fst (get n q) @ content (snd (get n q)) = content q"
        using Cons.prems Get get_inv get_takes by simp_all
      have "fst (queue_run put get ops (snd (get n q))) @ content (snd (queue_run put get ops (snd (get n q)))) =
          content (snd (get n q)) @ queue_input ops \<and> inv (snd (queue_run put get ops (snd (get n q))))"
        using Cons.IH [OF step(1)] Cons.prems Get by simp
      then show ?thesis using Get step(2) by (simp add: Let_def split_beta)
    qed
  qed
  then show "fst (queue_run put get ops q) @ content (snd (queue_run put get ops q)) = content q @ queue_input ops"
    and "inv (snd (queue_run put get ops q))" by simp_all
qed

end

end
