(* ===== verification/File.thy ===== *)
theory File
  imports FsRefs Kalloc Ring
begin

unbundle bit_operations_syntax

text \<open>
  Open files and pipes (\<open>kernel/file.c\<close>).

  A \<open>struct file_info *\<close> is an index of \<open>file_table\<close>; a \<open>struct pipe *\<close> is the kernel address of
  the page that \<open>kalloc\<close> returned, 0 for the null pointer.  Byte counts are C \<open>int\<close>s; where the
  code compares one with a \<open>uint\<close> the comparison is unsigned, so a count is a \<open>u32\<close> here and
  \<open>sint\<close> reads it.  Bytes that the code copies to the caller's buffer are returned, bytes it takes
  from there are an argument.  The buffer of a pipe is a function on all offsets, so that a copy
  past \<open>PIPE_BUFFER_SIZE\<close> is visible.

  A null pointer that the kernel follows is a page fault in the kernel, \<open>Panic ''trap''\<close>; an array
  index out of range is \<open>Panic ''index''\<close>.  An operation that blocks ends with \<open>Swtch\<close> and
  continues as its \<open>_resume\<close> definition when the scheduler returns to it.
\<close>

section \<open>Tables\<close>

definition get_file :: "nat \<Rightarrow> kst \<Rightarrow> file_info" where
  "get_file g s = file_table s ! g"

definition upd_file :: "nat \<Rightarrow> (file_info \<Rightarrow> file_info) \<Rightarrow> kst \<Rightarrow> kst" where
  "upd_file g f s = s\<lparr>file_table := (file_table s)[g := f (file_table s ! g)]\<rparr>"

definition get_pipe :: "u64 \<Rightarrow> kst \<Rightarrow> pipe" where
  "get_pipe a s = pipe_view (pviews s) a"

definition upd_pipe :: "u64 \<Rightarrow> (pipe \<Rightarrow> pipe) \<Rightarrow> kst \<Rightarrow> kst" where
  "upd_pipe a f s = s\<lparr>pviews := (pviews s)\<lparr>pipe_view :=
     (pipe_view (pviews s))(a := f (pipe_view (pviews s) a))\<rparr>\<rparr>"

text \<open>\<open>myproc()->files[fd]\<close>.\<close>

definition fd_get :: "nat \<Rightarrow> (nat option, kst) kop" where
  "fd_get fd = obind myproc (\<lambda>p. gets (\<lambda>s. files (get_proc p s) ! fd))"

definition fd_set :: "nat \<Rightarrow> nat option \<Rightarrow> (unit, kst) kop" where
  "fd_set fd g = obind myproc (\<lambda>p. modify (upd_proc p (\<lambda>q. q\<lparr>files := (files q)[fd := g]\<rparr>)))"

text \<open>The loop that finds the smallest unused descriptor.\<close>

definition fd_free :: "(nat option, kst) kop" where
  "fd_free = obind myproc (\<lambda>p. gets (\<lambda>s. find_idx (\<lambda>x. x = None) (files (get_proc p s))))"

section \<open>Status and duplication\<close>

definition file_stat :: "(u16 \<Rightarrow> dev_read option) \<Rightarrow> int \<Rightarrow> (int \<times> stat option, kst) kop" where
  "file_stat rd fd =
     (if fd < 0 \<or> int NOFILE \<le> fd then panic ''index'' else
     oseq (acquire FileTableLock) (
     obind (fd_get (nat fd)) (\<lambda>f.
     case f of
       None \<Rightarrow> oseq (release FileTableLock) (ret (-1, None))
     | Some g \<Rightarrow>
         obind (gets (\<lambda>s. fnode (get_file g s))) (\<lambda>node.
         case node of
           None \<Rightarrow> ret (-1, None)
         | Some ip \<Rightarrow>
             oseq (release FileTableLock) (
             obind (concurrent_stati rd ip) (\<lambda>st. ret (0, Some st)))))))"

definition file_dup :: "nat \<Rightarrow> (int, kst) kop" where
  "file_dup fd_copy =
     obind (fd_get fd_copy) (\<lambda>f.
     case f of None \<Rightarrow> ret (-1) | Some g \<Rightarrow>
     obind fd_free (\<lambda>r.
     case r of None \<Rightarrow> ret (-1) | Some fd \<Rightarrow>
     obind (gets (get_file g)) (\<lambda>file.
     if isPipe file then
       if fpipe file = 0 then ret (-1) else
       oseq (acquire (PipeLock (fpipe file))) (
       oseq (kwhen (fmode file = O_RDONLY)
               (modify (upd_pipe (fpipe file) (\<lambda>p. p\<lparr>read_count := read_count p + 1\<rparr>)))) (
       oseq (kwhen (fmode file = O_WRONLY)
               (modify (upd_pipe (fpipe file) (\<lambda>p. p\<lparr>write_count := write_count p + 1\<rparr>)))) (
       oseq (release (PipeLock (fpipe file))) (
       oseq (acquire FileTableLock) (
       oseq (fd_set fd (Some g)) (
       oseq (release FileTableLock) (ret 0)))))))
     else if fnode file = None then ret (-1)
     else
       oseq (acquire FileTableLock) (
       oseq (fd_set fd (Some g)) (
       oseq (modify (upd_file g (\<lambda>x. x\<lparr>ref_count := ref_count x + 1\<rparr>))) (
       oseq (release FileTableLock) (ret (int fd))))))))"

section \<open>Pipes\<close>

definition ring_idx :: "u32 \<Rightarrow> nat" where
  "ring_idx off = unat off mod PIPE_BUFFER_SIZE"

text \<open>Line 98 and 99, and line 140 and 141.\<close>

definition pipe_put :: "byte list \<Rightarrow> pipe \<Rightarrow> pipe" where
  "pipe_put xs p = p\<lparr>pbuffer := put_bytes (ring_idx (write_offset p)) xs (pbuffer p),
     write_offset := write_offset p + of_nat (length xs)\<rparr>"

definition pipe_get :: "u32 \<Rightarrow> pipe \<Rightarrow> byte list \<times> pipe" where
  "pipe_get n p = (get_bytes (ring_idx (read_offset p)) (unat n) (pbuffer p),
     p\<lparr>read_offset := read_offset p + n\<rparr>)"

definition pipe_write_loop :: "u64 \<Rightarrow> byte list \<Rightarrow> u32 \<Rightarrow> (int, kst) kop" where
  "pipe_write_loop a buf nr_bytes =
     obind (gets (get_pipe a)) (\<lambda>p.
     if of_nat PIPE_BUFFER_SIZE - write_offset p + read_offset p < nr_bytes then
       if read_count p = 0 then oseq (release (PipeLock a)) (ret (-1))
       else oseq (sleep (ChPipeNotFull a) (Some (PipeLock a))) hang
     else
       oseq (modify (upd_pipe a (pipe_put (take (unat nr_bytes) buf)))) (
       oseq (wakeup (ChPipeNotEmpty a)) (
       oseq (release (PipeLock a)) (ret (sint nr_bytes)))))"

definition pipe_write_resume :: "bool \<Rightarrow> u64 \<Rightarrow> byte list \<Rightarrow> u32 \<Rightarrow> (int, kst) kop" where
  "pipe_write_resume en a buf nr_bytes =
     oseq (sleep_resume en (PipeLock a)) (pipe_write_loop a buf nr_bytes)"

definition pipe_write :: "nat \<Rightarrow> byte list \<Rightarrow> u32 \<Rightarrow> (int, kst) kop" where
  "pipe_write fd buf nr_bytes =
     (if int PIPE_BUFFER_SIZE < sint nr_bytes then ret (-1) else
     obind (fd_get fd) (\<lambda>f.
     case f of None \<Rightarrow> panic ''trap'' | Some g \<Rightarrow>
     obind (gets (\<lambda>s. fpipe (get_file g s))) (\<lambda>a.
     if a = 0 then panic ''trap'' else
     oseq (acquire (PipeLock a)) (
     obind (gets (\<lambda>s. read_count (get_pipe a s))) (\<lambda>readers.
     if readers = 0 then oseq (release (PipeLock a)) (ret (-1))
     else pipe_write_loop a buf nr_bytes)))))"

definition pipe_read_copy :: "u64 \<Rightarrow> u32 \<Rightarrow> (int \<times> byte list, kst) kop" where
  "pipe_read_copy a nr_bytes =
     obind (gets (\<lambda>s. fst (pipe_get nr_bytes (get_pipe a s)))) (\<lambda>bytes.
     oseq (modify (upd_pipe a (\<lambda>p. snd (pipe_get nr_bytes p)))) (
     oseq (wakeup (ChPipeNotFull a)) (
     oseq (release (PipeLock a)) (ret (sint nr_bytes, bytes)))))"

definition pipe_read_loop :: "u64 \<Rightarrow> u32 \<Rightarrow> (int \<times> byte list, kst) kop" where
  "pipe_read_loop a nr_bytes =
     obind (gets (get_pipe a)) (\<lambda>p.
     if write_offset p - read_offset p < nr_bytes then
       if write_count p = 0 then pipe_read_copy a (write_offset p - read_offset p)
       else oseq (sleep (ChPipeNotEmpty a) (Some (PipeLock a))) hang
     else pipe_read_copy a nr_bytes)"

definition pipe_read_resume :: "bool \<Rightarrow> u64 \<Rightarrow> u32 \<Rightarrow> (int \<times> byte list, kst) kop" where
  "pipe_read_resume en a nr_bytes =
     oseq (sleep_resume en (PipeLock a)) (pipe_read_loop a nr_bytes)"

definition pipe_read :: "nat \<Rightarrow> u32 \<Rightarrow> (int \<times> byte list, kst) kop" where
  "pipe_read fd nr_bytes =
     obind (fd_get fd) (\<lambda>f.
     case f of None \<Rightarrow> panic ''trap'' | Some g \<Rightarrow>
     obind (gets (\<lambda>s. fpipe (get_file g s))) (\<lambda>a.
     if a = 0 then panic ''trap'' else
     oseq (acquire (PipeLock a)) (
     obind (gets (get_pipe a)) (\<lambda>p.
     if write_count p = 0 then pipe_read_copy a (write_offset p - read_offset p)
     else pipe_read_loop a nr_bytes))))"

section \<open>Reading and writing\<close>

definition advance :: "nat \<Rightarrow> int \<Rightarrow> (unit, kst) kop" where
  "advance fd n =
     oseq (acquire FileTableLock) (
     obind (fd_get fd) (\<lambda>f.
     case f of None \<Rightarrow> panic ''trap'' | Some g \<Rightarrow>
     oseq (modify (upd_file g (\<lambda>x. x\<lparr>foffset := foffset x + of_int n\<rparr>)))
       (release FileTableLock)))"

definition file_write ::
  "(u16 \<Rightarrow> dev_read option) \<Rightarrow> (u16 \<Rightarrow> dev_write option) \<Rightarrow> nat \<Rightarrow> byte list \<Rightarrow> u32 \<Rightarrow> (int, kst) kop" where
  "file_write rd wr fd buf nr_bytes =
     obind (fd_get fd) (\<lambda>f.
     case f of None \<Rightarrow> ret (-1) | Some g \<Rightarrow>
     obind (gets (get_file g)) (\<lambda>file.
     if fmode file = O_RDONLY then ret (-1)
     else if isPipe file then pipe_write fd buf nr_bytes
     else case fnode file of
       None \<Rightarrow> panic ''locki''
     | Some ip \<Rightarrow>
         obind (concurrent_writei rd wr ip (take (unat nr_bytes) buf) (foffset file)) (\<lambda>n.
         oseq (advance fd n) (ret n))))"

definition file_read ::
  "(u16 \<Rightarrow> dev_read option) \<Rightarrow> nat \<Rightarrow> u32 \<Rightarrow> (int \<times> byte list, kst) kop" where
  "file_read rd fd nr_bytes =
     obind (fd_get fd) (\<lambda>f.
     case f of None \<Rightarrow> ret (-1, []) | Some g \<Rightarrow>
     obind (gets (get_file g)) (\<lambda>file.
     if fmode file = O_WRONLY then ret (-1, [])
     else if isPipe file then pipe_read fd nr_bytes
     else case fnode file of
       None \<Rightarrow> panic ''locki''
     | Some ip \<Rightarrow>
         obind (concurrent_readi rd ip (foffset file) nr_bytes) (\<lambda>(n, bytes).
         oseq (advance fd n) (ret (n, bytes)))))"

section \<open>Closing\<close>

text \<open>Lines 177--190 and 192--205: the last descriptor of one end of a pipe.  \<open>other\<close> is the number
  of descriptors of the other end and \<open>ch\<close> the channel its processes sleep on.\<close>

definition close_end :: "nat \<Rightarrow> u64 \<Rightarrow> u32 \<Rightarrow> chan \<Rightarrow> (unit, kst) kop" where
  "close_end g a other ch =
     oseq (if other = 0 then oseq (release (PipeLock a)) (kfree a)
           else oseq (wakeup ch) (release (PipeLock a)))
       (modify (upd_file g (\<lambda>x. x\<lparr>fpipe := 0, foffset := 0, fmode := 0, ref_count := 0, gfd := 0\<rparr>)))"

definition file_close_pipe :: "nat \<Rightarrow> nat \<Rightarrow> (int, kst) kop" where
  "file_close_pipe fd g =
     obind (gets (get_file g)) (\<lambda>file. let a = fpipe file in
     if a = 0 then ret (-1) else
     oseq (acquire (PipeLock a)) (
     oseq (if fmode file = O_RDONLY then
             oseq (modify (upd_pipe a (\<lambda>p. p\<lparr>read_count := read_count p - 1\<rparr>))) (
             obind (gets (get_pipe a)) (\<lambda>p.
             kwhen (read_count p = 0) (close_end (gfd file) a (write_count p) (ChPipeNotFull a))))
           else
             oseq (modify (upd_pipe a (\<lambda>p. p\<lparr>write_count := write_count p - 1\<rparr>))) (
             obind (gets (get_pipe a)) (\<lambda>p.
             kwhen (write_count p = 0) (close_end (gfd file) a (read_count p) (ChPipeNotEmpty a))))) (
     obind (gets (\<lambda>s. fpipe (get_file g s))) (\<lambda>b.
     oseq (kwhen (b \<noteq> 0) (release (PipeLock b))) (
     oseq (release FileTableLock) (
     oseq (fd_set fd None) (ret 0)))))))"

definition file_close :: "nat \<Rightarrow> (int, kst) kop" where
  "file_close fd =
     obind (fd_get fd) (\<lambda>f.
     case f of None \<Rightarrow> ret (-1) | Some g \<Rightarrow>
     oseq (acquire FileTableLock) (
     obind (gets (get_file g)) (\<lambda>file.
     if isPipe file then file_close_pipe fd g
     else
       oseq (if 1 < ref_count file
             then modify (upd_file g (\<lambda>x. x\<lparr>ref_count := ref_count x - 1\<rparr>))
             else
               obind (gets (\<lambda>s. fnode (get_file (gfd file) s))) (\<lambda>node.
               case node of None \<Rightarrow> panic ''trap'' | Some ip \<Rightarrow>
               oseq (modify (upd_inode ip (\<lambda>x. x\<lparr>iref := iref x - 1\<rparr>))) (
               obind (gets (\<lambda>s. iref (get_inode ip s))) (\<lambda>inode_refcount.
               oseq (kwhen (inode_refcount = 0) (irelease ip))
                 (modify (upd_file (gfd file) (\<lambda>x. x\<lparr>fnode := None, foffset := 0, fmode := 0,
                    ref_count := 0, fpath := None, gfd := 0\<rparr>))))))) (
       oseq (release FileTableLock) (
       oseq (fd_set fd None) (ret 0))))))"

section \<open>Opening\<close>

text \<open>Lines 256--281 of \<open>file_open\<close>: put the file in the table and in the descriptor.\<close>

definition file_install :: "u32 \<Rightarrow> byte list \<Rightarrow> iptr \<Rightarrow> nat \<Rightarrow> (int, kst) kop" where
  "file_install file_mode file_path node fd =
     oseq (acquire FileTableLock) (
     obind (gets (\<lambda>s. find_idx (\<lambda>x. ref_count x = 0) (file_table s))) (\<lambda>r.
     case r of
       None \<Rightarrow> oseq (release FileTableLock) (ret (-1))
     | Some g \<Rightarrow>
         oseq (modify (upd_file g (\<lambda>_. \<lparr>fnode = Some node, fpipe = 0, isPipe = False, foffset = 0,
                 fmode = file_mode, ref_count = 1, fpath = Some file_path, gfd = g\<rparr>))) (
         oseq (fd_set fd (Some g)) (
         oseq (release FileTableLock) (ret (int fd))))))"

definition file_open :: "(u16 \<Rightarrow> dev_read option) \<Rightarrow> u32 \<Rightarrow> byte list \<Rightarrow> (int, kst) kop" where
  "file_open rd file_mode file_path =
     obind (iopen rd file_path) (\<lambda>r.
     case r of None \<Rightarrow> ret (-1) | Some node \<Rightarrow>
     obind (gets (\<lambda>s. itype (get_inode node s))) (\<lambda>ty.
     if ty = T_FILE \<and> file_mode \<noteq> O_RDONLY then ret (-1) else
     obind fd_free (\<lambda>fd.
     case fd of None \<Rightarrow> ret (-1) | Some fd \<Rightarrow>
     file_install file_mode file_path node fd)))"

text \<open>The two loops of \<open>pipe\<close> that store the first two indices that satisfy a test in an array of
  two \<open>int\<close>s, which keeps its old values where fewer are found.\<close>

definition first_two :: "('a \<Rightarrow> bool) \<Rightarrow> 'a list \<Rightarrow> int list \<Rightarrow> int list" where
  "first_two P xs arr =
     (let found = map int (take 2 (filter (\<lambda>i. P (xs ! i)) [0..<length xs]))
      in found @ drop (length found) arr)"

definition pipe_file :: "u64 \<Rightarrow> u32 \<Rightarrow> nat \<Rightarrow> file_info" where
  "pipe_file a md g = \<lparr>fnode = None, fpipe = a, isPipe = True, foffset = 0, fmode = md,
     ref_count = 1, fpath = None, gfd = g\<rparr>"

definition fd_set_int :: "int \<Rightarrow> nat \<Rightarrow> (unit, kst) kop" where
  "fd_set_int fd g =
     (if fd < 0 \<or> int NOFILE \<le> fd then panic ''index'' else fd_set (nat fd) (Some g))"

definition pipe :: "int list \<Rightarrow> (int \<times> int list, kst) kop" where
  "pipe fd_arr =
     obind kalloc (\<lambda>a.
     if a = 0 then ret (-1, fd_arr) else
     oseq (modify (upd_pipe a (\<lambda>p. p\<lparr>read_count := 1, write_count := 1, read_offset := 0, write_offset := 0\<rparr>))) (
     oseq (initlock (PipeLock a)) (
     obind myproc (\<lambda>p.
     obind (gets (\<lambda>s. first_two (\<lambda>x. x = None) (files (get_proc p s)) fd_arr)) (\<lambda>arr.
     if arr ! 1 = -1 then ret (-1, arr) else
     oseq (acquire FileTableLock) (
     obind (gets (\<lambda>s. first_two (\<lambda>x. ref_count x = 0) (file_table s) [-1, -1])) (\<lambda>gfd'.
     if gfd' ! 1 = -1 then oseq (release FileTableLock) (ret (-1, arr)) else
     let g0 = nat (gfd' ! 0); g1 = nat (gfd' ! 1) in
     oseq (modify (upd_file g0 (\<lambda>_. pipe_file a O_RDONLY g0))) (
     oseq (modify (upd_file g1 (\<lambda>_. pipe_file a O_WRONLY g1))) (
     oseq (fd_set_int (arr ! 0) g0) (
     oseq (fd_set_int (arr ! 1) g1) (
     oseq (release FileTableLock) (ret (0, arr)))))))))))))"

section \<open>A pipe is a queue\<close>

definition pipe_content :: "pipe \<Rightarrow> byte list" where
  "pipe_content p = ring_content PIPE_BUFFER_SIZE (read_offset p) (write_offset p) (pbuffer p)"

definition pipe_inv :: "pipe \<Rightarrow> bool" where
  "pipe_inv p \<longleftrightarrow> unat (write_offset p - read_offset p) \<le> PIPE_BUFFER_SIZE"

text \<open>There is room, and the copy does not cross the end of the buffer.\<close>

definition pipe_can_put :: "nat \<Rightarrow> pipe \<Rightarrow> bool" where
  "pipe_can_put n p \<longleftrightarrow> unat (write_offset p - read_offset p) + n \<le> PIPE_BUFFER_SIZE \<and>
     ring_idx (write_offset p) + n \<le> PIPE_BUFFER_SIZE"

definition pipe_can_get :: "nat \<Rightarrow> pipe \<Rightarrow> bool" where
  "pipe_can_get n p \<longleftrightarrow> n \<le> unat (write_offset p - read_offset p) \<and>
     ring_idx (read_offset p) + n \<le> PIPE_BUFFER_SIZE"

lemma pipe_size_dvd: "PIPE_BUFFER_SIZE dvd 2 ^ 32"
  by (simp add: PIPE_BUFFER_SIZE_def)

lemma ring_idx_add:
  assumes "ring_idx w + n \<le> PIPE_BUFFER_SIZE" "i < n"
  shows "(unat w + i) mod PIPE_BUFFER_SIZE = ring_idx w + i"
proof -
  have "(unat w + i) mod PIPE_BUFFER_SIZE = (ring_idx w + i) mod PIPE_BUFFER_SIZE"
    unfolding ring_idx_def by (rule mod_add_left_eq [symmetric])
  also have "\<dots> = ring_idx w + i" using assms by simp
  finally show ?thesis .
qed

lemma ring_slots_distinct:
  fixes r w :: u32
  assumes "N dvd 2 ^ 32" "i < unat (w - r)" "unat (w - r) + j < N"
  shows "(unat r + i) mod N \<noteq> (unat w + j) mod N"
proof
  assume eq: "(unat r + i) mod N = (unat w + j) mod N"
  have "unat w mod N = (unat r + unat (w - r)) mod N"
    using unat_add_mod_ring [OF assms(1), of r "unat (w - r)"] by simp
  then have "(unat w + j) mod N = (unat r + (unat (w - r) + j)) mod N"
    by (metis add.assoc mod_add_left_eq)
  then have "(unat r + i) mod N = (unat r + (unat (w - r) + j)) mod N" using eq by simp
  then have "N dvd (unat r + (unat (w - r) + j)) - (unat r + i)"
    using assms(2) by (subst (asm) eq_commute, subst (asm) mod_eq_dvd_iff_nat) simp_all
  then have "N \<le> unat (w - r) + j - i" using assms(2) by (intro dvd_imp_le) simp_all
  then show False using assms(2,3) by simp
qed

lemma pipe_put_appends:
  assumes "pipe_can_put (length xs) p"
  shows "pipe_content (pipe_put xs p) = pipe_content p @ xs"
  unfolding pipe_content_def pipe_put_def
proof (simp, rule ring_content_put [OF pipe_size_dvd])
  let ?w = "write_offset p" and ?r = "read_offset p"
  show "unat (?w - ?r) + length xs \<le> PIPE_BUFFER_SIZE" using assms by (simp add: pipe_can_put_def)
  show "PIPE_BUFFER_SIZE < 2 ^ 32" by (simp add: PIPE_BUFFER_SIZE_def)
  show "put_bytes (ring_idx ?w) xs (pbuffer p) ((unat ?w + i) mod PIPE_BUFFER_SIZE) = xs ! i" if "i < length xs" for i
    using that assms ring_idx_add [of ?w "length xs" i] by (simp add: pipe_can_put_def put_bytes_def)
  show "put_bytes (ring_idx ?w) xs (pbuffer p) ((unat ?r + i) mod PIPE_BUFFER_SIZE) =
      pbuffer p ((unat ?r + i) mod PIPE_BUFFER_SIZE)" if i: "i < unat (?w - ?r)" for i
  proof -
    have "(unat ?r + i) mod PIPE_BUFFER_SIZE \<noteq> ring_idx ?w + j" if j: "j < length xs" for j
    proof -
      have "unat (?w - ?r) + j < PIPE_BUFFER_SIZE" using j assms by (simp add: pipe_can_put_def)
      from ring_slots_distinct [OF pipe_size_dvd i this] show ?thesis
        using ring_idx_add [of ?w "length xs" j] j assms by (simp add: pipe_can_put_def)
    qed
    then show ?thesis
      by (auto simp: put_bytes_def) (metis add_diff_inverse_nat add_less_cancel_left not_less)
  qed
qed

lemma pipe_get_takes:
  assumes "pipe_can_get n p"
  shows "fst (pipe_get (of_nat n) p) = take n (pipe_content p)"
    and "pipe_content (snd (pipe_get (of_nat n) p)) = drop n (pipe_content p)"
proof -
  let ?w = "write_offset p" and ?r = "read_offset p"
  have n: "n \<le> unat (?w - ?r)" "ring_idx ?r + n \<le> PIPE_BUFFER_SIZE"
    using assms by (simp_all add: pipe_can_get_def)
  then have "unat (of_nat n :: u32) = n" by (simp add: unat_of_nat PIPE_BUFFER_SIZE_def)
  then show "fst (pipe_get (of_nat n) p) = take n (pipe_content p)"
    using n by (intro nth_equalityI)
      (simp_all add: pipe_get_def get_bytes_def pipe_content_def ring_idx_add [OF n(2)])
  show "pipe_content (snd (pipe_get (of_nat n) p)) = drop n (pipe_content p)"
    using ring_content_get [OF pipe_size_dvd n(1)] by (simp add: pipe_get_def pipe_content_def)
qed

interpretation pipe_queue: byte_queue pipe_put "\<lambda>n. pipe_get (of_nat n)" pipe_content pipe_can_put pipe_can_get pipe_inv
proof unfold_locales
  fix p xs n
  show "pipe_inv p \<Longrightarrow> pipe_can_put (length xs) p \<Longrightarrow> pipe_content (pipe_put xs p) = pipe_content p @ xs"
    by (rule pipe_put_appends)
  show "pipe_inv p \<Longrightarrow> pipe_can_put (length xs) p \<Longrightarrow> pipe_inv (pipe_put xs p)"
    using unat_diff_grow [of "write_offset p" "read_offset p" "length xs"]
    by (simp add: pipe_inv_def pipe_can_put_def pipe_put_def PIPE_BUFFER_SIZE_def)
  show "pipe_inv p \<Longrightarrow> pipe_can_get n p \<Longrightarrow>
      fst (pipe_get (of_nat n) p) @ pipe_content (snd (pipe_get (of_nat n) p)) = pipe_content p"
    using pipe_get_takes [of n p] by simp
  show "pipe_inv p \<Longrightarrow> pipe_can_get n p \<Longrightarrow> pipe_inv (snd (pipe_get (of_nat n) p))"
    using unat_diff_shrink [of n "write_offset p" "read_offset p"]
    by (simp add: pipe_inv_def pipe_can_get_def pipe_get_def)
qed

section \<open>Pipes through file descriptors\<close>

definition fd_pipe :: "nat \<Rightarrow> u64 \<Rightarrow> kst \<Rightarrow> bool" where
  "fd_pipe fd a s \<longleftrightarrow> a \<noteq> 0 \<and> (\<exists>p g. curproc (cpu s) = Some p \<and> p < length (procs (ptable s)) \<and>
     files (get_proc p s) ! fd = Some g \<and> fpipe (get_file g s) = a)"

definition pipe_idle :: "u64 \<Rightarrow> kst \<Rightarrow> bool" where
  "pipe_idle a s \<longleftrightarrow> cpu_ok (cpu s) \<and> locks s (PipeLock a) = free_lock \<and> locks s PtableLock = free_lock"

definition wake_all :: "chan \<Rightarrow> kst \<Rightarrow> ptable_state" where
  "wake_all c s = (ptable s)\<lparr>procs := map (wake (Some c)) (procs (ptable s))\<rparr>"

lemma upd_pipe_sel [simp]:
  "cpu (upd_pipe a f s) = cpu s" "locks (upd_pipe a f s) = locks s" "ptable (upd_pipe a f s) = ptable s"
  "file_table (upd_pipe a f s) = file_table s"
  "get_pipe b (upd_pipe a f s) = (if b = a then f (get_pipe a s) else get_pipe b s)"
  by (simp_all add: upd_pipe_def get_pipe_def)

lemma get_pipe_frame [simp]:
  "get_pipe a (s\<lparr>cpu := c\<rparr>) = get_pipe a s" "get_pipe a (s\<lparr>locks := k\<rparr>) = get_pipe a s"
  "get_pipe a (s\<lparr>ptable := pt\<rparr>) = get_pipe a s" "get_pipe a (s\<lparr>file_table := ft\<rparr>) = get_pipe a s"
  by (simp_all add: get_pipe_def)

lemma get_file_frame [simp]:
  "get_file g (s\<lparr>cpu := c\<rparr>) = get_file g s" "get_file g (s\<lparr>locks := k\<rparr>) = get_file g s"
  "get_file g (s\<lparr>ptable := pt\<rparr>) = get_file g s" "get_file g (s\<lparr>pviews := pv\<rparr>) = get_file g s"
  by (simp_all add: get_file_def)

lemma upd_pipe_frame:
  "upd_pipe a f (s\<lparr>cpu := c\<rparr>) = (upd_pipe a f s)\<lparr>cpu := c\<rparr>"
  "upd_pipe a f (s\<lparr>locks := k\<rparr>) = (upd_pipe a f s)\<lparr>locks := k\<rparr>"
  by (simp_all add: upd_pipe_def kst_comm)

lemma wp_fd_get [wp_rules]:
  "wp (fd_get fd) Q s \<longleftrightarrow> (\<exists>p. curproc (cpu s) = Some p \<and> Q (files (get_proc p s) ! fd) s)"
  by (simp add: fd_get_def wp_rules)

text \<open>The end of a transfer: change the pipe, wake the other end, release the lock.\<close>

lemma wp_pipe_finish:
  assumes idle: "pipe_idle a s"
  shows "wp (oseq (modify (upd_pipe a f)) (oseq (wakeup c) (oseq (release (PipeLock a)) (ret v)))) Q
       (s\<lparr>locks := (locks s)(PipeLock a := held_lock), cpu := push_cpu (cpu s)\<rparr>) =
     Q v ((upd_pipe a f s)\<lparr>ptable := wake_all c s, cpu := quiet (cpu s)\<rparr>)"
proof -
  let ?h = "s\<lparr>locks := (locks s)(PipeLock a := held_lock), cpu := push_cpu (cpu s)\<rparr>"
  let ?t = "upd_pipe a f ?h"
  have ok: "cpu_ok (cpu s)" and lk: "(locks s)(PipeLock a := free_lock) = locks s"
    using idle by (simp_all add: pipe_idle_def restore_lock)
  have 1: "cpu_ok (cpu ?t)" "locks ?t PtableLock = free_lock"
    using idle by (simp_all add: pipe_idle_def)
  have 2: "quiet (push_cpu (cpu s)) = push_cpu (cpu s)"
    using ok by (auto simp: quiet_def push_cpu_def cpu_ok_def)
  have "wp (oseq (modify (upd_pipe a f)) (oseq (wakeup c) (oseq (release (PipeLock a)) (ret v)))) Q ?h =
      wp (wakeup c) (\<lambda>_. wp (oseq (release (PipeLock a)) (ret v)) Q) ?t"
    by (simp add: wp_rules)
  also have "\<dots> = wp (oseq (release (PipeLock a)) (ret v)) Q
      (?t\<lparr>ptable := (ptable ?t)\<lparr>procs := map (wake (Some c)) (procs (ptable ?t))\<rparr>, cpu := quiet (cpu ?t)\<rparr>)"
    by (rule wp_wakeup [OF 1])
  also have "\<dots> = Q v ((upd_pipe a f s)\<lparr>ptable := wake_all c s, cpu := quiet (cpu s)\<rparr>)"
    using ok 2 by (auto simp: wp_rules upd_pipe_def wake_all_def kst_comm lk locks_id cpu_ok_def)
  finally show ?thesis .
qed

lemma wp_pipe_write:
  assumes "fd_pipe fd a s" "pipe_idle a s" "read_count (get_pipe a s) \<noteq> 0" "sint nr \<le> int PIPE_BUFFER_SIZE"
    and room: "\<not> of_nat PIPE_BUFFER_SIZE - write_offset (get_pipe a s) + read_offset (get_pipe a s) < nr"
  shows "wp (pipe_write fd buf nr) Q s =
     Q (sint nr) ((upd_pipe a (pipe_put (take (unat nr) buf)) s)\<lparr>ptable := wake_all (ChPipeNotEmpty a) s, cpu := quiet (cpu s)\<rparr>)"
proof -
  obtain p g where fd: "a \<noteq> 0" "curproc (cpu s) = Some p" "files (get_proc p s) ! fd = Some g" "fpipe (get_file g s) = a"
    using assms(1) by (auto simp: fd_pipe_def)
  let ?h = "s\<lparr>locks := (locks s)(PipeLock a := held_lock), cpu := push_cpu (cpu s)\<rparr>"
  have "wp (pipe_write fd buf nr) Q s = wp (pipe_write_loop a buf nr) Q ?h"
    using assms(2,3,4) fd by (simp add: pipe_write_def wp_rules kst_comm pipe_idle_def)
  also have "\<dots> = wp (oseq (modify (upd_pipe a (pipe_put (take (unat nr) buf))))
      (oseq (wakeup (ChPipeNotEmpty a)) (oseq (release (PipeLock a)) (ret (sint nr))))) Q ?h"
    using room by (simp add: pipe_write_loop_def wp_obind wp_gets)
  finally show ?thesis by (simp only: wp_pipe_finish [OF assms(2)])
qed

lemma wp_pipe_read:
  assumes "fd_pipe fd a s" "pipe_idle a s" "write_count (get_pipe a s) \<noteq> 0"
    and avail: "\<not> write_offset (get_pipe a s) - read_offset (get_pipe a s) < nr"
  shows "wp (pipe_read fd nr) Q s =
     Q (sint nr, fst (pipe_get nr (get_pipe a s)))
       ((upd_pipe a (\<lambda>p. snd (pipe_get nr p)) s)\<lparr>ptable := wake_all (ChPipeNotFull a) s, cpu := quiet (cpu s)\<rparr>)"
proof -
  obtain p g where fd: "a \<noteq> 0" "curproc (cpu s) = Some p" "files (get_proc p s) ! fd = Some g" "fpipe (get_file g s) = a"
    using assms(1) by (auto simp: fd_pipe_def)
  let ?h = "s\<lparr>locks := (locks s)(PipeLock a := held_lock), cpu := push_cpu (cpu s)\<rparr>"
  have "wp (pipe_read fd nr) Q s = wp (pipe_read_copy a nr) Q ?h"
    using assms(2,3) avail fd by (simp add: pipe_read_def pipe_read_loop_def wp_rules kst_comm pipe_idle_def)
  also have "\<dots> = wp (oseq (modify (upd_pipe a (\<lambda>p. snd (pipe_get nr p))))
      (oseq (wakeup (ChPipeNotFull a)) (oseq (release (PipeLock a)) (ret (sint nr, fst (pipe_get nr (get_pipe a s))))))) Q ?h"
    by (simp add: pipe_read_copy_def wp_obind wp_gets)
  finally show ?thesis by (simp only: wp_pipe_finish [OF assms(2)])
qed

lemma get_proc_wake_all:
  "p < length (procs (ptable s)) \<Longrightarrow> get_proc p (u\<lparr>ptable := wake_all c s\<rparr>) = wake (Some c) (get_proc p s)"
  by (simp add: get_proc_def wake_all_def)

lemma wake_all_length [simp]: "length (procs (wake_all c s)) = length (procs (ptable s))"
  by (simp add: wake_all_def)

text \<open>What a transfer on the pipe leaves as it was for both ends.\<close>

lemma fd_pipe_after:
  "fd_pipe fd a s \<Longrightarrow> fd_pipe fd a ((upd_pipe b f s)\<lparr>ptable := wake_all c s, cpu := quiet (cpu s)\<rparr>)"
  by (auto simp: fd_pipe_def get_proc_wake_all get_file_def)

lemma pipe_idle_after:
  "pipe_idle a s \<Longrightarrow> pipe_idle a ((upd_pipe b f s)\<lparr>ptable := pt, cpu := quiet (cpu s)\<rparr>)"
  by (simp add: pipe_idle_def)

lemma small_count:
  assumes "n \<le> PIPE_BUFFER_SIZE"
  shows "unat (of_nat n :: u32) = n" "sint (of_nat n :: u32) = int n"
proof -
  show 1: "unat (of_nat n :: u32) = n" using assms by (simp add: unat_of_nat PIPE_BUFFER_SIZE_def)
  have "unat (of_nat n :: u32) < 2 ^ 31" using assms unfolding 1 by (simp add: PIPE_BUFFER_SIZE_def)
  from sint_u32 [OF this] show "sint (of_nat n :: u32) = int n"
    using 1 by (metis uint_nat)
qed

lemma pipe_room:
  assumes "unat (w - r :: u32) + n \<le> PIPE_BUFFER_SIZE"
  shows "\<not> of_nat PIPE_BUFFER_SIZE - w + r < of_nat n"
proof -
  have *: "of_nat PIPE_BUFFER_SIZE - w + r = of_nat PIPE_BUFFER_SIZE - (w - r)" by simp
  have N: "unat (of_nat PIPE_BUFFER_SIZE :: u32) = PIPE_BUFFER_SIZE" by (simp add: small_count)
  have "w - r \<le> of_nat PIPE_BUFFER_SIZE" using assms N by (simp add: word_le_nat_alt)
  from unat_sub [OF this] have "unat (of_nat PIPE_BUFFER_SIZE - (w - r)) = PIPE_BUFFER_SIZE - unat (w - r)"
    unfolding N .
  then have "n \<le> unat (of_nat PIPE_BUFFER_SIZE - (w - r))" using assms by simp
  then have "of_nat n \<le> of_nat PIPE_BUFFER_SIZE - (w - r)"
    using assms small_count(1) [of n] by (simp add: word_le_nat_alt)
  then show ?thesis unfolding * by (simp add: not_less)
qed

section \<open>Properties\<close>

text \<open>C9: a pipe is first-in first-out.  Over any sequence of writes and reads that fit in the buffer
  and do not cross its end, the bytes that were read followed by the bytes still in the pipe are the
  bytes that were in it followed by the bytes that were written, also when the 32-bit offsets wrap.\<close>

theorem pipe_fifo:
  assumes "pipe_inv p" "queue_admits pipe_put (\<lambda>n. pipe_get (of_nat n)) pipe_can_put pipe_can_get ops p"
  shows "fst (queue_run pipe_put (\<lambda>n. pipe_get (of_nat n)) ops p) @
      pipe_content (snd (queue_run pipe_put (\<lambda>n. pipe_get (of_nat n)) ops p)) = pipe_content p @ queue_input ops \<and>
    pipe_inv (snd (queue_run pipe_put (\<lambda>n. pipe_get (of_nat n)) ops p))"
  using pipe_queue.fifo [OF assms] by simp

definition demo_pipe :: "u32 \<Rightarrow> pipe" where
  "demo_pipe off = \<lparr>read_count = 1, write_count = 1, read_offset = off, write_offset = off, pbuffer = (\<lambda>_. 0)\<rparr>"

theorem pipe_fifo_witness:
  "queue_admits pipe_put (\<lambda>n. pipe_get (of_nat n)) pipe_can_put pipe_can_get [Put [7, 8, 9], Get 2, Put [5]] (demo_pipe 2040) \<and>
   fst (queue_run pipe_put (\<lambda>n. pipe_get (of_nat n)) [Put [7, 8, 9], Get 2, Put [5]] (demo_pipe 2040)) @
      pipe_content (snd (queue_run pipe_put (\<lambda>n. pipe_get (of_nat n)) [Put [7, 8, 9], Get 2, Put [5]] (demo_pipe 2040))) =
      pipe_content (demo_pipe 2040) @ [7, 8, 9, 5]"
proof -
  have 1: "pipe_inv (demo_pipe 2040)" by (simp add: pipe_inv_def demo_pipe_def)
  have 2: "queue_admits pipe_put (\<lambda>n. pipe_get (of_nat n)) pipe_can_put pipe_can_get [Put [7, 8, 9], Get 2, Put [5]] (demo_pipe 2040)"
    by (simp add: pipe_can_put_def pipe_can_get_def demo_pipe_def pipe_put_def pipe_get_def ring_idx_def PIPE_BUFFER_SIZE_def)
  show ?thesis using 2 pipe_fifo [OF 1 2] by simp
qed

text \<open>C20: what one process writes to a pipe another reads.  A write of \<open>n\<close> bytes followed by a read of \<open>m\<close>
  bytes on the same pipe both return their counts, and the bytes read followed by the rest of the pipe
  are its old content followed by the bytes written.\<close>

theorem pipe_write_then_read:
  assumes "fd_pipe fw a s" "fd_pipe fr a s" "pipe_idle a s" "read_count (get_pipe a s) \<noteq> 0" "write_count (get_pipe a s) \<noteq> 0"
    and n: "pipe_can_put n (get_pipe a s)" "n \<le> length buf"
    and m: "pipe_can_get m (pipe_put (take n buf) (get_pipe a s))"
  shows "wp (obind (pipe_write fw buf (of_nat n)) (\<lambda>k. obind (pipe_read fr (of_nat m)) (\<lambda>r. ret (k, r))))
     (\<lambda>(k, j, bytes) t. k = int n \<and> j = int m \<and> length bytes = m \<and>
        bytes @ pipe_content (get_pipe a t) = pipe_content (get_pipe a s) @ take n buf) s"
proof -
  let ?p = "get_pipe a s" and ?xs = "take n buf"
  let ?t = "(upd_pipe a (pipe_put ?xs) s)\<lparr>ptable := wake_all (ChPipeNotEmpty a) s, cpu := quiet (cpu s)\<rparr>"
  have size: "n \<le> PIPE_BUFFER_SIZE" using n(1) by (simp add: pipe_can_put_def)
  have len: "length ?xs = n" using n(2) by simp
  have room: "\<not> of_nat PIPE_BUFFER_SIZE - write_offset ?p + read_offset ?p < of_nat n"
    using n(1) by (intro pipe_room) (simp add: pipe_can_put_def)
  have put: "pipe_content (pipe_put ?xs ?p) = pipe_content ?p @ ?xs"
    using n(1) len by (intro pipe_put_appends) simp
  have pt: "get_pipe a ?t = pipe_put ?xs ?p" by simp
  have msize: "m \<le> PIPE_BUFFER_SIZE" using m by (simp add: pipe_can_get_def)
  have "unat (of_nat m :: u32) \<le> unat (write_offset (get_pipe a ?t) - read_offset (get_pipe a ?t))"
    using m unfolding pt small_count(1) [OF msize] by (simp add: pipe_can_get_def)
  then have avail: "\<not> write_offset (get_pipe a ?t) - read_offset (get_pipe a ?t) < of_nat m"
    by (simp only: word_less_nat_alt not_less)
  have wc: "write_count (get_pipe a ?t) \<noteq> 0" using assms(5) unfolding pt by (simp add: pipe_put_def)
  note get = pipe_get_takes [OF m]
  have "m \<le> length (pipe_content (pipe_put ?xs ?p))"
    using m by (simp add: pipe_can_get_def pipe_content_def)
  then have lenm: "length (fst (pipe_get (of_nat m) (pipe_put ?xs ?p))) = m" by (simp add: get(1))
  have all: "fst (pipe_get (of_nat m) (pipe_put ?xs ?p)) @ pipe_content (snd (pipe_get (of_nat m) (pipe_put ?xs ?p))) =
      pipe_content ?p @ ?xs"
    by (simp only: get append_take_drop_id put)
  have w: "wp (pipe_write fw buf (of_nat n)) Q s = Q (int n) ?t" for Q
    using wp_pipe_write [OF assms(1,3,4) _ room, of buf Q] size by (simp add: small_count)
  show ?thesis
    unfolding wp_obind w
    unfolding wp_pipe_read [OF fd_pipe_after [OF assms(2)] pipe_idle_after [OF assms(3)] wc avail]
    using lenm all msize by (simp add: wp_ret small_count)
qed

text \<open>A process with both ends of a pipe: descriptor 0 reads, descriptor 1 writes.\<close>

definition demo_pipes :: "pipe \<Rightarrow> kst" where
  "demo_pipes q = demo_run\<lparr>
     ptable := (ptable demo_run)\<lparr>procs := [zero_proc\<lparr>pid := 1, pstate := RUNNING,
       files := [Some 0, Some 1] @ replicate 14 None\<rparr>]\<rparr>,
     file_table := [pipe_file 0x1000 O_RDONLY 0, pipe_file 0x1000 O_WRONLY 1] @ replicate 98 zero_file,
     pviews := (pviews demo_run)\<lparr>pipe_view := (\<lambda>_. q)\<rparr>\<rparr>"

lemma demo_pipes_facts:
  "fd_pipe 0 0x1000 (demo_pipes q)" "fd_pipe 1 0x1000 (demo_pipes q)" "pipe_idle 0x1000 (demo_pipes q)"
  "get_pipe 0x1000 (demo_pipes q) = q" "curproc (cpu (demo_pipes q)) = Some 0" "ncli (cpu (demo_pipes q)) = 0"
  "length (procs (ptable (demo_pipes q))) = 1"
  by (simp_all add: fd_pipe_def pipe_idle_def demo_pipes_def demo_run_def get_proc_def get_file_def pipe_file_def
      get_pipe_def cpu_ok_def zero_kst_def free_lock_def)

theorem pipe_write_then_read_witness:
  "wp (obind (pipe_write 1 [7, 8, 9] (of_nat 3)) (\<lambda>k. obind (pipe_read 0 (of_nat 2)) (\<lambda>r. ret (k, r))))
     (\<lambda>(k, j, bytes) t. k = int 3 \<and> j = int 2 \<and> length bytes = 2 \<and>
        bytes @ pipe_content (get_pipe 0x1000 t) = pipe_content (get_pipe 0x1000 (demo_pipes (demo_pipe 0))) @ take 3 [7, 8, 9])
     (demo_pipes (demo_pipe 0))"
  by (rule pipe_write_then_read [OF demo_pipes_facts(2,1,3)])
    (simp_all add: demo_pipes_facts(4), simp_all add: demo_pipe_def pipe_can_put_def pipe_can_get_def ring_idx_def
      pipe_put_def PIPE_BUFFER_SIZE_def)

text \<open>C22: a write that does not fit blocks.  With a reader present the writer switches to the scheduler
  asleep on \<open>notFull\<close>, with the pipe unchanged and its lock free; any later read that succeeds makes it
  runnable again.\<close>

theorem pipe_full_blocks:
  assumes "fd_pipe fd a s" "pipe_idle a s" "curproc (cpu s) = Some p" "ncli (cpu s) = 0"
    and "read_count (get_pipe a s) \<noteq> 0" "sint nr \<le> int PIPE_BUFFER_SIZE"
    and full: "of_nat PIPE_BUFFER_SIZE - write_offset (get_pipe a s) + read_offset (get_pipe a s) < nr"
  shows "wps (pipe_write fd buf nr) (\<lambda>t. get_pipe a t = get_pipe a s \<and> locks t (PipeLock a) = free_lock \<and>
     pstate (get_proc p t) = SLEEPING \<and> pchan (get_proc p t) = Some (ChPipeNotFull a)) s \<and>
   (\<forall>u fr m. pstate (get_proc p u) = SLEEPING \<and> pchan (get_proc p u) = Some (ChPipeNotFull a) \<and>
      p < length (procs (ptable u)) \<and> fd_pipe fr a u \<and> pipe_idle a u \<and> write_count (get_pipe a u) \<noteq> 0 \<and>
      m \<le> write_offset (get_pipe a u) - read_offset (get_pipe a u) \<longrightarrow>
        wp (pipe_read fr m) (\<lambda>_ v. pstate (get_proc p v) = RUNNABLE) u)"
proof (intro conjI allI impI)
  obtain g where fd: "a \<noteq> 0" "p < length (procs (ptable s))" "files (get_proc p s) ! fd = Some g" "fpipe (get_file g s) = a"
    using assms(1,3) by (auto simp: fd_pipe_def)
  let ?h = "s\<lparr>locks := (locks s)(PipeLock a := held_lock), cpu := push_cpu (cpu s)\<rparr>"
  let ?Q = "\<lambda>t. get_pipe a t = get_pipe a s \<and> locks t (PipeLock a) = free_lock \<and>
     pstate (get_proc p t) = SLEEPING \<and> pchan (get_proc p t) = Some (ChPipeNotFull a)"
  have cp: "curproc (cpu ?h) = Some p" "p < length (procs (ptable ?h))" "PipeLock a \<noteq> PtableLock" "holding (PipeLock a) ?h"
    "locks ?h PtableLock = free_lock" "ncli (cpu ?h) = 1" "\<not> eflags_if (cpu ?h)"
    using assms(2,3,4) fd(2) by (simp_all add: pipe_idle_def holding_def)
  have "wps (sleep (ChPipeNotFull a) (Some (PipeLock a))) ?Q ?h"
    using fd(2) by (intro wps_mono [OF sleep_gives_up [OF cp]]) (simp add: upd_proc_def get_proc_def get_pipe_def)
  then have "wps (pipe_write_loop a buf nr) ?Q ?h"
    using full assms(5) by (simp add: pipe_write_loop_def wps_rules wp_rules)
  then show "wps (pipe_write fd buf nr) ?Q s"
    using assms(2,3,5,6) fd by (simp add: pipe_write_def fd_get_def wps_rules wp_rules kst_comm pipe_idle_def)
next
  fix u fr m
  assume "pstate (get_proc p u) = SLEEPING \<and> pchan (get_proc p u) = Some (ChPipeNotFull a) \<and>
      p < length (procs (ptable u)) \<and> fd_pipe fr a u \<and> pipe_idle a u \<and> write_count (get_pipe a u) \<noteq> 0 \<and>
      m \<le> write_offset (get_pipe a u) - read_offset (get_pipe a u)"
  then show "wp (pipe_read fr m) (\<lambda>_ v. pstate (get_proc p v) = RUNNABLE) u"
    by (subst wp_pipe_read) (auto simp: get_proc_wake_all wake_def not_less)
qed

definition full_pipe :: pipe where
  "full_pipe = (demo_pipe 0)\<lparr>write_offset := 2048\<rparr>"

theorem pipe_full_blocks_witness:
  "wps (pipe_write 1 [7] 1) (\<lambda>t. get_pipe 0x1000 t = get_pipe 0x1000 (demo_pipes full_pipe) \<and>
     locks t (PipeLock 0x1000) = free_lock \<and> pstate (get_proc 0 t) = SLEEPING \<and>
     pchan (get_proc 0 t) = Some (ChPipeNotFull 0x1000)) (demo_pipes full_pipe)"
proof -
  have "read_count (get_pipe 0x1000 (demo_pipes full_pipe)) \<noteq> 0" "sint (1 :: u32) \<le> int PIPE_BUFFER_SIZE"
    "of_nat PIPE_BUFFER_SIZE - write_offset (get_pipe 0x1000 (demo_pipes full_pipe)) +
       read_offset (get_pipe 0x1000 (demo_pipes full_pipe)) < (1 :: u32)"
    unfolding demo_pipes_facts(4) by (simp_all add: full_pipe_def demo_pipe_def PIPE_BUFFER_SIZE_def)
  from pipe_full_blocks [OF demo_pipes_facts(2,3,5,6) this, of "[7]"] show ?thesis by (rule conjunct1)
qed

text \<open>C34: writing to a pipe that nobody can read is an error: -1, and nothing changes.\<close>

theorem pipe_write_no_reader:
  assumes "fd_pipe fd a s" "pipe_idle a s" "read_count (get_pipe a s) = 0"
  shows "wp (pipe_write fd buf nr) (\<lambda>r t. r = -1 \<and> get_pipe a t = get_pipe a s \<and> ptable t = ptable s \<and>
     locks t = locks s \<and> file_table t = file_table s) s"
proof (cases "int PIPE_BUFFER_SIZE < sint nr")
  case True
  then show ?thesis by (simp add: pipe_write_def wp_rules)
next
  case False
  have "(locks s)(PipeLock a := free_lock) = locks s" using assms(2) by (simp add: pipe_idle_def restore_lock)
  then show ?thesis
    using False assms by (auto simp: pipe_write_def fd_pipe_def wp_rules kst_comm pipe_idle_def cpu_ok_def)
qed

theorem pipe_write_no_reader_witness:
  "wp (pipe_write 1 [7] 1) (\<lambda>r t. r = -1 \<and> get_pipe 0x1000 t = get_pipe 0x1000 (demo_pipes ((demo_pipe 0)\<lparr>read_count := 0\<rparr>)) \<and>
     ptable t = ptable (demo_pipes ((demo_pipe 0)\<lparr>read_count := 0\<rparr>)) \<and>
     locks t = locks (demo_pipes ((demo_pipe 0)\<lparr>read_count := 0\<rparr>)) \<and>
     file_table t = file_table (demo_pipes ((demo_pipe 0)\<lparr>read_count := 0\<rparr>))) (demo_pipes ((demo_pipe 0)\<lparr>read_count := 0\<rparr>))"
  by (rule pipe_write_no_reader [OF demo_pipes_facts(2,3)]) (simp add: demo_pipes_facts(4))

text \<open>A transfer that crosses the end of the buffer is not kept in order: sixteen bytes written at offset
  2040 and read as two times eight come back as the first eight and then the old start of the
  buffer.\<close>

lemma pipe_crossing_loses_data:
  "pipe_inv (demo_pipe 2040) \<and>
   fst (queue_run pipe_put (\<lambda>n. pipe_get (of_nat n)) [Put [1, 2, 3, 4, 5, 6, 7, 8, 9, 10, 11, 12, 13, 14, 15, 16], Get 8, Get 8]
     (demo_pipe 2040)) = [1, 2, 3, 4, 5, 6, 7, 8, 0, 0, 0, 0, 0, 0, 0, 0]"
  by (simp add: pipe_inv_def demo_pipe_def pipe_put_def pipe_get_def get_bytes_def put_bytes_def ring_idx_def
      PIPE_BUFFER_SIZE_def upt_rec)

section \<open>Duplicating a descriptor\<close>

text \<open>C39: \<open>file_dup\<close> puts the file at the smallest unused descriptor of the process.  For a file with an inode
  it counts one more reference and returns that descriptor.  For a pipe it counts one more reader or
  writer but returns 0, whichever descriptor it has filled.\<close>

theorem file_dup_result:
  assumes "curproc (cpu s) = Some p" "p < length (procs (ptable s))" "cpu_ok (cpu s)"
    and "files (get_proc p s) ! fd = Some g" "g < length (file_table s)"
    and "find_idx (\<lambda>x. x = None) (files (get_proc p s)) = Some i"
    and "isPipe (get_file g s) \<Longrightarrow> fpipe (get_file g s) \<noteq> 0 \<and> locks s (PipeLock (fpipe (get_file g s))) = free_lock"
    and "\<not> isPipe (get_file g s) \<Longrightarrow> fnode (get_file g s) \<noteq> None"
    and "locks s FileTableLock = free_lock"
  shows "wp (file_dup fd) (\<lambda>r t.
      r = (if isPipe (get_file g s) then 0 else int i) \<and>
      files (get_proc p t) = (files (get_proc p s))[i := Some g] \<and>
      get_file g t = (if isPipe (get_file g s) then get_file g s
                      else (get_file g s)\<lparr>ref_count := ref_count (get_file g s) + 1\<rparr>) \<and>
      (isPipe (get_file g s) \<longrightarrow>
         read_count (get_pipe (fpipe (get_file g s)) t) + write_count (get_pipe (fpipe (get_file g s)) t) =
         read_count (get_pipe (fpipe (get_file g s)) s) + write_count (get_pipe (fpipe (get_file g s)) s) +
         (if fmode (get_file g s) \<in> {O_RDONLY, O_WRONLY} then 1 else 0))) s"
proof (cases "isPipe (get_file g s)")
  case True
  then show ?thesis
    using assms by (simp add: file_dup_def fd_free_def fd_set_def wp_rules kst_comm holding_def upd_proc_def get_proc_def
        upd_pipe_def get_pipe_def get_file_def O_RDONLY_def O_WRONLY_def cpu_ok_def)
next
  case False
  then show ?thesis
    using assms by (auto simp: file_dup_def fd_free_def fd_set_def wp_rules kst_comm holding_def upd_proc_def get_proc_def
        upd_file_def get_file_def cpu_ok_def)
qed

text \<open>The write end of a pipe at descriptor 1 is duplicated to descriptor 2, and the call returns 0.\<close>

theorem file_dup_result_witness:
  "wp (file_dup 1) (\<lambda>r t. r = 0 \<and> files (get_proc 0 t) ! 2 = Some 1) (demo_pipes (demo_pipe 0))"
proof -
  let ?s = "demo_pipes (demo_pipe 0)"
  have f: "curproc (cpu ?s) = Some 0" "0 < length (procs (ptable ?s))" "cpu_ok (cpu ?s)"
    "files (get_proc 0 ?s) = [Some 0, Some 1] @ replicate 14 None" "1 < length (file_table ?s)"
    "get_file 1 ?s = pipe_file 0x1000 O_WRONLY 1" "locks ?s = (\<lambda>_. free_lock)"
    by (simp_all add: demo_pipes_def demo_run_def get_proc_def get_file_def cpu_ok_def zero_kst_def free_lock_def)
  have "find_idx (\<lambda>x. x = None) (files (get_proc 0 ?s)) = Some 2"
    unfolding f(4) by (simp add: find_idx_Some nth_Cons eval_nat_numeral split: nat.splits)
  note dup = file_dup_result [OF f(1-3) _ f(5) this, of 1]
  have a: "isPipe (get_file 1 ?s)" "fpipe (get_file 1 ?s) \<noteq> 0" unfolding f(6) by (simp_all add: pipe_file_def)
  have l: "([Some 0, Some 1] @ replicate 14 None)[2 := Some 1] ! 2 = Some (1 :: nat)" by simp
  show ?thesis
    by (rule wp_mono [OF dup]) (simp_all only: a f(4,7) l if_True simp_thms, simp_all)
qed

end
