(* ===== verification/Proc.thy ===== *)
theory Proc
  imports Vspace File
begin

unbundle bit_operations_syntax

text \<open>
  Processes (\<open>kernel/proc.c\<close>; \<open>sched\<close>, \<open>yield\<close>, \<open>sleep\<close> and \<open>wakeup\<close> are in \<open>Sleep\<close>).

  A process is a slot of \<open>ptable.proc\<close>.  The trap frame on a kernel stack is the field \<open>tf\<close>; of the
  saved kernel context the model keeps where it continues (\<open>Forkret\<close> for a new process).  The image
  of the first user program, which the build links into the kernel, is the argument \<open>initcode\<close>, and
  \<open>data_start\<close> is the linker's symbol \<open>data\<close> (see \<open>PageTable\<close>).

  The scheduler never returns; it is the two pieces between its context switches:
  \<open>scheduler_start\<close>, from the head of its loop, and \<open>scheduler_resume\<close>, after process \<open>j\<close> switched
  back.  Both end when the scheduler has switched to a process (\<open>Some\<close>) or is back at the head of
  its loop (\<open>None\<close>).
\<close>

section \<open>Allocation\<close>

definition pinit :: "(unit, kst) kop" where
  "pinit = initlock PtableLock"

text \<open>The end of \<open>allocproc\<close>: a kernel stack and a context that starts in \<open>forkret\<close>.\<close>

definition alloc_kstack :: "nat \<Rightarrow> (nat option, kst) kop" where
  "alloc_kstack p =
     obind kalloc (\<lambda>k.
     oseq (modify (upd_proc p (\<lambda>q. q\<lparr>kstack := k\<rparr>))) (
     if k = 0 then oseq (modify (upd_proc p (\<lambda>q. q\<lparr>pstate := UNUSED\<rparr>))) (ret None)
     else oseq (modify (upd_proc p (\<lambda>q. q\<lparr>pcontext := Forkret\<rparr>))) (ret (Some p))))"

definition allocproc :: "(nat option, kst) kop" where
  "allocproc =
     oseq (acquire PtableLock) (
     obind (gets (\<lambda>s. find_idx (\<lambda>p. pstate p = UNUSED) (procs (ptable s)))) (\<lambda>r.
     case r of
       None \<Rightarrow> oseq (release PtableLock) (ret None)
     | Some p \<Rightarrow>
         oseq (modify (\<lambda>s. upd_proc p (\<lambda>q. q\<lparr>pstate := EMBRYO, pid := nextpid (ptable s), killed := False\<rparr>) s)) (
         oseq (modify (\<lambda>s. s\<lparr>ptable := (ptable s)\<lparr>nextpid := nextpid (ptable s) + 1\<rparr>\<rparr>)) (
         oseq (release PtableLock)
           (alloc_kstack p)))))"

section \<open>The first process\<close>

definition ascii :: "string \<Rightarrow> byte list" where
  "ascii cs' = map of_char cs'"

definition SEG_UCODE :: u64 where "SEG_UCODE = 4"
definition SEG_UDATA :: u64 where "SEG_UDATA = 5"
definition DPL_USER :: u64 where "DPL_USER = 3"
definition FLAGS_IF :: u64 where "FLAGS_IF = 0x200"

definition set_name :: "string \<Rightarrow> proc \<Rightarrow> proc" where
  "set_name n q = q\<lparr>pname := map (safestrcpy (cstr (pname q)) (cstr (ascii n)) 16) [0..<16]\<rparr>"

definition userinit :: "u64 \<Rightarrow> byte list \<Rightarrow> (unit, kst) kop" where
  "userinit data_start initcode =
     obind allocproc (\<lambda>po.
     oseq (modify (\<lambda>s. s\<lparr>ptable := (ptable s)\<lparr>initproc := po\<rparr>\<rparr>)) (
     case po of None \<Rightarrow> panic ''trap'' | Some p \<Rightarrow>
     obind (vspaceinit data_start p) (\<lambda>r.
     oseq (kassert (r = 0) ''error initializing process's virtual address descriptor'') (
     oseq (vspaceinitcode p initcode (of_nat (length initcode))) (
     oseq (modify (\<lambda>s. upd_proc p (\<lambda>q. q\<lparr>tf := zero_frame\<lparr>
             cs := push_bit 3 SEG_UCODE OR DPL_USER, ss := push_bit 3 SEG_UDATA OR DPL_USER,
             rflags := FLAGS_IF, rip := VRBOT (get_region (p, VR_CODE) s),
             rsp := VRTOP (get_region (p, VR_USTACK) s)\<rparr>\<rparr>) s)) (
     oseq (modify (upd_proc p (set_name ''initcode''))) (
     oseq (acquire PtableLock) (
     oseq (modify (upd_proc p (\<lambda>q. q\<lparr>pstate := RUNNABLE\<rparr>)))
       (release PtableLock)))))))))"

section \<open>fork, exit and wait\<close>

definition fork_fd :: "nat \<Rightarrow> nat \<Rightarrow> nat \<Rightarrow> (unit, kst) kop" where
  "fork_fd p c fd =
     obind (gets (\<lambda>s. files (get_proc p s) ! fd)) (\<lambda>f.
     case f of None \<Rightarrow> ret () | Some g \<Rightarrow>
     oseq (modify (upd_proc c (\<lambda>q. q\<lparr>files := (files q)[fd := Some g]\<rparr>))) (
     obind (gets (get_file g)) (\<lambda>x.
     if isPipe x then
       if fmode x = O_RDONLY \<and> fpipe x \<noteq> 0
       then modify (upd_pipe (fpipe x) (\<lambda>u. u\<lparr>read_count := read_count u + 1\<rparr>))
       else if fmode x = O_WRONLY \<and> fpipe x \<noteq> 0
       then modify (upd_pipe (fpipe x) (\<lambda>u. u\<lparr>write_count := write_count u + 1\<rparr>))
       else ret ()
     else modify (upd_file g (\<lambda>y. y\<lparr>ref_count := ref_count y + 1\<rparr>)))))"

definition fork :: "u64 \<Rightarrow> (int, kst) kop" where
  "fork data_start =
     obind myproc (\<lambda>p.
     obind allocproc (\<lambda>co.
     case co of None \<Rightarrow> ret (-1) | Some c \<Rightarrow>
     obind (vspaceinit data_start c) (\<lambda>r.
     oseq (kassert (r = 0) ''failed initializing virtual address space'') (
     obind (vspacecopy c p) (\<lambda>_.
     oseq (modify (\<lambda>s. upd_proc c (\<lambda>q. q\<lparr>tf := tf (get_proc p s)\<rparr>) s)) (
     oseq (acquire PtableLock) (
     oseq (modify (upd_proc c (\<lambda>q. q\<lparr>tf := (tf q)\<lparr>rax := 0\<rparr>, parent := Some p\<rparr>))) (
     oseq (foreach [0..<NOFILE] (fork_fd p c)) (
     oseq (modify (upd_proc c (\<lambda>q. q\<lparr>pstate := RUNNABLE\<rparr>))) (
     obind (gets (\<lambda>s. pid (get_proc c s))) (\<lambda>procID.
     oseq (release PtableLock) (
     oseq (vspaceinstall (Some p)) (ret procID)))))))))))))"

definition close_fd :: "nat \<Rightarrow> (unit, kst) kop" where
  "close_fd fd = obind (fd_get fd) (\<lambda>f. kwhen (f \<noteq> None) (obind (file_close fd) (\<lambda>_. ret ())))"

definition reparent :: "nat \<Rightarrow> nat \<Rightarrow> (unit, kst) kop" where
  "reparent p i =
     obind (gets (\<lambda>s. parent (get_proc i s))) (\<lambda>par.
     case par of None \<Rightarrow> ret () | Some q \<Rightarrow>
     obind (gets (\<lambda>s. pid (get_proc q s) = pid (get_proc p s))) (\<lambda>mine.
     kwhen mine (
       obind (gets (\<lambda>s. initproc (ptable s))) (\<lambda>ini.
       oseq (modify (upd_proc i (\<lambda>x. x\<lparr>parent := ini\<rparr>)))
         (case ini of None \<Rightarrow> panic ''trap'' | Some j \<Rightarrow>
          obind (gets (\<lambda>s. pstate (get_proc j s))) (\<lambda>st.
          kwhen (st = SLEEPING) (wakeup1 (Some (ChProc j)))))))))"

definition exit :: "(unit, kst) kop" where
  "exit =
     obind myproc (\<lambda>p.
     oseq (foreach [0..<NOFILE] close_fd) (
     oseq (acquire PtableLock) (
     oseq (modify (upd_proc p (\<lambda>q. q\<lparr>pstate := ZOMBIE\<rparr>))) (
     oseq (foreach [0..<NPROC] (reparent p)) (
     obind (gets (\<lambda>s. parent (get_proc p s))) (\<lambda>par.
     oseq (wakeup1 (map_option ChProc par))
       sched))))))"

text \<open>Lines 200--209 of \<open>wait\<close>.\<close>

definition reap :: "nat \<Rightarrow> (int, kst) kop" where
  "reap i =
     obind (gets (\<lambda>s. pid (get_proc i s))) (\<lambda>procID.
     oseq (vspacefree i) (
     obind (gets (\<lambda>s. kstack (get_proc i s))) (\<lambda>k.
     oseq (kfree k) (
     oseq (modify (upd_proc i (\<lambda>q. q\<lparr>kstack := 0, parent := None, killed := False, pid := 0, pstate := UNUSED\<rparr>))) (
     oseq (release PtableLock) (ret procID))))))"

definition wait_loop :: "nat \<Rightarrow> bool \<Rightarrow> (int, kst) kop" where
  "wait_loop me hasChildren =
     obind (gets (\<lambda>s. procs (ptable s))) (\<lambda>ps.
     case find_idx (\<lambda>q. parent q = Some me \<and> pstate q = ZOMBIE) ps of
       Some i \<Rightarrow> reap i
     | None \<Rightarrow>
         if hasChildren \<or> (\<exists>q \<in> set ps. parent q = Some me)
         then oseq (sleep (ChProc me) (Some PtableLock)) hang
         else oseq (release PtableLock) (ret (-1)))"

definition wait :: "(int, kst) kop" where
  "wait = oseq (acquire PtableLock) (obind myproc (\<lambda>me. wait_loop me False))"

text \<open>\<open>wait\<close> only sleeps once it has seen a child.\<close>

definition wait_resume :: "bool \<Rightarrow> (int, kst) kop" where
  "wait_resume en =
     oseq (sleep_resume en PtableLock) (obind myproc (\<lambda>me. wait_loop me True))"

section \<open>The scheduler\<close>

definition sched_scan :: "nat \<Rightarrow> (nat option, kst) kop" where
  "sched_scan i =
     obind (gets (\<lambda>s. find_idx (\<lambda>p. pstate p = RUNNABLE) (drop i (procs (ptable s))))) (\<lambda>r.
     case r of
       None \<Rightarrow> oseq (release PtableLock) (ret None)
     | Some k \<Rightarrow>
         oseq (modify (\<lambda>s. s\<lparr>cpu := (cpu s)\<lparr>curproc := Some (i + k)\<rparr>\<rparr>)) (
         oseq (vspaceinstall (Some (i + k))) (
         oseq (modify (upd_proc (i + k) (\<lambda>q. q\<lparr>pstate := RUNNING\<rparr>)))
           (ret (Some (i + k))))))"

definition scheduler_start :: "(nat option, kst) kop" where
  "scheduler_start =
     oseq (modify (\<lambda>s. s\<lparr>cpu := (cpu s)\<lparr>eflags_if := True\<rparr>\<rparr>)) (
     oseq (acquire PtableLock)
       (sched_scan 0))"

definition scheduler_resume :: "nat \<Rightarrow> (nat option, kst) kop" where
  "scheduler_resume j =
     oseq vspaceinstallkern (
     oseq (modify (\<lambda>s. s\<lparr>cpu := (cpu s)\<lparr>curproc := None\<rparr>\<rparr>))
       (sched_scan (Suc j)))"

definition forkret :: "(unit, kst) kop" where
  "forkret =
     oseq (release PtableLock) (
     obind (gets (\<lambda>s. forkret_first (ptable s))) (\<lambda>first.
     kwhen first (
       oseq (modify (\<lambda>s. s\<lparr>ptable := (ptable s)\<lparr>forkret_first := False\<rparr>\<rparr>))
         (iinit ROOTDEV))))"

section \<open>Finding and killing processes\<close>

definition kill :: "int \<Rightarrow> (int, kst) kop" where
  "kill n =
     oseq (acquire PtableLock) (
     obind (gets (\<lambda>s. find_idx (\<lambda>p. pid p = n) (procs (ptable s)))) (\<lambda>r.
     case r of
       Some i \<Rightarrow>
         oseq (modify (upd_proc i (\<lambda>q. q\<lparr>killed := True,
                 pstate := (if pstate q = SLEEPING then RUNNABLE else pstate q)\<rparr>))) (
         oseq (release PtableLock) (ret 0))
     | None \<Rightarrow> oseq (release PtableLock) (ret (-1))))"

definition findproc :: "int \<Rightarrow> (nat option, kst) kop" where
  "findproc n = gets (\<lambda>s. find_idx (\<lambda>p. pid p = n) (procs (ptable s)))"

end
