(* ===== verification/Console.thy ===== *)
theory Console
  imports Proc Kbd
begin

unbundle bit_operations_syntax

text \<open>
  The console (\<open>kernel/console.c\<close>, \<open>kernel/uart.c\<close>): formatted output, the line editor behind the
  keyboard and the serial port, reading and writing the console device, and the text screen.

  \<open>cons_out\<close> is the sequence of characters passed to \<open>consputc\<close>; \<open>uart_stream\<close> gives the bytes of
  the serial line for it and \<open>cgaputc\<close> the change of the screen for each character.  Variable
  arguments of \<open>cprintf\<close> are a list.  The bytes that a device has ready when it interrupts are a
  list.
\<close>

section \<open>Output\<close>

definition BACKSPACE :: int where "BACKSPACE = 0x100"

definition consputc :: "int \<Rightarrow> (unit, kst) kop" where
  "consputc c = modify (\<lambda>s. s\<lparr>cons := (cons s)\<lparr>cons_out := cons_out (cons s) @ [c]\<rparr>\<rparr>)"

definition uartputc :: "bool \<Rightarrow> int \<Rightarrow> byte list" where
  "uartputc present' c = (if present' then [of_int c] else [])"

definition uart_stream :: "bool \<Rightarrow> int list \<Rightarrow> byte list" where
  "uart_stream u out = concat (map (\<lambda>c.
     if c = BACKSPACE then uartputc u 8 @ uartputc u 32 @ uartputc u 8 else uartputc u c) out)"

definition put_chars :: "int list \<Rightarrow> (unit, kst) kop" where
  "put_chars out = foreach out consputc"

section \<open>Numbers\<close>

definition digit :: "nat \<Rightarrow> byte" where
  "digit d = (if d < 10 then of_nat (48 + d) else of_nat (87 + d))"

text \<open>The digits of \<open>x\<close>, least significant first: the \<open>do\<close> loop of \<open>printint\<close>.\<close>

function digits :: "nat \<Rightarrow> nat \<Rightarrow> byte list" where
  "digits base x = (if base < 2 then [] else
     digit (x mod base) # (if x div base = 0 then [] else digits base (x div base)))"
  by auto
termination
proof (relation "measure snd")
  fix base x :: nat
  assume "\<not> base < 2" "x div base \<noteq> 0"
  then show "((base, x div base), (base, x)) \<in> measure snd"
    by (cases "x = 0") (auto intro: div_less_dividend)
qed simp

declare digits.simps [simp del]

definition number :: "bool \<Rightarrow> nat \<Rightarrow> nat \<Rightarrow> byte list" where
  "number neg base x = rev (digits base x @ (if neg then [45] else []))"

definition printint :: "u32 \<Rightarrow> nat \<Rightarrow> bool \<Rightarrow> byte list" where
  "printint xx base wsign =
     (if wsign \<and> sint xx < 0 then number True base (unat (- xx)) else number False base (unat xx))"

definition printint64 :: "u64 \<Rightarrow> nat \<Rightarrow> bool \<Rightarrow> byte list" where
  "printint64 xx base wsign =
     (if wsign \<and> sint xx < 0 then number True base (unat (- xx)) else number False base (unat xx))"

section \<open>Formatted output\<close>

datatype fmt_arg = FInt u64 | FStr "byte list option"

text \<open>An integer conversion reads a pointer as a number and the reverse has no meaning; running out
  of arguments is \<open>None\<close>.\<close>

definition arg_int :: "(u64 \<Rightarrow> byte list) \<Rightarrow> fmt_arg list \<Rightarrow> (byte list \<times> fmt_arg list) option" where
  "arg_int f args = (case args of FInt w # rest \<Rightarrow> Some (f w, rest) | _ \<Rightarrow> None)"

definition arg_str :: "fmt_arg list \<Rightarrow> (byte list \<times> fmt_arg list) option" where
  "arg_str args = (case args of
      FStr None # rest \<Rightarrow> Some (ascii ''(null)'', rest)
    | FStr (Some bs) # rest \<Rightarrow> Some (takeWhile (\<lambda>b. b \<noteq> 0) bs, rest)
    | _ \<Rightarrow> None)"

text \<open>\<open>spec = Some lflag\<close> after a percent sign.\<close>

fun format :: "bool option \<Rightarrow> byte list \<Rightarrow> fmt_arg list \<Rightarrow> byte list option" where
  "format spec [] args = Some []"
| "format None (c # fmt) args =
     (if c = 0 then Some []
      else if c = 37 then format (Some False) fmt args
      else map_option (\<lambda>out. c # out) (format None fmt args))"
| "format (Some l) (c # fmt) args =
     (let conv = (\<lambda>r. case r of None \<Rightarrow> None | Some (out, rest) \<Rightarrow> map_option ((@) out) (format None fmt rest)) in
      if c = 0 then Some []
      else if c = 100 then conv (arg_int (\<lambda>w. if l then printint64 w 10 True else printint (ucast w) 10 True) args)
      else if c = 108 then format (Some (\<not> l)) fmt args
      else if c = 120 then conv (arg_int (\<lambda>w. if l then printint64 w 16 False else printint (ucast w) 16 False) args)
      else if c = 112 then conv (arg_int (\<lambda>w. printint64 w 16 False) args)
      else if c = 115 then conv (arg_str args)
      else if c = 37 then conv (Some ([37], args))
      else conv (Some ([37, c], args)))"

definition cprintf :: "byte list \<Rightarrow> fmt_arg list \<Rightarrow> (unit, kst) kop" where
  "cprintf fmt args =
     obind (gets (\<lambda>s. cons_locking (cons s))) (\<lambda>locking.
     oseq (kwhen locking (acquire ConsLock)) (
     oseq (case format None fmt args of
             None \<Rightarrow> panic ''va_arg''
           | Some out \<Rightarrow> put_chars (map uint out))
       (kwhen locking (release ConsLock))))"

section \<open>Process listing\<close>

definition state_name :: "procstate \<Rightarrow> byte list" where
  "state_name st = (case st of UNUSED \<Rightarrow> ascii ''???'' | EMBRYO \<Rightarrow> ascii ''embryo'' | SLEEPING \<Rightarrow> ascii ''sleep ''
     | RUNNABLE \<Rightarrow> ascii ''runble'' | RUNNING \<Rightarrow> ascii ''run   '' | ZOMBIE \<Rightarrow> ascii ''zombie'')"

text \<open>\<open>pcs i\<close> are the return addresses on the kernel stack of process \<open>i\<close> (\<open>getcallerpcs\<close>).\<close>

definition procdump_line :: "(nat \<Rightarrow> u64 list) \<Rightarrow> nat \<Rightarrow> (unit, kst) kop" where
  "procdump_line pcs i =
     obind (gets (get_proc i)) (\<lambda>p.
     if pstate p = UNUSED then ret () else
     oseq (cprintf (ascii ''%d %s %s'') [FInt (of_int (pid p)), FStr (Some (state_name (pstate p))), FStr (Some (pname p))]) (
     oseq (kwhen (pstate p = SLEEPING)
             (foreach (takeWhile (\<lambda>w. w \<noteq> 0) (take 10 (pcs i))) (\<lambda>w. cprintf (ascii '' %p'') [FInt w])))
       (cprintf [10] [])))"

definition procdump :: "(nat \<Rightarrow> u64 list) \<Rightarrow> (unit, kst) kop" where
  "procdump pcs = foreach [0..<NPROC] (procdump_line pcs)"

section \<open>Input\<close>

definition INPUT_BUF :: nat where "INPUT_BUF = 128"

definition upd_input :: "(input_state \<Rightarrow> input_state) \<Rightarrow> kst \<Rightarrow> kst" where
  "upd_input f s = s\<lparr>cons := (cons s)\<lparr>input := f (input (cons s))\<rparr>\<rparr>"

definition in_idx :: "u32 \<Rightarrow> nat" where
  "in_idx i = unat i mod INPUT_BUF"

text \<open>\<open>C('U')\<close>: rub out the current line.\<close>

fun kill_line :: "nat \<Rightarrow> (unit, kst) kop" where
  "kill_line 0 = hang"
| "kill_line (Suc k) =
     obind (gets (\<lambda>s. input (cons s))) (\<lambda>i.
     if input_e i \<noteq> input_w i \<and> ibuf i ! in_idx (input_e i - 1) \<noteq> 10
     then oseq (modify (upd_input (\<lambda>i. i\<lparr>input_e := input_e i - 1\<rparr>))) (oseq (consputc BACKSPACE) (kill_line k))
     else ret ())"

declare kill_line.simps [simp del]

text \<open>The \<open>switch\<close> of \<open>consoleintr\<close>; the result tells whether a process listing was asked for.\<close>

definition intr_char :: "int \<Rightarrow> (bool, kst) kop" where
  "intr_char c =
     (if c = 16 then ret True
      else if c = 21 then
        obind (gets (\<lambda>s. unat (input_e (input (cons s)) - input_w (input (cons s))))) (\<lambda>n.
        oseq (kill_line (Suc n)) (ret False))
      else if c = 8 \<or> c = 127 then
        obind (gets (\<lambda>s. input (cons s))) (\<lambda>i.
        oseq (kwhen (input_e i \<noteq> input_w i)
                (oseq (modify (upd_input (\<lambda>i. i\<lparr>input_e := input_e i - 1\<rparr>))) (consputc BACKSPACE)))
          (ret False))
      else
        obind (gets (\<lambda>s. input (cons s))) (\<lambda>i.
        oseq (kwhen (c \<noteq> 0 \<and> input_e i - input_r i < of_nat INPUT_BUF) (
                let c = (if c = 13 then 10 else c) in
                oseq (modify (upd_input (\<lambda>i. i\<lparr>ibuf := (ibuf i)[in_idx (input_e i) := of_int c], input_e := input_e i + 1\<rparr>))) (
                oseq (consputc c) (
                obind (gets (\<lambda>s. input (cons s))) (\<lambda>i.
                kwhen (c = 10 \<or> c = 4 \<or> input_e i = input_r i + of_nat INPUT_BUF)
                  (oseq (modify (upd_input (\<lambda>i. i\<lparr>input_w := input_e i\<rparr>)))
                     (wakeup ChInput)))))))
          (ret False)))"

text \<open>The loop of \<open>consoleintr\<close>: \<open>getc\<close> is called on each byte the device has and returns -1 after the
  last one.\<close>

fun intr_loop :: "(byte \<Rightarrow> (int, kst) kop) \<Rightarrow> byte list \<Rightarrow> bool \<Rightarrow> (bool, kst) kop" where
  "intr_loop getc [] dump = ret dump"
| "intr_loop getc (b # bs) dump =
     obind (getc b) (\<lambda>c.
     if c < 0 then ret dump else
     obind (intr_char c) (\<lambda>d. intr_loop getc bs (dump \<or> d)))"

definition consoleintr :: "(nat \<Rightarrow> u64 list) \<Rightarrow> (byte \<Rightarrow> (int, kst) kop) \<Rightarrow> byte list \<Rightarrow> (unit, kst) kop" where
  "consoleintr pcs getc bs =
     oseq (acquire ConsLock) (
     obind (intr_loop getc bs False) (\<lambda>doprocdump.
     oseq (release ConsLock)
       (kwhen doprocdump (procdump pcs))))"

definition uartgetc :: "byte \<Rightarrow> (int, kst) kop" where
  "uartgetc b = gets (\<lambda>s. if uart (cons s) then uint b else -1)"

definition kbdintr :: "(nat \<Rightarrow> u64 list) \<Rightarrow> byte list \<Rightarrow> (unit, kst) kop" where
  "kbdintr pcs = consoleintr pcs kbdgetc"

definition uartintr :: "(nat \<Rightarrow> u64 list) \<Rightarrow> byte list \<Rightarrow> (unit, kst) kop" where
  "uartintr pcs = consoleintr pcs uartgetc"

section \<open>The console device\<close>

text \<open>The loop of \<open>consoleread\<close>: \<open>n\<close> bytes are still wanted, \<open>got\<close> are stored.\<close>

fun consoleread_loop :: "nat \<Rightarrow> byte list \<Rightarrow> (int \<times> byte list, kst) kop" where
  "consoleread_loop 0 got = oseq (release ConsLock) (ret (int (length got), got))"
| "consoleread_loop (Suc n) got =
     obind (gets (\<lambda>s. input (cons s))) (\<lambda>i.
     if input_r i = input_w i then
       obind myproc (\<lambda>p.
       obind (gets (\<lambda>s. killed (get_proc p s))) (\<lambda>k.
       if k then oseq (release ConsLock) (ret (-1, got))
       else oseq (sleep ChInput (Some ConsLock)) hang))
     else
       let c = ibuf i ! in_idx (input_r i) in
       oseq (modify (upd_input (\<lambda>i. i\<lparr>input_r := input_r i + 1\<rparr>))) (
       if c = 4 then
         oseq (kwhen (got \<noteq> []) (modify (upd_input (\<lambda>i. i\<lparr>input_r := input_r i - 1\<rparr>)))) (
         oseq (release ConsLock) (ret (int (length got), got)))
       else if c = 10 then
         oseq (release ConsLock) (ret (int (length got) + 1, got @ [c]))
       else consoleread_loop n (got @ [c])))"

declare consoleread_loop.simps [simp del]

definition consoleread :: "iptr \<Rightarrow> u32 \<Rightarrow> (int \<times> byte list, kst) kop" where
  "consoleread ip n =
     oseq (acquire ConsLock) (
     if 0 < sint n then consoleread_loop (unat n) []
     else oseq (release ConsLock) (ret (0, [])))"

definition consoleread_resume :: "bool \<Rightarrow> nat \<Rightarrow> byte list \<Rightarrow> (int \<times> byte list, kst) kop" where
  "consoleread_resume en n got = oseq (sleep_resume en ConsLock) (consoleread_loop n got)"

definition consolewrite :: "iptr \<Rightarrow> byte list \<Rightarrow> (int, kst) kop" where
  "consolewrite ip buf =
     oseq (acquire ConsLock) (
     oseq (put_chars (map uint buf)) (
     oseq (release ConsLock) (ret (int (length buf)))))"

definition devsw_read :: "u16 \<Rightarrow> dev_read option" where
  "devsw_read d = (if d = CONSOLE then Some consoleread else None)"

definition devsw_write :: "u16 \<Rightarrow> dev_write option" where
  "devsw_write d = (if d = CONSOLE then Some consolewrite else None)"

text \<open>The interrupt controllers that \<open>consoleinit\<close> and \<open>uartinit\<close> program are not part of the
  state.\<close>

definition consoleinit :: "(unit, kst) kop" where
  "consoleinit =
     oseq (initlock ConsLock)
       (modify (\<lambda>s. s\<lparr>cons := (cons s)\<lparr>devsw_console := True, cons_locking := True\<rparr>\<rparr>))"

section \<open>The screen\<close>

record cga_state =
  cursor :: int
  crt :: "int \<Rightarrow> u16"

definition cgaputc :: "int \<Rightarrow> (unit, cga_state) kop" where
  "cgaputc c =
     obind (gets cursor) (\<lambda>pos0.
     obind (if c = 10 then ret (pos0 + (80 - pos0 mod 80))
            else if c = BACKSPACE then ret (if 0 < pos0 then pos0 - 1 else pos0)
            else oseq (modify (\<lambda>g. g\<lparr>crt := (crt g)(pos0 := (of_int c AND 0xff) OR 0x0700)\<rparr>)) (ret (pos0 + 1))) (\<lambda>pos.
     if pos < 0 \<or> 25 * 80 < pos then panic ''pos under/overflow'' else
     obind (if 24 \<le> pos div 80 then
              let pos' = pos - 80 in
              oseq (modify (\<lambda>g. g\<lparr>crt := (\<lambda>i. if 0 \<le> i \<and> i < 23 * 80 then crt g (i + 80) else crt g i)\<rparr>)) (
              oseq (modify (\<lambda>g. g\<lparr>crt := (\<lambda>i. if pos' \<le> i \<and> i < 24 * 80 then 0 else crt g i)\<rparr>))
                (ret pos'))
            else ret pos) (\<lambda>pos.
     modify (\<lambda>g. g\<lparr>cursor := pos mod 65536, crt := (crt g)(pos := 32 OR 0x0700)\<rparr>))))"

end
