(* ===== verification/Syscall.thy ===== *)
theory Syscall
  imports Console
begin

unbundle bit_operations_syntax

text \<open>
  System calls and traps (\<open>kernel/syscall.c\<close>, \<open>kernel/sysfile.c\<close>, \<open>kernel/sysproc.c\<close>,
  \<open>kernel/trap.c\<close>).

  The kernel reads and writes user memory through the page table that is installed, so \<open>read_user\<close>
  and \<open>write_user\<close> walk it as the processor does; a missing page is a fault in the kernel, and
  \<open>trap\<close> answers with \<open>panic("trap")\<close>.  Writes respect the write bit (\<open>CR0_WP\<close> is set at boot).
  Bytes that a call takes from user memory are read when it starts.
  The device switch is the one that \<open>consoleinit\<close> fills.  Acknowledging an interrupt (\<open>lapiceoi\<close>)
  changes no state of the model.
\<close>

section \<open>User memory\<close>

definition user_byte :: "bool \<Rightarrow> u64 \<Rightarrow> kst \<Rightarrow> (u64 \<times> nat) option" where
  "user_byte wr va s =
     (case pte_of (P2V (cr3 (cpu s))) va s of
        None \<Rightarrow> None
      | Some e \<Rightarrow>
          if pte_present (get_pte e s) \<and> (\<not> wr \<or> get_pte e s AND PTE_W \<noteq> 0)
          then Some (table_of (get_pte e s), unat (va AND 4095)) else None)"

definition read_user :: "u64 \<Rightarrow> (byte, kst) kop" where
  "read_user va =
     obind (gets (user_byte False va)) (\<lambda>r.
     case r of None \<Rightarrow> panic ''trap'' | Some (pg, i) \<Rightarrow> gets (\<lambda>s. byte_view (pviews s) pg i))"

definition write_user :: "u64 \<Rightarrow> byte \<Rightarrow> (unit, kst) kop" where
  "write_user va b =
     obind (gets (user_byte True va)) (\<lambda>r.
     case r of None \<Rightarrow> panic ''trap'' | Some (pg, i) \<Rightarrow> write_page pg i [b])"

fun read_bytes :: "nat \<Rightarrow> u64 \<Rightarrow> (byte list, kst) kop" where
  "read_bytes 0 va = ret []"
| "read_bytes (Suc n) va = obind (read_user va) (\<lambda>b. obind (read_bytes n (va + 1)) (\<lambda>bs. ret (b # bs)))"

fun write_bytes :: "u64 \<Rightarrow> byte list \<Rightarrow> (unit, kst) kop" where
  "write_bytes va [] = ret ()"
| "write_bytes va (b # bs) = oseq (write_user va b) (write_bytes (va + 1) bs)"

section \<open>Arguments\<close>

definition my_regions :: "(vregion list, kst) kop" where
  "my_regions = obind myproc (\<lambda>p. gets (\<lambda>s. regions (pvspace (get_proc p s))))"

definition fetchint :: "u64 \<Rightarrow> (u32 option, kst) kop" where
  "fetchint addr =
     obind my_regions (\<lambda>rs.
     if \<exists>r \<in> set rs. vregioncontains r addr 4
     then obind (read_bytes 4 addr) (\<lambda>bs. ret (Some (le32 bs)))
     else ret None)"

definition fetchint64_t :: "u64 \<Rightarrow> (u64 option, kst) kop" where
  "fetchint64_t addr =
     obind my_regions (\<lambda>rs.
     if \<exists>r \<in> set rs. vregioncontains r addr 8
     then obind (read_bytes 8 addr) (\<lambda>bs. ret (Some (le64 bs)))
     else ret None)"

text \<open>Scan for the end of a string; \<open>n\<close> bytes are left before the end of the region.\<close>

fun scan_str :: "nat \<Rightarrow> u64 \<Rightarrow> nat \<Rightarrow> (nat option, kst) kop" where
  "scan_str 0 s len = ret None"
| "scan_str (Suc n) s len =
     obind (read_user s) (\<lambda>b. if b = 0 then ret (Some len) else scan_str n (s + 1) (Suc len))"

fun fetchstr_regions :: "vregion list \<Rightarrow> u64 \<Rightarrow> (nat option, kst) kop" where
  "fetchstr_regions [] addr = ret None"
| "fetchstr_regions (r # rs) addr =
     (if vregioncontains r addr 0
      then obind (scan_str (unat (VRTOP r - addr)) addr 0) (\<lambda>n.
           case n of Some k \<Rightarrow> ret (Some k) | None \<Rightarrow> fetchstr_regions rs addr)
      else fetchstr_regions rs addr)"

text \<open>The length of the string, \<open>None\<close> for the result -1.\<close>

definition fetchstr :: "u64 \<Rightarrow> (nat option, kst) kop" where
  "fetchstr addr = obind my_regions (\<lambda>rs. fetchstr_regions rs addr)"

definition fetcharg :: "nat \<Rightarrow> (u64, kst) kop" where
  "fetcharg n =
     obind myproc (\<lambda>p.
     obind (gets (\<lambda>s. tf (get_proc p s))) (\<lambda>t.
     if n = 0 then ret (rdi t) else if n = 1 then ret (rsi t) else if n = 2 then ret (rdx t)
     else if n = 3 then ret (rcx t) else if n = 4 then ret (r8 t) else if n = 5 then ret (r9 t)
     else panic ''more than 6 arguments for a syscall''))"

definition argint :: "nat \<Rightarrow> (u32, kst) kop" where
  "argint n = obind (fetcharg n) (\<lambda>w. ret (ucast w))"

definition argint64 :: "nat \<Rightarrow> (u64, kst) kop" where
  "argint64 n = fetcharg n"

definition argptr :: "nat \<Rightarrow> u32 \<Rightarrow> (u64 option, kst) kop" where
  "argptr n sz =
     obind (argint64 n) (\<lambda>i.
     if sint sz < 0 then ret None else
     obind my_regions (\<lambda>rs.
     if \<exists>r \<in> set rs. vregioncontains r i sz then ret (Some i) else ret None))"

definition argstr :: "nat \<Rightarrow> ((u64 \<times> nat) option, kst) kop" where
  "argstr n =
     obind (argint64 n) (\<lambda>addr.
     obind (fetchstr addr) (\<lambda>r. ret (map_option (\<lambda>len. (addr, len)) r)))"

definition fd_ok :: "u32 \<Rightarrow> bool" where
  "fd_ok fd \<longleftrightarrow> \<not> (sint fd < 0 \<or> int NOFILE \<le> sint fd)"

section \<open>File system calls\<close>

definition sys_dup :: "(int, kst) kop" where
  "sys_dup = obind (argint 0) (\<lambda>fd. if fd_ok fd then file_dup (unat fd) else ret (-1))"

definition sys_read :: "(int, kst) kop" where
  "sys_read =
     obind (argint 0) (\<lambda>fd.
     if \<not> fd_ok fd then ret (-1) else
     obind (argint 2) (\<lambda>nr_bytes.
     obind (argptr 1 nr_bytes) (\<lambda>p.
     case p of None \<Rightarrow> ret (-1) | Some buf \<Rightarrow>
     obind (file_read devsw_read (unat fd) nr_bytes) (\<lambda>(n, bytes).
     oseq (write_bytes buf bytes) (ret n)))))"

definition sys_write :: "(int, kst) kop" where
  "sys_write =
     obind (argint 0) (\<lambda>fd.
     if \<not> fd_ok fd then ret (-1) else
     obind (argint 2) (\<lambda>nr_bytes.
     obind (argptr 1 nr_bytes) (\<lambda>p.
     case p of None \<Rightarrow> ret (-1) | Some buf \<Rightarrow>
     obind (read_bytes (unat nr_bytes) buf) (\<lambda>bytes.
     file_write devsw_read devsw_write (unat fd) bytes nr_bytes))))"

definition sys_close :: "(int, kst) kop" where
  "sys_close = obind (argint 0) (\<lambda>fd. if fd_ok fd then file_close (unat fd) else ret (-1))"

text \<open>\<open>struct stat\<close>: the type, two bytes of padding that are not written, then three words.\<close>

definition write_stat :: "u64 \<Rightarrow> stat \<Rightarrow> (unit, kst) kop" where
  "write_stat a st =
     oseq (write_bytes a (to16 (st_type st)))
       (write_bytes (a + 4) (to32 (st_dev st) @ to32 (st_ino st) @ to32 (st_size st)))"

definition sys_fstat :: "(int, kst) kop" where
  "sys_fstat =
     obind (argint 0) (\<lambda>fd.
     obind (argptr 1 16) (\<lambda>p.
     case p of None \<Rightarrow> ret (-1) | Some a \<Rightarrow>
     obind (file_stat devsw_read (sint fd)) (\<lambda>(r, st).
     oseq (case st of None \<Rightarrow> ret () | Some st \<Rightarrow> write_stat a st) (ret r))))"

definition sys_open :: "(int, kst) kop" where
  "sys_open =
     obind (argstr 0) (\<lambda>p.
     case p of None \<Rightarrow> ret (-1) | Some (addr, len) \<Rightarrow>
     obind (argint 1) (\<lambda>file_mode.
     if file_mode = O_CREATE then ret (-1)
     else if file_mode \<noteq> O_RDONLY \<and> file_mode \<noteq> O_WRONLY \<and> file_mode \<noteq> O_RDWR then ret (-1)
     else obind (read_bytes len addr) (\<lambda>path. file_open devsw_read file_mode path)))"

definition sys_exec :: "(int, kst) kop" where
  "sys_exec = ret (-1)"

definition sys_pipe :: "(int, kst) kop" where
  "sys_pipe =
     obind (argptr 0 8) (\<lambda>p.
     case p of None \<Rightarrow> ret (-1) | Some a \<Rightarrow>
     obind (read_bytes 8 a) (\<lambda>old.
     obind (pipe [sint (le32 (take 4 old)), sint (le32 (drop 4 old))]) (\<lambda>(r, arr).
     oseq (write_bytes a (to32 (of_int (arr ! 0)) @ to32 (of_int (arr ! 1)))) (ret r))))"

definition sys_unlink :: "(int, kst) kop" where
  "sys_unlink = ret (-1)"

section \<open>Process system calls\<close>

definition sys_crashn :: "(int, kst) kop" where
  "sys_crashn =
     obind (argint 0) (\<lambda>n.
     oseq (modify (\<lambda>s. s\<lparr>bcache := (bcache s)\<lparr>crashn_enable := True, crashn := sint n\<rparr>\<rparr>)) (ret 0))"

definition sys_fork :: "u64 \<Rightarrow> (int, kst) kop" where
  "sys_fork data_start = fork data_start"

definition sys_exit :: "(int, kst) kop" where
  "sys_exit = oseq exit hang"

definition sys_wait :: "(int, kst) kop" where
  "sys_wait = wait"

definition sys_kill :: "(int, kst) kop" where
  "sys_kill = obind (argint 0) (\<lambda>n. kill (sint n))"

definition sys_getpid :: "(int, kst) kop" where
  "sys_getpid = obind myproc (\<lambda>p. gets (\<lambda>s. pid (get_proc p s)))"

definition sys_sbrk :: "(int, kst) kop" where
  "sys_sbrk = ret 0"

text \<open>The loop of \<open>sys_sleep\<close>; the difference of two tick counts is unsigned.\<close>

definition sys_sleep_loop :: "u32 \<Rightarrow> u32 \<Rightarrow> (int, kst) kop" where
  "sys_sleep_loop ticks0 n =
     obind (gets ticks) (\<lambda>t.
     if t - ticks0 < n then
       obind myproc (\<lambda>p.
       obind (gets (\<lambda>s. killed (get_proc p s))) (\<lambda>k.
       if k then oseq (release TicksLock) (ret (-1))
       else oseq (sleep ChTicks (Some TicksLock)) hang))
     else oseq (release TicksLock) (ret 0))"

definition sys_sleep :: "(int, kst) kop" where
  "sys_sleep =
     obind (argint 0) (\<lambda>n.
     oseq (acquire TicksLock) (
     obind (gets ticks) (\<lambda>ticks0. sys_sleep_loop ticks0 n)))"

definition sys_sleep_resume :: "bool \<Rightarrow> u32 \<Rightarrow> u32 \<Rightarrow> (int, kst) kop" where
  "sys_sleep_resume en ticks0 n = oseq (sleep_resume en TicksLock) (sys_sleep_loop ticks0 n)"

definition sys_uptime :: "(int, kst) kop" where
  "sys_uptime =
     oseq (acquire TicksLock) (
     obind (gets ticks) (\<lambda>xticks.
     oseq (release TicksLock) (ret (sint xticks))))"

definition sys_sysinfo :: "(int, kst) kop" where
  "sys_sysinfo =
     obind (argptr 0 20) (\<lambda>p.
     case p of None \<Rightarrow> ret (-1) | Some a \<Rightarrow>
     obind (gets (\<lambda>s. [pages_in_use (kmem s), pages_in_swap (kmem s), free_pages (kmem s),
                        num_page_faults s, num_disk_reads (bcache s)])) (\<lambda>info.
     oseq (write_bytes a (concat (map (\<lambda>i. to32 (of_int i)) info))) (ret 0)))"

section \<open>Dispatch\<close>

definition syscalls :: "u64 \<Rightarrow> int \<Rightarrow> (int, kst) kop option" where
  "syscalls data_start num =
     (if num = 1 then Some (sys_fork data_start) else if num = 2 then Some sys_exit
      else if num = 3 then Some sys_wait else if num = 4 then Some sys_pipe
      else if num = 5 then Some sys_read else if num = 6 then Some sys_kill
      else if num = 7 then Some sys_exec else if num = 8 then Some sys_fstat
      else if num = 10 then Some sys_dup else if num = 11 then Some sys_getpid
      else if num = 12 then Some sys_sbrk else if num = 13 then Some sys_sleep
      else if num = 14 then Some sys_uptime else if num = 15 then Some sys_open
      else if num = 16 then Some sys_write else if num = 18 then Some sys_unlink
      else if num = 21 then Some sys_close else if num = 22 then Some sys_sysinfo
      else if num = 23 then Some sys_crashn else None)"

definition set_rax :: "int \<Rightarrow> (unit, kst) kop" where
  "set_rax v = obind myproc (\<lambda>p. modify (upd_proc p (\<lambda>q. q\<lparr>tf := (tf q)\<lparr>rax := of_int v\<rparr>\<rparr>)))"

definition syscall :: "u64 \<Rightarrow> (unit, kst) kop" where
  "syscall data_start =
     obind myproc (\<lambda>p.
     obind (gets (get_proc p)) (\<lambda>q.
     let num = sint (ucast (rax (tf q)) :: u32) in
     case (if 0 < num then syscalls data_start num else None) of
       Some f \<Rightarrow> obind f set_rax
     | None \<Rightarrow>
         oseq (cprintf (ascii ''%d %s: unknown sys call %d'' @ [10])
                 [FInt (of_int (pid q)), FStr (Some (pname q)), FInt (of_int num)])
           (set_rax (-1))))"

section \<open>Traps\<close>

definition TRAP_PF :: u64 where "TRAP_PF = 14"
definition TRAP_IRQ0 :: u64 where "TRAP_IRQ0 = 32"
definition TRAP_SYSCALL :: u64 where "TRAP_SYSCALL = 64"
definition IRQ_TIMER :: u64 where "IRQ_TIMER = 0"
definition IRQ_KBD :: u64 where "IRQ_KBD = 1"
definition IRQ_COM1 :: u64 where "IRQ_COM1 = 4"
definition IRQ_IDE :: u64 where "IRQ_IDE = 14"
definition IRQ_SPURIOUS :: u64 where "IRQ_SPURIOUS = 31"

lemmas trap_defs = TRAP_PF_def TRAP_IRQ0_def TRAP_SYSCALL_def IRQ_TIMER_def IRQ_KBD_def IRQ_COM1_def
  IRQ_IDE_def IRQ_SPURIOUS_def

definition tvinit :: "(unit, kst) kop" where
  "tvinit = initlock TicksLock"

definition timer_tick :: "(unit, kst) kop" where
  "timer_tick =
     oseq (acquire TicksLock) (
     oseq (modify (\<lambda>s. s\<lparr>ticks := ticks s + 1\<rparr>)) (
     oseq (wakeup ChTicks)
       (release TicksLock)))"

definition from_user :: "trap_frame \<Rightarrow> bool" where
  "from_user t \<longleftrightarrow> cs t AND 3 = DPL_USER"

definition am_killed :: "(bool, kst) kop" where
  "am_killed = gets (\<lambda>s. case curproc (cpu s) of None \<Rightarrow> False | Some p \<Rightarrow> killed (get_proc p s))"

text \<open>The default case: \<open>addr\<close> is the faulting address in register \<open>cr2\<close>.\<close>

definition trap_other :: "trap_frame \<Rightarrow> nat \<Rightarrow> u64 \<Rightarrow> (unit, kst) kop" where
  "trap_other t cpun addr =
     oseq (kwhen (trapno t = TRAP_PF) (
             oseq (modify (\<lambda>s. s\<lparr>num_page_faults := num_page_faults s + 1\<rparr>)) (
             obind (gets (\<lambda>s. curproc (cpu s))) (\<lambda>p.
             kwhen (p = None \<or> cs t AND 3 = 0) (panic ''trap''))))) (
     obind myproc (\<lambda>p.
     obind (gets (get_proc p)) (\<lambda>q.
     oseq (cprintf (ascii ''pid %d %s: trap %d err %d on cpu %d rip 0x%lx addr 0x%x--kill proc'' @ [10])
             [FInt (of_int (pid q)), FStr (Some (pname q)), FInt (trapno t), FInt (err t),
              FInt (of_nat cpun), FInt (rip t), FInt addr])
       (modify (upd_proc p (\<lambda>q. q\<lparr>killed := True\<rparr>))))))"

text \<open>The \<open>switch\<close>; \<open>bs\<close> are the bytes a device has ready, \<open>pcs\<close> the return addresses of \<open>procdump\<close>.
  With the disk in memory (\<open>memide.c\<close>) \<open>ideintr\<close> does nothing.\<close>

definition trap_switch ::
  "(nat \<Rightarrow> u64 list) \<Rightarrow> trap_frame \<Rightarrow> nat \<Rightarrow> u64 \<Rightarrow> byte list \<Rightarrow> (unit, kst) kop" where
  "trap_switch pcs t cpun addr bs =
     (let n = trapno t in
      if n = TRAP_IRQ0 + IRQ_TIMER then kwhen (cpun = 0) timer_tick
      else if n = TRAP_IRQ0 + IRQ_IDE then ret ()
      else if n = TRAP_IRQ0 + IRQ_IDE + 1 then ret ()
      else if n = TRAP_IRQ0 + IRQ_KBD then kbdintr pcs bs
      else if n = TRAP_IRQ0 + IRQ_COM1 then uartintr pcs bs
      else if n = TRAP_IRQ0 + 7 \<or> n = TRAP_IRQ0 + IRQ_SPURIOUS then
        cprintf (ascii ''cpu%d: spurious interrupt at %x:%x'' @ [10]) [FInt (of_nat cpun), FInt (cs t), FInt (rip t)]
      else trap_other t cpun addr)"

text \<open>Lines 112--114, reached again when \<open>yield\<close> returns.\<close>

definition trap_end :: "trap_frame \<Rightarrow> (unit, kst) kop" where
  "trap_end t = obind am_killed (\<lambda>k. kwhen (k \<and> from_user t) exit)"

definition trap_yield_resume :: "bool \<Rightarrow> trap_frame \<Rightarrow> (unit, kst) kop" where
  "trap_yield_resume en t = oseq (yield_resume en) (trap_end t)"

definition trap ::
  "u64 \<Rightarrow> (nat \<Rightarrow> u64 list) \<Rightarrow> trap_frame \<Rightarrow> nat \<Rightarrow> u64 \<Rightarrow> byte list \<Rightarrow> (unit, kst) kop" where
  "trap data_start pcs t cpun addr bs =
     (if trapno t = TRAP_SYSCALL then
        obind myproc (\<lambda>p.
        obind (gets (\<lambda>s. killed (get_proc p s))) (\<lambda>k.
        oseq (kwhen k exit) (
        oseq (modify (upd_proc p (\<lambda>q. q\<lparr>tf := t\<rparr>))) (
        oseq (syscall data_start) (
        obind (gets (\<lambda>s. killed (get_proc p s))) (\<lambda>k. kwhen k exit))))))
      else
        oseq (trap_switch pcs t cpun addr bs) (
        obind am_killed (\<lambda>k.
        oseq (kwhen (k \<and> from_user t) exit) (
        obind (gets (\<lambda>s. case curproc (cpu s) of None \<Rightarrow> False | Some p \<Rightarrow> pstate (get_proc p s) = RUNNING)) (\<lambda>running.
        oseq (kwhen (running \<and> trapno t = TRAP_IRQ0 + IRQ_TIMER) yield)
          (trap_end t))))))"

end
