(* ===== verification/Guarantee.thy ===== *)
theory Guarantee
  imports Syscall
begin

text \<open>
  What a kernel operation guarantees to the processes that are not running.

  \<open>guar R S m\<close> says of every execution of \<open>m\<close>: if it returns, the states before and after are related
  by \<open>R\<close>, and if it switches to the scheduler they are related by \<open>S\<close>.  The locale \<open>guarantee\<close> gives
  the rules for the combinators once and for all; it is interpreted for three relations on the process
  table.
  \<^item> \<open>keep\<close>: the operation leaves the states and numbers of all processes alone and never switches.
  \<^item> \<open>turn\<close>: the operation runs on behalf of the running process, which is still running when it
    returns; no other process stops being runnable or becomes running; process numbers stay unique.
  \<^item> \<open>leave\<close>: as \<open>turn\<close>, but the current process may change its own state, as it does on its way
    to the scheduler.
\<close>

section \<open>Guarantees\<close>

definition guar :: "('s \<Rightarrow> 's \<Rightarrow> bool) \<Rightarrow> ('s \<Rightarrow> 's \<Rightarrow> bool) \<Rightarrow> ('a, 's) kop \<Rightarrow> bool" where
  "guar R S m \<longleftrightarrow> (\<forall>s. (\<forall>a t. m s = Ret a t \<longrightarrow> R s t) \<and> (\<forall>t. m s = Swtch t \<longrightarrow> S s t))"

lemma guarI:
  "(\<And>s a t. m s = Ret a t \<Longrightarrow> R s t) \<Longrightarrow> (\<And>s t. m s = Swtch t \<Longrightarrow> S s t) \<Longrightarrow> guar R S m"
  by (simp add: guar_def)

lemma guar_ret_D: "guar R S m \<Longrightarrow> m s = Ret a t \<Longrightarrow> R s t"
  and guar_swtch_D: "guar R S m \<Longrightarrow> m s = Swtch t \<Longrightarrow> S s t"
  by (simp_all add: guar_def)

lemma guar_mono: "guar R S m \<Longrightarrow> (\<And>s t. R s t \<Longrightarrow> R' s t) \<Longrightarrow> (\<And>s t. S s t \<Longrightarrow> S' s t) \<Longrightarrow> guar R' S' m"
  by (simp add: guar_def)

lemma obind_cases:
  "obind m f s = Ret b u \<longleftrightarrow> (\<exists>a t. m s = Ret a t \<and> f a t = Ret b u)"
  "obind m f s = Swtch u \<longleftrightarrow> m s = Swtch u \<or> (\<exists>a t. m s = Ret a t \<and> f a t = Swtch u)"
  by (auto simp: obind_def split: outcome.splits)

lemma oseq_cases:
  "oseq m n s = Ret b u \<longleftrightarrow> (\<exists>a t. m s = Ret a t \<and> n t = Ret b u)"
  "oseq m n s = Swtch u \<longleftrightarrow> m s = Swtch u \<or> (\<exists>a t. m s = Ret a t \<and> n t = Swtch u)"
  by (simp_all add: oseq_def obind_cases)

lemma basic_cases:
  "gets g s = Ret c u \<longleftrightarrow> c = g s \<and> u = s" "modify h s = Ret d u \<longleftrightarrow> u = h s" "ret e s = Ret f u \<longleftrightarrow> f = e \<and> u = s"
  "gets g s \<noteq> Swtch u" "modify h s \<noteq> Swtch u" "ret e s \<noteq> Swtch u" "panic m s \<noteq> Ret f u" "hang s \<noteq> Ret f u"
  by (auto simp: kop_defs)

lemmas run_rules = obind_cases oseq_cases basic_cases

locale guarantee =
  fixes R S :: "'s \<Rightarrow> 's \<Rightarrow> bool"
  assumes refl: "R s s"
    and trans: "R s t \<Longrightarrow> R t u \<Longrightarrow> R s u"
    and switch: "R s t \<Longrightarrow> S t u \<Longrightarrow> S s u"
begin

lemma basic: "guar R S (ret a)" "guar R S (panic e)" "guar R S hang" "guar R S (gets g)" "guar R S (kassert b e)"
  by (simp_all add: guar_def kop_defs refl)

text \<open>What follows may use what the first operation has found out.\<close>

lemma bind_ret:
  assumes m: "guar R S m"
    and r: "\<And>s a t b u. m s = Ret a t \<Longrightarrow> f a t = Ret b u \<Longrightarrow> R t u"
    and w: "\<And>s a t u. m s = Ret a t \<Longrightarrow> f a t = Swtch u \<Longrightarrow> S t u"
  shows "guar R S (obind m f)"
proof (rule guarI)
  fix s b u assume "obind m f s = Ret b u"
  then obtain a t where "m s = Ret a t" "f a t = Ret b u" by (auto simp: obind_cases)
  then show "R s u" using trans [OF guar_ret_D [OF m] r] by blast
next
  fix s u assume "obind m f s = Swtch u"
  then consider "m s = Swtch u" | a t where "m s = Ret a t" "f a t = Swtch u" by (auto simp: obind_cases)
  then show "S s u" using guar_swtch_D [OF m] switch [OF guar_ret_D [OF m] w] by cases blast+
qed

lemma bind: "guar R S m \<Longrightarrow> (\<And>a. guar R S (f a)) \<Longrightarrow> guar R S (obind m f)"
  by (rule bind_ret) (auto dest: guar_ret_D guar_swtch_D)

lemma seq: "guar R S m \<Longrightarrow> guar R S n \<Longrightarrow> guar R S (oseq m n)"
  by (simp add: oseq_def bind)

lemma modif: "(\<And>s. R s (f s)) \<Longrightarrow> guar R S (modify f)"
  by (simp add: guar_def modify_def)

lemma condition: "guar R S m \<Longrightarrow> guar R S (kwhen b m)" "guar R S m' \<Longrightarrow> guar R S n \<Longrightarrow> guar R S (if b then m' else n)"
  by (simp_all add: guar_def kwhen_def ret_def refl)

lemma loop: "(\<And>i. guar R S (f i)) \<Longrightarrow> guar R S (foreach is f)"
  by (induction "is") (simp_all add: basic seq)

lemma opt: "guar R S n \<Longrightarrow> (\<And>x. guar R S (f x)) \<Longrightarrow> guar R S (case z of None \<Rightarrow> n | Some x \<Rightarrow> f x)"
  by (simp split: option.split)

lemma pair: "(\<And>x y. guar R S (g x y)) \<Longrightarrow> guar R S (case w of (x, y) \<Rightarrow> g x y)"
  by (simp split: prod.split)

lemma lt: "(\<And>v. guar R S (h v)) \<Longrightarrow> guar R S (let v = e in h v)"
  by simp

lemmas intros = basic bind seq condition loop opt pair lt

end

section \<open>The relations\<close>

text \<open>What the scheduler sees of the processes.\<close>

definition psig :: "kst \<Rightarrow> (procstate \<times> int) list \<times> int \<times> nat option" where
  "psig s = (map (\<lambda>p. (pstate p, pid p)) (procs (ptable s)), nextpid (ptable s), curproc (cpu s))"

definition keepR :: "kst \<Rightarrow> kst \<Rightarrow> bool" where
  "keepR s t \<longleftrightarrow> psig t = psig s"

definition noswitch :: "kst \<Rightarrow> kst \<Rightarrow> bool" where
  "noswitch s t \<longleftrightarrow> False"

abbreviation keeps :: "('a, kst) kop \<Rightarrow> bool" where
  "keeps \<equiv> guar keepR noswitch"

text \<open>Process numbers: those in use are positive, different, and smaller than the next one.\<close>

definition pids_ok :: "kst \<Rightarrow> bool" where
  "pids_ok s \<longleftrightarrow> (\<forall>i < length (procs (ptable s)). pid (get_proc i s) < nextpid (ptable s)) \<and> 0 < nextpid (ptable s) \<and>
     (\<forall>i < length (procs (ptable s)). \<forall>j < length (procs (ptable s)).
        pid (get_proc i s) = pid (get_proc j s) \<and> pid (get_proc i s) \<noteq> 0 \<longrightarrow> i = j)"

text \<open>What may happen to the state of a process while another one runs.\<close>

definition calm :: "procstate \<Rightarrow> procstate \<Rightarrow> bool" where
  "calm a b \<longleftrightarrow> (a = RUNNABLE \<longrightarrow> b = RUNNABLE) \<and> (b = RUNNING \<longrightarrow> a = RUNNING)"

lemma calm_refl [simp]: "calm a a"
  by (simp add: calm_def)

lemma calm_trans: "calm a b \<Longrightarrow> calm b c \<Longrightarrow> calm a c"
  unfolding calm_def by blast

definition others :: "nat \<Rightarrow> kst \<Rightarrow> kst \<Rightarrow> bool" where
  "others i s t \<longleftrightarrow> length (procs (ptable t)) = length (procs (ptable s)) \<and> curproc (cpu t) = curproc (cpu s) \<and>
     (pids_ok s \<longrightarrow> pids_ok t) \<and>
     (\<forall>j < length (procs (ptable s)). j \<noteq> i \<longrightarrow> calm (pstate (get_proc j s)) (pstate (get_proc j t)))"

definition current :: "kst \<Rightarrow> nat \<Rightarrow> bool" where
  "current s i \<longleftrightarrow> curproc (cpu s) = Some i \<and> i < length (procs (ptable s))"

definition running :: "kst \<Rightarrow> nat \<Rightarrow> bool" where
  "running s i \<longleftrightarrow> current s i \<and> pstate (get_proc i s) = RUNNING"

definition turnR :: "nat \<Rightarrow> kst \<Rightarrow> kst \<Rightarrow> bool" where
  "turnR i s t \<longleftrightarrow> (running s i \<longrightarrow> running t i \<and> others i s t)"

definition turnS :: "nat \<Rightarrow> kst \<Rightarrow> kst \<Rightarrow> bool" where
  "turnS i s t \<longleftrightarrow> (running s i \<longrightarrow> current t i \<and> others i s t \<and> pstate (get_proc i t) \<noteq> RUNNING)"

definition leaveR :: "nat \<Rightarrow> kst \<Rightarrow> kst \<Rightarrow> bool" where
  "leaveR i s t \<longleftrightarrow> (current s i \<longrightarrow> current t i \<and> others i s t)"

definition leaveS :: "nat \<Rightarrow> kst \<Rightarrow> kst \<Rightarrow> bool" where
  "leaveS i s t \<longleftrightarrow> (current s i \<longrightarrow> current t i \<and> others i s t \<and> pstate (get_proc i t) \<noteq> RUNNING)"

abbreviation turn :: "nat \<Rightarrow> ('a, kst) kop \<Rightarrow> bool" where
  "turn i \<equiv> guar (turnR i) (turnS i)"

abbreviation leave :: "nat \<Rightarrow> ('a, kst) kop \<Rightarrow> bool" where
  "leave i \<equiv> guar (leaveR i) (leaveS i)"

lemma others_refl: "others i s s"
  by (simp add: others_def)

lemma others_trans:
  assumes st: "others i s t" and tu: "others i t u"
  shows "others i s u"
proof -
  have "calm (pstate (get_proc j s)) (pstate (get_proc j u))" if "j < length (procs (ptable s))" "j \<noteq> i" for j
  proof (rule calm_trans)
    show "calm (pstate (get_proc j s)) (pstate (get_proc j t))" using st that by (simp add: others_def)
    show "calm (pstate (get_proc j t)) (pstate (get_proc j u))" using st tu that by (simp add: others_def)
  qed
  then show ?thesis using st tu by (simp add: others_def)
qed

interpretation keep: guarantee keepR noswitch
  by unfold_locales (simp_all add: keepR_def noswitch_def)

interpretation turn: guarantee "turnR i" "turnS i" for i
  by unfold_locales (simp add: turnR_def others_refl, unfold turnR_def turnS_def, (meson others_trans)+)

interpretation leave: guarantee "leaveR i" "leaveS i" for i
  by unfold_locales (simp add: leaveR_def others_refl, unfold leaveR_def leaveS_def, (meson others_trans)+)

text \<open>An operation that does not switch.\<close>

interpretation stays: guarantee "\<lambda>_ _. True" noswitch
  by unfold_locales (simp_all add: noswitch_def)

lemma psig_eqD:
  assumes "psig t = psig s"
  shows "length (procs (ptable t)) = length (procs (ptable s))" "nextpid (ptable t) = nextpid (ptable s)"
    "curproc (cpu t) = curproc (cpu s)"
    "j < length (procs (ptable s)) \<Longrightarrow> pstate (get_proc j t) = pstate (get_proc j s)"
    "j < length (procs (ptable s)) \<Longrightarrow> pid (get_proc j t) = pid (get_proc j s)"
proof -
  have m: "map (\<lambda>p. (pstate p, pid p)) (procs (ptable t)) = map (\<lambda>p. (pstate p, pid p)) (procs (ptable s))"
    using assms by (simp add: psig_def)
  show l: "length (procs (ptable t)) = length (procs (ptable s))" using map_eq_imp_length_eq [OF m] .
  show "nextpid (ptable t) = nextpid (ptable s)" "curproc (cpu t) = curproc (cpu s)"
    using assms by (simp_all add: psig_def)
  assume j: "j < length (procs (ptable s))"
  have "map (\<lambda>p. (pstate p, pid p)) (procs (ptable t)) ! j = map (\<lambda>p. (pstate p, pid p)) (procs (ptable s)) ! j"
    by (simp only: m)
  then show "pstate (get_proc j t) = pstate (get_proc j s)" "pid (get_proc j t) = pid (get_proc j s)"
    using j l by (simp_all add: get_proc_def)
qed

lemma keepR_others: "keepR s t \<Longrightarrow> others i s t"
  using psig_eqD [of t s] by (simp add: keepR_def others_def pids_ok_def)

lemma keepR_turnR: "keepR s t \<Longrightarrow> turnR i s t"
  using keepR_others [of s t] psig_eqD [of t s] by (auto simp: turnR_def running_def current_def keepR_def)

lemma keepR_leaveR: "keepR s t \<Longrightarrow> leaveR i s t"
  using keepR_others [of s t] psig_eqD [of t s] by (auto simp: leaveR_def current_def keepR_def)

lemma keep_turn: "keeps m \<Longrightarrow> turn i m"
  and keep_leave: "keeps m \<Longrightarrow> leave i m"
  and keep_stays: "keeps m \<Longrightarrow> guar (\<lambda>_ _. True) noswitch m"
  by (auto elim!: guar_mono simp: keepR_turnR keepR_leaveR noswitch_def)

text \<open>An operation that leaves and never returns is a turn.\<close>

definition noret :: "('a, 's) kop \<Rightarrow> bool" where
  "noret m \<longleftrightarrow> (\<forall>s a t. m s \<noteq> Ret a t)"

lemma leave_turn: "leave i m \<Longrightarrow> noret m \<Longrightarrow> turn i m"
  by (auto simp: guar_def noret_def leaveS_def turnS_def running_def)

lemma noret_intros:
  "noret m \<Longrightarrow> noret (obind m f)" "(\<And>a. noret (f a)) \<Longrightarrow> noret (obind m f)"
  "noret m \<Longrightarrow> noret (oseq m n)" "noret n \<Longrightarrow> noret (oseq m n)"
  "noret (panic e)" "noret hang"
  by (auto simp: noret_def obind_cases oseq_def panic_def hang_def)

named_theorems keep_ops \<open>operations that keep the process states\<close>
named_theorems turn_ops \<open>operations of the running process\<close>

section \<open>Locks and memory\<close>

lemma keepR_frame [simp]:
  "keepR s (s\<lparr>locks := a\<rparr>)" "keepR s (s\<lparr>slocks := b\<rparr>)" "keepR s (s\<lparr>kmem := c\<rparr>)" "keepR s (s\<lparr>pviews := d\<rparr>)"
  "keepR s (s\<lparr>bcache := e\<rparr>)" "keepR s (s\<lparr>icache := f\<rparr>)" "keepR s (s\<lparr>file_table := g\<rparr>)" "keepR s (s\<lparr>cons := h\<rparr>)"
  "keepR s (s\<lparr>ticks := l\<rparr>)" "keepR s (s\<lparr>num_page_faults := m\<rparr>)"
  "keepR s (s\<lparr>ptable := (ptable s)\<lparr>forkret_first := n\<rparr>\<rparr>)"
  "curproc k = curproc (cpu s) \<Longrightarrow> keepR s (s\<lparr>cpu := k\<rparr>)"
  by (simp_all add: keepR_def psig_def)

lemma keepR_upd_proc [simp]:
  assumes "\<And>p. pstate (f p) = pstate p" "\<And>p. pid (f p) = pid p"
  shows "keepR s (upd_proc i f s)"
proof -
  have "map (\<lambda>p. (pstate p, pid p)) ((procs (ptable s))[i := f (procs (ptable s) ! i)]) = map (\<lambda>p. (pstate p, pid p)) (procs (ptable s))"
    by (cases "i < length (procs (ptable s))") (simp_all add: map_update assms list_update_same_conv list_update_beyond)
  then show ?thesis by (simp add: keepR_def psig_def upd_proc_def)
qed

lemma keep_locks [keep_ops]:
  "keeps pushcli" "keeps popcli" "keeps (acquire l)" "keeps (release l)" "keeps (initlock l)" "keeps myproc"
  unfolding pushcli_def popcli_def acquire_def release_def initlock_def myproc_def
  by (intro keep.intros keep.modif; simp add: Let_def)+

lemma turn_my: "turn i (f i) \<Longrightarrow> turn i (obind myproc f)"
  by (auto simp: guar_def myproc_def kop_defs turnR_def turnS_def running_def current_def)

lemma leave_my: "leave i (f i) \<Longrightarrow> leave i (obind myproc f)"
  by (auto simp: guar_def myproc_def kop_defs leaveR_def leaveS_def current_def)

section \<open>Scheduling primitives\<close>

lemma othersI:
  assumes "length (procs (ptable t)) = length (procs (ptable s))" "curproc (cpu t) = curproc (cpu s)"
    and "nextpid (ptable t) = nextpid (ptable s)"
    and "\<And>j. j < length (procs (ptable s)) \<Longrightarrow> pid (get_proc j t) = pid (get_proc j s)"
    and "\<And>j. j < length (procs (ptable s)) \<Longrightarrow> j \<noteq> i \<Longrightarrow> calm (pstate (get_proc j s)) (pstate (get_proc j t))"
  shows "others i s t"
  using assms by (simp add: others_def pids_ok_def)

text \<open>The current process changes its own state.\<close>

lemma leaveR_self: "(\<And>p. pid (f p) = pid p) \<Longrightarrow> leaveR i s (upd_proc i f s)"
  unfolding leaveR_def
  by (intro impI conjI othersI) (auto simp: current_def)

lemma get_proc_wake: "j < length (procs (ptable s)) \<Longrightarrow>
    get_proc j (s\<lparr>ptable := (ptable s)\<lparr>procs := map (wake c) (procs (ptable s))\<rparr>\<rparr>) = wake c (get_proc j s)"
  by (simp add: get_proc_def)

lemma calm_wake: "calm (pstate p) (pstate (wake c p))"
  by (simp add: wake_def calm_def)

lemma wake_others: "others i s (s\<lparr>ptable := (ptable s)\<lparr>procs := map (wake c) (procs (ptable s))\<rparr>\<rparr>)"
  by (rule othersI) (simp_all add: get_proc_wake calm_wake)

lemma turn_wakeup1 [turn_ops]: "turn i (wakeup1 c)"
  unfolding wakeup1_def
  by (rule turn.modif) (auto simp: turnR_def running_def current_def get_proc_wake wake_others wake_def)

lemma leave_wakeup1: "leave i (wakeup1 c)"
  unfolding wakeup1_def
  by (rule leave.modif) (auto simp: leaveR_def current_def wake_others)

lemma noret_sched: "noret sched"
  using wp_Ret [of sched _ _ _ "\<lambda>_ _. True"] by (auto simp: noret_def wp_sched)

lemma leave_sched: "leave i sched"
proof (rule guarI)
  fix s t assume "sched s = Swtch t"
  then have "wps sched (\<lambda>u. u = t) s" by (simp add: wps_def)
  then show "leaveS i s t" by (auto simp: wps_sched leaveS_def current_def others_refl)
qed (use noret_sched in \<open>auto simp: noret_def\<close>)

lemma turn_wakeup [turn_ops]: "turn i (wakeup c)"
  unfolding wakeup_def by (intro turn.intros turn_ops keep_ops [THEN keep_turn])

lemma turn_yield [turn_ops]: "turn i yield"
  unfolding yield_def
proof (rule turn.seq, intro keep_ops [THEN keep_turn], rule turn_my, rule leave_turn)
  show "leave i (oseq (modify (upd_proc i (pstate_update (\<lambda>_. RUNNABLE)))) sched)"
    by (intro leave.seq leave.modif leaveR_self leave_sched) simp
  show "noret (oseq (modify (upd_proc i (pstate_update (\<lambda>_. RUNNABLE)))) sched)"
    by (rule noret_intros) (rule noret_sched)
qed

lemma turn_sleep [turn_ops]: "turn i (sleep c lk)"
proof (rule guarI)
  fix s a t assume "sleep c lk s = Ret a t"
  then show "turnR i s t" using wp_Ret [of "sleep c lk" s a t "\<lambda>_ _. True"] by (simp add: wp_sleep)
next
  fix s t assume sl: "sleep c lk s = Swtch t"
  let ?body = "\<lambda>l. oseq (kwhen (l \<noteq> PtableLock) (oseq (acquire PtableLock) (release l)))
     (oseq (modify (upd_proc i (\<lambda>q. q\<lparr>pchan := Some c, pstate := SLEEPING\<rparr>))) sched)"
  have body: "leave i (?body l)" for l
    by (intro leave.intros leave.modif leaveR_self leave_sched keep_ops [THEN keep_leave]) simp
  have "\<exists>l. ?body l s = Swtch t" if "running s i"
    using sl that by (auto simp: sleep_def obind_def gets_def running_def current_def panic_def split: option.splits)
  then have "leaveS i s t" if "running s i" using that guar_swtch_D [OF body] by blast
  then show "turnS i s t" by (simp add: turnS_def leaveS_def running_def)
qed

lemma turn_sleep_resume [turn_ops]: "turn i (sleep_resume en l)"
  unfolding sleep_resume_def sched_resume_def
  by (intro turn.intros keep_ops [THEN keep_turn] keep.modif [THEN keep_turn]; simp)

end
