(* ===== verification/KernelOps.thy ===== *)
theory KernelOps
  imports Guarantee
begin

text \<open>
  The guarantees of the kernel's operations, component by component: what runs without looking at the
  process table keeps it, and every system call and interrupt is a turn of the running process.
\<close>

section \<open>Memory\<close>

lemma keep_pa2page [keep_ops]: "keeps (pa2page a)"
  unfolding pa2page_def
  by (intro keep.intros keep.modif keep_ops; simp)

lemma keep_memset_page [keep_ops]: "keeps (memset_page a b)"
  unfolding memset_page_def
  by (intro keep.intros keep.modif keep_ops; simp)

lemma keep_kfree [keep_ops]: "keeps (kfree v)"
  unfolding kfree_def
  by (intro keep.intros keep.modif keep_ops; simp add: upd_core_def)

lemma keep_mark_user_mem [keep_ops]: "keeps (mark_user_mem a v)"
  unfolding mark_user_mem_def
  by (intro keep.intros keep.modif keep_ops; simp add: upd_core_def)

lemma keep_mark_kernel_mem [keep_ops]: "keeps (mark_kernel_mem a)"
  unfolding mark_kernel_mem_def
  by (intro keep.intros keep.modif keep_ops; simp add: upd_core_def)

lemma keep_kalloc [keep_ops]: "keeps (kalloc)"
  unfolding kalloc_def
  by (intro keep.intros keep.modif keep_ops; simp add: upd_core_def)

lemma keep_walk_level [keep_ops]: "keeps (walk_level e a)"
  unfolding walk_level_def
  by (intro keep.intros keep.modif keep_ops; simp add: set_pte_def)

lemma keep_walkpml4 [keep_ops]: "keeps (walkpml4 r va a)"
  unfolding walkpml4_def
  by (intro keep.intros keep.modif keep_ops; simp)

lemma keep_mappages_loop [keep_ops]: "keeps (mappages_loop n r v p m k)"
  by (induction n arbitrary: v p) (simp_all only: mappages_loop.simps, (intro keep.intros keep.modif keep_ops; simp add: set_pte_def)+)

lemma keep_mappages [keep_ops]: "keeps (mappages r v n p m k)"
  unfolding mappages_def
  by (intro keep.intros keep.modif keep_ops; simp)

lemma keep_map_kernel [keep_ops]: "keeps (map_kernel r k)"
  unfolding map_kernel_def
  by (intro keep.intros keep.modif keep_ops; simp)

lemma keep_setupkvm [keep_ops]: "keeps (setupkvm d)"
  unfolding setupkvm_def
  by (intro keep.intros keep.modif keep_ops; simp)

lemma keep_find_next_possible_page [keep_ops]: "keeps (find_next_possible_page r a)"
  unfolding find_next_possible_page_def Let_def
  by (intro keep.intros keep.modif keep_ops; simp)

lemma keep_deallocuvm_loop [keep_ops]: "keeps (deallocuvm_loop k r a l)"
  by (induction k arbitrary: a) (simp_all only: deallocuvm_loop.simps, (intro keep.intros keep.modif keep_ops; simp add: set_pte_def)+)

lemma keep_deallocuvm [keep_ops]: "keeps (deallocuvm r a b c)"
  unfolding deallocuvm_def
  by (intro keep.intros keep.modif keep_ops; simp)

lemma keep_freevm_pgdir [keep_ops]: "keeps (freevm_pgdir a)"
  unfolding freevm_pgdir_def
  by (intro keep.intros keep.modif keep_ops; simp)

lemma keep_freevm_pdpt [keep_ops]: "keeps (freevm_pdpt a)"
  unfolding freevm_pdpt_def
  by (intro keep.intros keep.modif keep_ops; simp)

lemma keep_freevm [keep_ops]: "keeps (freevm a)"
  unfolding freevm_def
  by (intro keep.intros keep.modif keep_ops; simp)

section \<open>Address spaces\<close>

lemma keepR_vspace [simp]: "keepR s (upd_vspace p f s)" "keepR s (upd_region vr g s)"
  by (simp_all add: upd_vspace_def upd_region_def)

lemma keepR_vpi [simp]: "keepR s (upd_vpi v f s)" "keepR s (set_vnext a n s)" "keepR s (set_pte e w s)"
  by (simp_all add: upd_vpi_def set_vnext_def upd_vpi_page_def set_pte_def)

lemma keep_write_page [keep_ops]: "keeps (write_page a n xs)"
  unfolding write_page_def
  by (intro keep.intros keep.modif keep_ops; simp)

lemma keep_vpi_walk [keep_ops]: "keeps (vpi_walk k a n)"
  by (induction k arbitrary: a n) (simp_all only: vpi_walk.simps, (intro keep.intros keep.modif keep_ops; simp)+)

lemma keep_va2vpage_info [keep_ops]: "keeps (va2vpage_info v a)"
  unfolding va2vpage_info_def Let_def
  by (intro keep.intros keep.modif keep_ops; simp)

lemma keep_va2vpi [keep_ops]: "keeps (va2vpi v a)"
  unfolding va2vpi_def
  by (intro keep.intros keep.modif keep_ops; simp)

lemma keep_addmap_loop [keep_ops]: "keeps (addmap_loop k v a l p w)"
  by (induction k arbitrary: a) (simp_all only: addmap_loop.simps, (intro keep.intros keep.modif keep_ops; simp)+)

lemma keep_addmap_undo [keep_ops]: "keeps (addmap_undo k v a l)"
  by (induction k arbitrary: a) (simp_all only: addmap_undo.simps, (intro keep.intros keep.modif keep_ops; simp)+)

lemma keep_vregionaddmap [keep_ops]: "keeps (vregionaddmap v a n p w)"
  unfolding vregionaddmap_def Let_def
  by (intro keep.intros keep.modif keep_ops; simp)

lemma keep_adddata_loop [keep_ops]: "keeps (adddata_loop k v a d j n)"
  by (induction k arbitrary: j) (simp_all only: adddata_loop.simps, (intro keep.intros keep.modif keep_ops; simp)+)

lemma keep_vradddata [keep_ops]: "keeps (vradddata v a d n p w)"
  unfolding vradddata_def
  by (intro keep.intros keep.modif keep_ops; simp)

lemma keep_mapregion_loop [keep_ops]: "keeps (mapregion_loop k p v a l)"
  by (induction k arbitrary: a) (simp_all only: mapregion_loop.simps, (intro keep.intros keep.modif keep_ops; simp)+)

lemma keep_free_user_entry [keep_ops]: "keeps (free_user_entry p j)"
  unfolding free_user_entry_def
  by (intro keep.intros keep.modif keep_ops; simp)

lemma keep_map_region [keep_ops]: "keeps (map_region p j)"
  unfolding map_region_def
  by (intro keep.intros keep.modif keep_ops; simp)

lemma keep_vspaceupdate [keep_ops]: "keeps (vspaceupdate p)"
  unfolding vspaceupdate_def
  by (intro keep.intros keep.modif keep_ops; simp)

lemma keep_vspaceinstall [keep_ops]: "keeps (vspaceinstall p)"
  unfolding vspaceinstall_def
  by (intro keep.intros keep.modif keep_ops; simp)

lemma keep_vspaceinstallkern [keep_ops]: "keeps (vspaceinstallkern)"
  unfolding vspaceinstallkern_def
  by (intro keep.intros keep.modif keep_ops; simp)

lemma keep_vspaceinit [keep_ops]: "keeps (vspaceinit d p)"
  unfolding vspaceinit_def
  by (intro keep.intros keep.modif keep_ops; simp)

lemma keep_free_page_desc_list [keep_ops]: "keeps (free_page_desc_list k a)"
  by (induction k arbitrary: a) (simp_all only: free_page_desc_list.simps, (intro keep.intros keep.modif keep_ops; simp)+)

lemma keep_vspacefree [keep_ops]: "keeps (vspacefree p)"
  unfolding vspacefree_def
  by (intro keep.intros keep.modif keep_ops; simp)

lemma keep_copy_infos [keep_ops]: "keeps (copy_infos js d a)"
  by (induction js) (simp_all only: copy_infos.simps, (intro keep.intros keep.modif keep_ops; simp)+)

lemma keep_copy_vpi_page [keep_ops]: "(\<And>v s. keepR s (st v s)) \<Longrightarrow> keeps (copy_vpi_page k st a)"
  by (induction k arbitrary: st a) (simp_all only: copy_vpi_page.simps, (intro keep.intros keep.modif keep_ops; simp)+)

lemma keep_copy_regions [keep_ops]: "keeps (copy_regions js d)"
  by (induction js) (simp_all only: copy_regions.simps, (intro keep.intros keep.modif keep_ops; simp)+)

lemma keep_vspacecopy [keep_ops]: "keeps (vspacecopy d p)"
  unfolding vspacecopy_def
  by (intro keep.intros keep.modif keep_ops; simp)

lemma keep_writetova_loop [keep_ops]: "keeps (writetova_loop k p va l d n)"
  by (induction k arbitrary: va d n) (simp_all only: writetova_loop.simps, (intro keep.intros keep.modif keep_ops; simp)+)

lemma keep_vspacewritetova [keep_ops]: "keeps (vspacewritetova p va d n)"
  unfolding vspacewritetova_def
  by (intro keep.intros keep.modif keep_ops; simp)

section \<open>Disk and file system\<close>

lemma keepR_fs [simp]: "keepR s (upd_buf b f s)" "keepR s (upd_inode ip g s)" "keepR s (upd_file k h s)" "keepR s (upd_pipe a q s)"
  by (simp_all add: upd_buf_def upd_inode_def upd_file_def upd_pipe_def)

lemma keep_initsleeplock [keep_ops]: "keeps (initsleeplock l)"
  unfolding initsleeplock_def
  by (intro keep.intros keep.modif keep_ops; simp)

lemma turn_acquiresleep_loop [turn_ops]: "turn i (acquiresleep_loop l)"
  unfolding acquiresleep_loop_def
  by (intro turn.intros turn_ops keep_ops [THEN keep_turn] keep.modif [THEN keep_turn]; simp)

lemma turn_acquiresleep [turn_ops]: "turn i (acquiresleep l)"
  unfolding acquiresleep_def
  by (intro turn.intros turn_ops keep_ops [THEN keep_turn] keep.modif [THEN keep_turn]; simp)

lemma turn_acquiresleep_resume [turn_ops]: "turn i (acquiresleep_resume en l)"
  unfolding acquiresleep_resume_def
  by (intro turn.intros turn_ops keep_ops [THEN keep_turn] keep.modif [THEN keep_turn]; simp)

lemma turn_releasesleep [turn_ops]: "turn i (releasesleep l)"
  unfolding releasesleep_def
  by (intro turn.intros turn_ops keep_ops [THEN keep_turn] keep.modif [THEN keep_turn]; simp)

lemma keep_holdingsleep [keep_ops]: "keeps (holdingsleep l)"
  unfolding holdingsleep_def
  by (intro keep.intros keep.modif keep_ops; simp)

lemma keep_iderw [keep_ops]: "keeps (iderw b)"
  unfolding iderw_def
  by (intro keep.intros keep.modif keep_ops; simp add: upd_buf_def keepR_def psig_def)

lemma turn_bget [turn_ops]: "turn i (bget d n)"
  unfolding bget_def
  by (intro turn.intros turn_ops keep_ops [THEN keep_turn] keep.modif [THEN keep_turn]; simp)

lemma turn_bread [turn_ops]: "turn i (bread d n)"
  unfolding bread_def
  by (intro turn.intros turn_ops keep_ops [THEN keep_turn] keep.modif [THEN keep_turn]; simp)

lemma keep_bwrite [keep_ops]: "keeps (bwrite b)"
  unfolding bwrite_def
  by (intro keep.intros keep.modif keep_ops; simp)

lemma turn_brelse [turn_ops]: "turn i (brelse b)"
  unfolding brelse_def
  by (intro turn.intros turn_ops keep_ops [THEN keep_turn] keep.modif [THEN keep_turn]; simp)

lemma turn_readsb [turn_ops]: "turn i (readsb d)"
  unfolding readsb_def
  by (intro turn.intros turn_ops keep_ops [THEN keep_turn] keep.modif [THEN keep_turn]; simp)

lemma turn_init_inodefile [turn_ops]: "turn i (init_inodefile d)"
  unfolding init_inodefile_def
  by (intro turn.intros turn_ops keep_ops [THEN keep_turn] keep.modif [THEN keep_turn]; simp)

lemma turn_iinit [turn_ops]: "turn i (iinit d)"
  unfolding iinit_def
  by (intro turn.intros turn_ops keep_ops [THEN keep_turn] keep.modif [THEN keep_turn]; simp)

lemma turn_readi_loop [turn_ops]: "turn i (readi_loop k ip off n)"
  by (induction k arbitrary: off n) (simp_all only: readi_loop.simps, (intro turn.intros turn_ops keep_ops [THEN keep_turn] keep.modif [THEN keep_turn]; simp)+)

text \<open>The functions of the device switch are part of the turn.\<close>

definition dev_ok :: "nat \<Rightarrow> (u16 \<Rightarrow> (iptr \<Rightarrow> 'b \<Rightarrow> ('a, kst) kop) option) \<Rightarrow> bool" where
  "dev_ok i dv \<longleftrightarrow> (\<forall>d f ip x. dv d = Some f \<longrightarrow> turn i (f ip x))"

lemma dev_okD: "dev_ok i dv \<Longrightarrow> dv d \<noteq> None \<Longrightarrow> turn i (the (dv d) ip x)"
  by (auto simp: dev_ok_def)

lemma turn_split: "(b \<Longrightarrow> turn i m) \<Longrightarrow> (\<not> b \<Longrightarrow> turn i n) \<Longrightarrow> turn i (if b then m else n)"
  by simp

lemma turn_readi [turn_ops]:
  assumes "dev_ok i rd"
  shows "turn i (readi rd ip off n)"
  unfolding readi_def Let_def
  by (intro turn.bind turn_split dev_okD [OF assms] turn.intros turn_ops keep_ops [THEN keep_turn]; simp)

lemma turn_writei [turn_ops]:
  assumes "dev_ok i wr"
  shows "turn i (writei wr ip src off)"
  unfolding writei_def Let_def
  by (intro turn.bind turn_split dev_okD [OF assms] turn.intros turn_ops keep_ops [THEN keep_turn]; simp)

lemma turn_unlocki [turn_ops]: "turn i (unlocki ip)"
  unfolding unlocki_def
  by (intro turn.intros turn_ops keep_ops [THEN keep_turn] keep.modif [THEN keep_turn]; simp)

lemma turn_locki_inodefile [turn_ops]: "dev_ok i rd \<Longrightarrow> turn i (locki_inodefile rd)"
  unfolding locki_inodefile_def
  by (intro turn.intros turn_ops keep_ops [THEN keep_turn] keep.modif [THEN keep_turn]; simp)

lemma turn_read_dinode [turn_ops]: "dev_ok i rd \<Longrightarrow> turn i (read_dinode rd n)"
  unfolding read_dinode_def
  by (intro turn.intros turn_ops keep_ops [THEN keep_turn] keep.modif [THEN keep_turn]; simp)

lemma turn_iptr: "turn i m \<Longrightarrow> (\<And>k. turn i (n k)) \<Longrightarrow> turn i (case ip of INode k \<Rightarrow> n k | InodeFile \<Rightarrow> m)"
  by (simp split: iptr.split)

lemma turn_locki [turn_ops]: "dev_ok i rd \<Longrightarrow> turn i (locki rd ip)"
  unfolding locki_def
  by (intro turn.intros turn_iptr turn_ops keep_ops [THEN keep_turn] keep.modif [THEN keep_turn]; simp)

lemma keep_stati [keep_ops]: "keeps (stati ip)"
  unfolding stati_def
  by (intro keep.intros keep.modif keep_ops; simp)

lemma turn_concurrent_stati [turn_ops]: "dev_ok i rd \<Longrightarrow> turn i (concurrent_stati rd ip)"
  unfolding concurrent_stati_def
  by (intro turn.intros turn_ops keep_ops [THEN keep_turn] keep.modif [THEN keep_turn]; simp)

lemma turn_concurrent_readi [turn_ops]: "dev_ok i rd \<Longrightarrow> turn i (concurrent_readi rd ip off n)"
  unfolding concurrent_readi_def
  by (intro turn.intros turn_ops keep_ops [THEN keep_turn] keep.modif [THEN keep_turn]; simp)

lemma turn_concurrent_writei [turn_ops]: "dev_ok i rd \<Longrightarrow> dev_ok i wr \<Longrightarrow> turn i (concurrent_writei rd wr ip src off)"
  unfolding concurrent_writei_def
  by (intro turn.intros turn_ops keep_ops [THEN keep_turn] keep.modif [THEN keep_turn]; simp)

lemma keep_iget [keep_ops]: "keeps (iget d n)"
  unfolding iget_def
  by (intro keep.intros keep.modif keep_ops; simp)

lemma keep_idup [keep_ops]: "keeps (idup ip)"
  unfolding idup_def
  by (intro keep.intros keep.modif keep_ops; simp)

lemma keep_irelease [keep_ops]: "keeps (irelease ip)"
  unfolding irelease_def
  by (intro keep.intros keep.modif keep_ops; simp)

lemma turn_dirlookup_loop [turn_ops]: "dev_ok i rd \<Longrightarrow> turn i (dirlookup_loop k rd dp name off)"
  by (induction k arbitrary: off) (simp_all only: dirlookup_loop.simps, (intro turn.intros turn_ops keep_ops [THEN keep_turn] keep.modif [THEN keep_turn]; simp)+)

lemma turn_dirlookup [turn_ops]: "dev_ok i rd \<Longrightarrow> turn i (dirlookup rd dp name)"
  unfolding dirlookup_def
  by (intro turn.intros turn_ops keep_ops [THEN keep_turn] keep.modif [THEN keep_turn]; simp)

lemma turn_namex_loop [turn_ops]: "dev_ok i rd \<Longrightarrow> turn i (namex_loop k rd path nip name ip)"
  by (induction k arbitrary: path name ip) (simp_all only: namex_loop.simps, (intro turn.intros turn_ops keep_ops [THEN keep_turn] keep.modif [THEN keep_turn]; simp)+)

lemma turn_namex_abs [turn_ops]: "dev_ok i rd \<Longrightarrow> turn i (namex_abs rd path nip name)"
  unfolding namex_abs_def
  by (intro turn.intros turn_ops keep_ops [THEN keep_turn] keep.modif [THEN keep_turn]; simp)

lemma turn_namex [turn_ops]: "dev_ok i rd \<Longrightarrow> turn i (namex rd path nip name)"
  unfolding namex_def
  by (intro turn.intros turn_ops keep_ops [THEN keep_turn] keep.modif [THEN keep_turn]; simp)

lemma turn_namei [turn_ops]: "dev_ok i rd \<Longrightarrow> turn i (namei rd path)"
  unfolding namei_def
  by (intro turn.intros turn_ops keep_ops [THEN keep_turn] keep.modif [THEN keep_turn]; simp)

lemma turn_iopen [turn_ops]: "dev_ok i rd \<Longrightarrow> turn i (iopen rd path)"
  unfolding iopen_def
  by (intro turn.intros turn_ops keep_ops [THEN keep_turn] keep.modif [THEN keep_turn]; simp)

section \<open>Files and pipes\<close>

lemma keep_fd_get [keep_ops]: "keeps (fd_get fd)"
  unfolding fd_get_def
  by (intro keep.intros keep.modif keep_ops; simp)

lemma keep_fd_set [keep_ops]: "keeps (fd_set fd g)"
  unfolding fd_set_def
  by (intro keep.intros keep.modif keep_ops; simp)

lemma keep_fd_free [keep_ops]: "keeps (fd_free)"
  unfolding fd_free_def
  by (intro keep.intros keep.modif keep_ops; simp)

lemma turn_file_stat [turn_ops]: "dev_ok i rd \<Longrightarrow> turn i (file_stat rd fd)"
  unfolding file_stat_def
  by (intro turn.intros turn_ops keep_ops [THEN keep_turn] keep.modif [THEN keep_turn]; simp)

lemma keep_file_dup [keep_ops]: "keeps (file_dup fd)"
  unfolding file_dup_def
  by (intro keep.intros keep.modif keep_ops; simp)

lemma turn_pipe_write_loop [turn_ops]: "turn i (pipe_write_loop a buf n)"
  unfolding pipe_write_loop_def
  by (intro turn.intros turn_ops keep_ops [THEN keep_turn] keep.modif [THEN keep_turn]; simp)

lemma turn_pipe_write_resume [turn_ops]: "turn i (pipe_write_resume en a buf n)"
  unfolding pipe_write_resume_def
  by (intro turn.intros turn_ops keep_ops [THEN keep_turn] keep.modif [THEN keep_turn]; simp)

lemma turn_pipe_write [turn_ops]: "turn i (pipe_write fd buf n)"
  unfolding pipe_write_def
  by (intro turn.intros turn_ops keep_ops [THEN keep_turn] keep.modif [THEN keep_turn]; simp)

lemma turn_pipe_read_copy [turn_ops]: "turn i (pipe_read_copy a n)"
  unfolding pipe_read_copy_def
  by (intro turn.intros turn_ops keep_ops [THEN keep_turn] keep.modif [THEN keep_turn]; simp)

lemma turn_pipe_read_loop [turn_ops]: "turn i (pipe_read_loop a n)"
  unfolding pipe_read_loop_def
  by (intro turn.intros turn_ops keep_ops [THEN keep_turn] keep.modif [THEN keep_turn]; simp)

lemma turn_pipe_read_resume [turn_ops]: "turn i (pipe_read_resume en a n)"
  unfolding pipe_read_resume_def
  by (intro turn.intros turn_ops keep_ops [THEN keep_turn] keep.modif [THEN keep_turn]; simp)

lemma turn_pipe_read [turn_ops]: "turn i (pipe_read fd n)"
  unfolding pipe_read_def
  by (intro turn.intros turn_ops keep_ops [THEN keep_turn] keep.modif [THEN keep_turn]; simp)

lemma keep_advance [keep_ops]: "keeps (advance fd n)"
  unfolding advance_def
  by (intro keep.intros keep.modif keep_ops; simp)

lemma turn_file_write [turn_ops]: "dev_ok i rd \<Longrightarrow> dev_ok i wr \<Longrightarrow> turn i (file_write rd wr fd buf n)"
  unfolding file_write_def
  by (intro turn.intros turn_ops keep_ops [THEN keep_turn] keep.modif [THEN keep_turn]; simp)

lemma turn_file_read [turn_ops]: "dev_ok i rd \<Longrightarrow> turn i (file_read rd fd n)"
  unfolding file_read_def
  by (intro turn.intros turn_ops keep_ops [THEN keep_turn] keep.modif [THEN keep_turn]; simp)

lemma turn_close_end [turn_ops]: "turn i (close_end g a n c)"
  unfolding close_end_def
  by (intro turn.intros turn_ops keep_ops [THEN keep_turn] keep.modif [THEN keep_turn]; simp)

lemma turn_file_close_pipe [turn_ops]: "turn i (file_close_pipe fd g)"
  unfolding file_close_pipe_def Let_def
  by (intro turn.intros turn_ops keep_ops [THEN keep_turn] keep.modif [THEN keep_turn]; simp)

lemma turn_file_close [turn_ops]: "turn i (file_close fd)"
  unfolding file_close_def
  by (intro turn.intros turn_ops keep_ops [THEN keep_turn] keep.modif [THEN keep_turn]; simp)

lemma keep_file_install [keep_ops]: "keeps (file_install m p ip fd)"
  unfolding file_install_def
  by (intro keep.intros keep.modif keep_ops; simp)

lemma turn_file_open [turn_ops]: "dev_ok i rd \<Longrightarrow> turn i (file_open rd m p)"
  unfolding file_open_def
  by (intro turn.intros turn_ops keep_ops [THEN keep_turn] keep.modif [THEN keep_turn]; simp)

lemma keep_fd_set_int [keep_ops]: "keeps (fd_set_int fd g)"
  unfolding fd_set_int_def
  by (intro keep.intros keep.modif keep_ops; simp)

lemma keep_pipe [keep_ops]: "keeps (pipe arr)"
  unfolding pipe_def Let_def
  by (intro keep.intros keep.modif keep_ops; simp)

section \<open>Processes\<close>

lemma turnR_upd:
  assumes "\<And>q. pid (f q) = pid q" "\<And>q. calm (pstate q) (pstate (f q))" "\<And>q. pstate q = RUNNING \<Longrightarrow> pstate (f q) = RUNNING"
  shows "turnR i s (upd_proc k f s)"
proof (cases "k < length (procs (ptable s))")
  case True
  then show ?thesis
    unfolding turnR_def
    by (intro impI conjI othersI) (auto simp: running_def current_def assms)
next
  case False
  then have "upd_proc k f s = s" by (simp add: upd_proc_def list_update_beyond)
  then show ?thesis by (simp add: turn.refl)
qed

text \<open>Any state may be given to a process that is not running if it does not take away a chance to run.\<close>

lemma turnR_slot:
  assumes "k \<noteq> i" "\<And>q. pid (f q) = pid q" "calm (pstate (get_proc k s)) (pstate (f (get_proc k s)))"
  shows "turnR i s (upd_proc k f s)"
proof (cases "k < length (procs (ptable s))")
  case True
  then show ?thesis
    unfolding turnR_def
    by (intro impI conjI othersI) (use assms in \<open>auto simp: running_def current_def\<close>)
next
  case False
  then have "upd_proc k f s = s" by (simp add: upd_proc_def list_update_beyond)
  then show ?thesis by (simp add: turn.refl)
qed

text \<open>The slot that \<open>allocproc\<close> takes, with the next process number.\<close>

definition take_slot :: "nat \<Rightarrow> kst \<Rightarrow> kst" where
  "take_slot p s = (let t = upd_proc p (\<lambda>q. q\<lparr>pstate := EMBRYO, pid := nextpid (ptable s), killed := False\<rparr>) s in
     t\<lparr>ptable := (ptable t)\<lparr>nextpid := nextpid (ptable t) + 1\<rparr>\<rparr>)"

lemma take_slot_sel:
  "length (procs (ptable (take_slot p s))) = length (procs (ptable s))" "cpu (take_slot p s) = cpu s"
  "nextpid (ptable (take_slot p s)) = nextpid (ptable s) + 1"
  "p < length (procs (ptable s)) \<Longrightarrow> get_proc j (take_slot p s) =
     (if j = p then (get_proc p s)\<lparr>pstate := EMBRYO, pid := nextpid (ptable s), killed := False\<rparr> else get_proc j s)"
  by (simp_all add: take_slot_def Let_def upd_proc_def get_proc_def)

lemma turnR_take_slot:
  assumes p: "p < length (procs (ptable s))" "pstate (get_proc p s) = UNUSED"
  shows "turnR i s (take_slot p s)"
proof -
  have "pids_ok (take_slot p s)" if "pids_ok s"
    using that p(1) unfolding pids_ok_def by (auto simp: take_slot_sel)
  moreover have "p \<noteq> i" if "running s i" using that p(2) by (auto simp: running_def)
  ultimately show ?thesis
    using p by (auto simp: turnR_def running_def current_def others_def take_slot_sel calm_def)
qed

lemma allocproc_Ret:
  assumes "allocproc s = Ret r t"
  obtains "r = None" "keepR s t" |
    p u v where "keepR s u" "p < length (procs (ptable u))" "pstate (get_proc p u) = UNUSED" "keepR (take_slot p u) v"
      "r = None \<and> t = upd_proc p (\<lambda>q. q\<lparr>pstate := UNUSED\<rparr>) v \<or> r = Some p \<and> t = v"
proof -
  obtain u where u: "acquire PtableLock s = Ret () u"
    and rest: "(case find_idx (\<lambda>p. pstate p = UNUSED) (procs (ptable u)) of None \<Rightarrow> oseq (release PtableLock) (ret None)
     | Some p \<Rightarrow>
         oseq (modify (\<lambda>s. upd_proc p (\<lambda>q. q\<lparr>pstate := EMBRYO, pid := nextpid (ptable s), killed := False\<rparr>) s)) (
         oseq (modify (\<lambda>s. s\<lparr>ptable := (ptable s)\<lparr>nextpid := nextpid (ptable s) + 1\<rparr>\<rparr>)) (
         oseq (release PtableLock) (alloc_kstack p)))) u = Ret r t"
    using assms by (auto simp: allocproc_def run_rules)
  have su: "keepR s u" using guar_ret_D [OF keep_locks(3) u] .
  show thesis
  proof (cases "find_idx (\<lambda>p. pstate p = UNUSED) (procs (ptable u))")
    case None
    then have "r = None" "keepR u t"
      using rest guar_ret_D [OF keep_locks(4)] by (auto simp: run_rules)
    then show ?thesis using keep.trans [OF su] that(1) by blast
  next
    case (Some p)
    note p = find_idx_Some_nth [OF Some] find_idx_Some_less [OF Some]
    obtain w where w: "release PtableLock (take_slot p u) = Ret () w" and rest': "alloc_kstack p w = Ret r t"
      using rest Some by (auto simp: run_rules take_slot_def Let_def)
    obtain k x where x: "kalloc w = Ret k x"
      and end': "(if k = 0 then oseq (modify (upd_proc p (\<lambda>q. q\<lparr>pstate := UNUSED\<rparr>))) (ret None)
         else oseq (modify (upd_proc p (\<lambda>q. q\<lparr>pcontext := Forkret\<rparr>))) (ret (Some p)))
         (upd_proc p (\<lambda>q. q\<lparr>kstack := k\<rparr>) x) = Ret r t"
      using rest' by (auto simp: alloc_kstack_def run_rules)
    have y: "keepR (take_slot p u) (upd_proc p (\<lambda>q. q\<lparr>kstack := k\<rparr>) x)"
      using keep.trans [OF keep.trans [OF guar_ret_D [OF keep_locks(4) w] guar_ret_D [OF keep_kalloc x]]] by simp
    show ?thesis
    proof (cases "k = 0")
      case True
      then show ?thesis using end' p by (intro that(2) [OF su _ _ y]) (auto simp: run_rules get_proc_def)
    next
      case False
      have "keepR (take_slot p u) (upd_proc p (\<lambda>q. q\<lparr>pcontext := Forkret\<rparr>) (upd_proc p (\<lambda>q. q\<lparr>kstack := k\<rparr>) x))"
        by (rule keep.trans [OF y]) simp
      then show ?thesis using end' p False by (intro that(2) [OF su]) (auto simp: run_rules get_proc_def)
    qed
  qed
qed

lemma stays_allocproc: "guar (\<lambda>_ _. True) noswitch allocproc"
  unfolding allocproc_def alloc_kstack_def
  by (intro stays.intros stays.modif keep_ops [THEN keep_stays]; simp)

lemma turn_allocproc [turn_ops]: "turn i allocproc"
proof (rule guarI)
  fix s t assume "allocproc s = Swtch t"
  then show "turnS i s t" using guar_swtch_D [OF stays_allocproc, of s t] by (simp add: noswitch_def)
next
  fix s r t assume "allocproc s = Ret r t"
  then show "turnR i s t"
  proof (cases rule: allocproc_Ret)
    case 1
    then show ?thesis by (simp add: keepR_turnR)
  next
    case (2 p u v)
    have v: "turnR i s v"
      using turn.trans [OF turn.trans [OF keepR_turnR [OF 2(1)] turnR_take_slot [OF 2(2,3)]] keepR_turnR [OF 2(4)]] .
    have e: "pstate (get_proc p v) = EMBRYO"
      using psig_eqD(4) [of v "take_slot p u" p] 2(2,4) by (simp add: keepR_def take_slot_sel)
    have "turnR i s (upd_proc p (\<lambda>q. q\<lparr>pstate := UNUSED\<rparr>) v)"
    proof (cases "p = i")
      case True
      then have "\<not> running v i" using e by (simp add: running_def)
      then show ?thesis using v by (auto simp: turnR_def)
    next
      case False
      then show ?thesis by (intro turn.trans [OF v] turnR_slot) (simp_all add: e calm_def)
    qed
    then show ?thesis using 2(5) v by auto
  qed
qed

lemma allocproc_other: "running s i \<Longrightarrow> allocproc s = Ret (Some c) t \<Longrightarrow> c \<noteq> i"
  by (erule allocproc_Ret) (auto simp: running_def current_def keepR_def dest: psig_eqD(4) [of _ s i])

lemma keep_fork_fd [keep_ops]: "keeps (fork_fd p c fd)"
  unfolding fork_fd_def
  by (intro keep.intros keep.modif keep_ops; simp)

lemma turn_runnable: "c \<noteq> i \<Longrightarrow> turn i (modify (upd_proc c (\<lambda>q. q\<lparr>pstate := RUNNABLE\<rparr>)))"
  by (intro turn.modif turnR_slot) (simp_all add: calm_def)

lemma turn_fork [turn_ops]: "turn i (fork d)"
  unfolding fork_def
proof (rule turn_my)
  let ?rest = "\<lambda>c. obind (vspaceinit d c) (\<lambda>r.
     oseq (kassert (r = 0) ''failed initializing virtual address space'') (
     obind (vspacecopy c i) (\<lambda>_.
     oseq (modify (\<lambda>s. upd_proc c (\<lambda>q. q\<lparr>tf := tf (get_proc i s)\<rparr>) s)) (
     oseq (acquire PtableLock) (
     oseq (modify (upd_proc c (\<lambda>q. q\<lparr>tf := (tf q)\<lparr>rax := 0\<rparr>, parent := Some i\<rparr>))) (
     oseq (foreach [0..<NOFILE] (fork_fd i c)) (
     oseq (modify (upd_proc c (\<lambda>q. q\<lparr>pstate := RUNNABLE\<rparr>))) (
     obind (gets (\<lambda>s. pid (get_proc c s))) (\<lambda>procID.
     oseq (release PtableLock) (
     oseq (vspaceinstall (Some i)) (ret procID)))))))))))"
  have rest: "turn i (?rest c)" if "c \<noteq> i" for c
    by (intro turn.intros turn_runnable that keep_ops [THEN keep_turn] keep.modif [THEN keep_turn]; simp)
  show "turn i (obind allocproc (\<lambda>co. case co of None \<Rightarrow> ret (-1) | Some c \<Rightarrow> ?rest c))"
  proof (rule guarI)
    fix s r t assume "obind allocproc (\<lambda>co. case co of None \<Rightarrow> ret (-1) | Some c \<Rightarrow> ?rest c) s = Ret r t"
    then obtain co u where u: "allocproc s = Ret co u" and t: "(case co of None \<Rightarrow> ret (-1) | Some c \<Rightarrow> ?rest c) u = Ret r t"
      by (auto simp: obind_cases)
    have "turnR i u t" if "running s i"
      using t rest [THEN guar_ret_D] allocproc_other [OF that] u
      by (cases co) (auto simp: ret_def turn.refl)
    then show "turnR i s t" using turn.trans [OF guar_ret_D [OF turn_allocproc u]] by (auto simp: turnR_def)
  next
    fix s t assume "obind allocproc (\<lambda>co. case co of None \<Rightarrow> ret (-1) | Some c \<Rightarrow> ?rest c) s = Swtch t"
    then obtain co u where u: "allocproc s = Ret co u" and t: "(case co of None \<Rightarrow> ret (-1) | Some c \<Rightarrow> ?rest c) u = Swtch t"
      using guar_swtch_D [OF stays_allocproc, of s t] by (auto simp: obind_cases noswitch_def)
    have "turnS i u t" if "running s i"
      using t rest [THEN guar_swtch_D] allocproc_other [OF that] u
      by (cases co) (auto simp: ret_def)
    then show "turnS i s t" using turn.switch [OF guar_ret_D [OF turn_allocproc u]] by (auto simp: turnS_def)
  qed
qed

lemma turn_close_fd [turn_ops]: "turn i (close_fd fd)"
  unfolding close_fd_def
  by (intro turn.intros turn_ops keep_ops [THEN keep_turn] keep.modif [THEN keep_turn]; simp)

lemma leave_reparent: "leave i (reparent p k)"
  unfolding reparent_def
  by (intro leave.intros leave_wakeup1 keep_ops [THEN keep_leave] keep.modif [THEN keep_leave]; simp)

lemma turn_exit [turn_ops]: "turn i exit"
  unfolding exit_def
proof (rule turn_my, rule turn.seq)
  show "turn i (foreach [0..<NOFILE] close_fd)" by (intro turn.loop turn_ops)
  show "turn i (oseq (acquire PtableLock) (
     oseq (modify (upd_proc i (\<lambda>q. q\<lparr>pstate := ZOMBIE\<rparr>))) (
     oseq (foreach [0..<NPROC] (reparent i)) (
     obind (gets (\<lambda>s. parent (get_proc i s))) (\<lambda>par.
     oseq (wakeup1 (map_option ChProc par)) sched)))))"
    by (rule leave_turn, intro leave.intros leave.modif leaveR_self leave_sched leave_wakeup1 leave_reparent
        keep_ops [THEN keep_leave], simp) (intro noret_intros(2,4) noret_sched)
qed

lemma reap_Ret:
  assumes "reap p s = Ret r t"
  obtains u where "keepR s u" "keepR (upd_proc p (\<lambda>q. q\<lparr>kstack := 0, parent := None, killed := False, pid := 0, pstate := UNUSED\<rparr>) u) t"
proof -
  obtain a b c where "vspacefree p s = Ret () a" "kfree (kstack (get_proc p a)) a = Ret () b"
    "release PtableLock (upd_proc p (\<lambda>q. q\<lparr>kstack := 0, parent := None, killed := False, pid := 0, pstate := UNUSED\<rparr>) b) = Ret () c" "t = c"
    using assms by (auto simp: reap_def run_rules)
  then show thesis
    using that [OF keep.trans [OF guar_ret_D [OF keep_vspacefree] guar_ret_D [OF keep_kfree]]] guar_ret_D [OF keep_locks(4)] by blast
qed

lemma stays_reap: "guar (\<lambda>_ _. True) noswitch (reap p)"
  unfolding reap_def
  by (intro stays.intros stays.modif keep_ops [THEN keep_stays]; simp)

lemma pids_ok_clear:
  assumes "pids_ok s" "p < length (procs (ptable s))"
  shows "pids_ok (upd_proc p (\<lambda>q. q\<lparr>kstack := 0, parent := None, killed := False, pid := 0, pstate := UNUSED\<rparr>) s)"
  using assms unfolding pids_ok_def by auto

lemma turnR_reap:
  assumes r: "reap p s = Ret r t" and p: "p < length (procs (ptable s))" "pstate (get_proc p s) = ZOMBIE"
  shows "turnR i s t"
  using r
proof (cases rule: reap_Ret)
  case (1 u)
  let ?f = "\<lambda>q. q\<lparr>kstack := 0, parent := None, killed := False, pid := 0, pstate := UNUSED\<rparr>"
  have u: "p < length (procs (ptable u))" "pstate (get_proc p u) = ZOMBIE"
    using psig_eqD(1,4) [of u s] 1(1) p by (simp_all add: keepR_def)
  have "turnR i u (upd_proc p ?f u)"
    unfolding turnR_def
  proof
    assume run: "running u i"
    then have "p \<noteq> i" using u(2) by (auto simp: running_def)
    then show "running (upd_proc p ?f u) i \<and> others i u (upd_proc p ?f u)"
      using run u pids_ok_clear [OF _ u(1)]
      by (auto simp: running_def current_def others_def calm_def)
  qed
  then show ?thesis
    using turn.trans [OF turn.trans [OF keepR_turnR [OF 1(1)]] keepR_turnR [OF 1(2)]] by blast
qed

lemma turn_wait_loop [turn_ops]: "turn i (wait_loop me h)"
proof (rule guarI)
  let ?P = "\<lambda>q. parent q = Some me \<and> pstate q = ZOMBIE"
  let ?blocks = "\<lambda>ps. if h \<or> (\<exists>q \<in> set ps. parent q = Some me)
         then oseq (sleep (ChProc me) (Some PtableLock)) hang else oseq (release PtableLock) (ret (-1 :: int))"
  have blocks: "turn i (?blocks ps)" for ps
    by (intro turn.intros turn_ops keep_ops [THEN keep_turn])
  {
    fix s r t assume w: "wait_loop me h s = Ret r t"
    show "turnR i s t"
    proof (cases "find_idx ?P (procs (ptable s))")
      case None
      then have "?blocks (procs (ptable s)) s = Ret r t" using w by (simp add: wait_loop_def obind_def gets_def split del: if_split)
      then show ?thesis using guar_ret_D [OF blocks] by blast
    next
      case (Some p)
      then have "reap p s = Ret r t" using w by (simp add: wait_loop_def obind_def gets_def split del: if_split)
      then show ?thesis
        using turnR_reap find_idx_Some_nth [OF Some] find_idx_Some_less [OF Some] by (simp add: get_proc_def)
    qed
  }
  fix s t assume w: "wait_loop me h s = Swtch t"
  show "turnS i s t"
  proof (cases "find_idx ?P (procs (ptable s))")
    case None
    then have "?blocks (procs (ptable s)) s = Swtch t" using w by (simp add: wait_loop_def obind_def gets_def split del: if_split)
    then show ?thesis using guar_swtch_D [OF blocks] by blast
  next
    case (Some p)
    then have "reap p s = Swtch t" using w by (simp add: wait_loop_def obind_def gets_def split del: if_split)
    then show ?thesis using guar_swtch_D [OF stays_reap, of p s t] by (simp add: noswitch_def)
  qed
qed

lemma turn_wait [turn_ops]: "turn i (wait)"
  unfolding wait_def
  by (intro turn.intros turn_ops keep_ops [THEN keep_turn] keep.modif [THEN keep_turn]; simp)

lemma turn_wait_resume [turn_ops]: "turn i (wait_resume en)"
  unfolding wait_resume_def
  by (intro turn.intros turn_ops keep_ops [THEN keep_turn] keep.modif [THEN keep_turn]; simp)

lemma turn_forkret [turn_ops]: "turn i (forkret)"
  unfolding forkret_def
  by (intro turn.intros turn_ops keep_ops [THEN keep_turn] keep.modif [THEN keep_turn]; simp)

lemma turn_kill [turn_ops]: "turn i (kill n)"
  unfolding kill_def
  by (intro turn.intros turn.modif turnR_upd turn_ops keep_ops [THEN keep_turn]; simp add: calm_def)

section \<open>Console\<close>

lemma keepR_input [simp]: "keepR s (upd_input f s)"
  by (simp add: upd_input_def)

lemma keep_consputc [keep_ops]: "keeps (consputc c)"
  unfolding consputc_def
  by (intro keep.intros keep.modif keep_ops; simp)

lemma keep_put_chars [keep_ops]: "keeps (put_chars xs)"
  unfolding put_chars_def
  by (intro keep.intros keep.modif keep_ops; simp)

lemma keep_cprintf [keep_ops]: "keeps (cprintf f xs)"
  unfolding cprintf_def
  by (intro keep.intros keep.modif keep_ops; simp)

lemma keep_procdump_line [keep_ops]: "keeps (procdump_line pcs j)"
  unfolding procdump_line_def
  by (intro keep.intros keep.modif keep_ops; simp)

lemma keep_procdump [keep_ops]: "keeps (procdump pcs)"
  unfolding procdump_def
  by (intro keep.intros keep.modif keep_ops; simp)

lemma keep_kill_line [keep_ops]: "keeps (kill_line k)"
  by (induction k) (simp_all only: kill_line.simps, (intro keep.intros keep.modif keep_ops; simp)+)

lemma turn_intr_char [turn_ops]: "turn i (intr_char c)"
  unfolding intr_char_def Let_def
  by (intro turn.intros turn_ops keep_ops [THEN keep_turn] keep.modif [THEN keep_turn]; simp)

lemma turn_intr_loop [turn_ops]: "(\<And>b. turn i (getc b)) \<Longrightarrow> turn i (intr_loop getc bs d)"
  by (induction bs arbitrary: d) (simp_all only: intr_loop.simps, (intro turn.intros turn_ops; simp)+)

lemma turn_consoleintr [turn_ops]: "(\<And>b. turn i (getc b)) \<Longrightarrow> turn i (consoleintr pcs getc bs)"
  unfolding consoleintr_def by (intro turn.intros turn_ops keep_ops [THEN keep_turn]; simp)

lemma keep_uartgetc [keep_ops]: "keeps (uartgetc b)"
  unfolding uartgetc_def
  by (intro keep.intros keep.modif keep_ops; simp)

lemma keep_kbdgetc [keep_ops]: "keeps (kbdgetc b)"
  unfolding kbdgetc_def
  by (intro keep.intros keep.modif keep_ops; simp)

lemma turn_kbdintr [turn_ops]: "turn i (kbdintr pcs bs)"
  unfolding kbdintr_def
  by (intro turn.intros turn_ops keep_ops [THEN keep_turn] keep.modif [THEN keep_turn]; simp)

lemma turn_uartintr [turn_ops]: "turn i (uartintr pcs bs)"
  unfolding uartintr_def
  by (intro turn.intros turn_ops keep_ops [THEN keep_turn] keep.modif [THEN keep_turn]; simp)

lemma turn_consoleread_loop [turn_ops]: "turn i (consoleread_loop n got)"
  by (induction n arbitrary: got) (simp_all only: consoleread_loop.simps, (intro turn.intros turn_ops keep_ops [THEN keep_turn] keep.modif [THEN keep_turn]; simp)+)

lemma turn_consoleread [turn_ops]: "turn i (consoleread ip n)"
  unfolding consoleread_def
  by (intro turn.intros turn_ops keep_ops [THEN keep_turn] keep.modif [THEN keep_turn]; simp)

lemma turn_consoleread_resume [turn_ops]: "turn i (consoleread_resume en n got)"
  unfolding consoleread_resume_def
  by (intro turn.intros turn_ops keep_ops [THEN keep_turn] keep.modif [THEN keep_turn]; simp)

lemma keep_consolewrite [keep_ops]: "keeps (consolewrite ip buf)"
  unfolding consolewrite_def
  by (intro keep.intros keep.modif keep_ops; simp)

lemma dev_ok_console [simp]: "dev_ok i devsw_read" "dev_ok i devsw_write"
  by (auto simp: dev_ok_def devsw_read_def devsw_write_def turn_consoleread keep_consolewrite [THEN keep_turn] split: if_splits)

section \<open>System calls\<close>

lemma keep_read_user [keep_ops]: "keeps (read_user a)"
  unfolding read_user_def
  by (intro keep.intros keep.modif keep_ops; simp)

lemma keep_write_user [keep_ops]: "keeps (write_user a b)"
  unfolding write_user_def
  by (intro keep.intros keep.modif keep_ops; simp)

lemma keep_read_bytes [keep_ops]: "keeps (read_bytes n a)"
  by (induction n arbitrary: a) (simp_all only: read_bytes.simps, (intro keep.intros keep.modif keep_ops; simp)+)

lemma keep_write_bytes [keep_ops]: "keeps (write_bytes a bs)"
  by (induction bs arbitrary: a) (simp_all only: write_bytes.simps, (intro keep.intros keep.modif keep_ops; simp)+)

lemma keep_my_regions [keep_ops]: "keeps (my_regions)"
  unfolding my_regions_def
  by (intro keep.intros keep.modif keep_ops; simp)

lemma keep_fetchint [keep_ops]: "keeps (fetchint a)"
  unfolding fetchint_def
  by (intro keep.intros keep.modif keep_ops; simp)

lemma keep_fetchint64_t [keep_ops]: "keeps (fetchint64_t a)"
  unfolding fetchint64_t_def
  by (intro keep.intros keep.modif keep_ops; simp)

lemma keep_scan_str [keep_ops]: "keeps (scan_str n a k)"
  by (induction n arbitrary: a k) (simp_all only: scan_str.simps, (intro keep.intros keep.modif keep_ops; simp)+)

lemma keep_fetchstr_regions [keep_ops]: "keeps (fetchstr_regions rs a)"
  by (induction rs) (simp_all only: fetchstr_regions.simps, (intro keep.intros keep.modif keep_ops; simp)+)

lemma keep_fetchstr [keep_ops]: "keeps (fetchstr a)"
  unfolding fetchstr_def
  by (intro keep.intros keep.modif keep_ops; simp)

lemma keep_fetcharg [keep_ops]: "keeps (fetcharg n)"
  unfolding fetcharg_def
  by (intro keep.intros keep.modif keep_ops; simp)

lemma keep_argint [keep_ops]: "keeps (argint n)"
  unfolding argint_def
  by (intro keep.intros keep.modif keep_ops; simp)

lemma keep_argint64 [keep_ops]: "keeps (argint64 n)"
  unfolding argint64_def
  by (intro keep.intros keep.modif keep_ops; simp)

lemma keep_argptr [keep_ops]: "keeps (argptr n sz)"
  unfolding argptr_def
  by (intro keep.intros keep.modif keep_ops; simp)

lemma keep_argstr [keep_ops]: "keeps (argstr n)"
  unfolding argstr_def
  by (intro keep.intros keep.modif keep_ops; simp)

lemma keep_sys_dup [keep_ops]: "keeps (sys_dup)"
  unfolding sys_dup_def
  by (intro keep.intros keep.modif keep_ops; simp)

lemma turn_sys_read [turn_ops]: "turn i (sys_read)"
  unfolding sys_read_def
  by (intro turn.intros turn_ops keep_ops [THEN keep_turn] keep.modif [THEN keep_turn]; simp)

lemma turn_sys_write [turn_ops]: "turn i (sys_write)"
  unfolding sys_write_def
  by (intro turn.intros turn_ops keep_ops [THEN keep_turn] keep.modif [THEN keep_turn]; simp)

lemma turn_sys_close [turn_ops]: "turn i (sys_close)"
  unfolding sys_close_def
  by (intro turn.intros turn_ops keep_ops [THEN keep_turn] keep.modif [THEN keep_turn]; simp)

lemma keep_write_stat [keep_ops]: "keeps (write_stat a st)"
  unfolding write_stat_def
  by (intro keep.intros keep.modif keep_ops; simp)

lemma turn_sys_fstat [turn_ops]: "turn i (sys_fstat)"
  unfolding sys_fstat_def
  by (intro turn.intros turn_ops keep_ops [THEN keep_turn] keep.modif [THEN keep_turn]; simp)

lemma turn_sys_open [turn_ops]: "turn i (sys_open)"
  unfolding sys_open_def
  by (intro turn.intros turn_ops keep_ops [THEN keep_turn] keep.modif [THEN keep_turn]; simp)

lemma keep_sys_exec [keep_ops]: "keeps (sys_exec)"
  unfolding sys_exec_def
  by (intro keep.intros keep.modif keep_ops; simp)

lemma keep_sys_pipe [keep_ops]: "keeps (sys_pipe)"
  unfolding sys_pipe_def
  by (intro keep.intros keep.modif keep_ops; simp)

lemma keep_sys_unlink [keep_ops]: "keeps (sys_unlink)"
  unfolding sys_unlink_def
  by (intro keep.intros keep.modif keep_ops; simp)

lemma keep_sys_crashn [keep_ops]: "keeps (sys_crashn)"
  unfolding sys_crashn_def
  by (intro keep.intros keep.modif keep_ops; simp)

lemma turn_sys_fork [turn_ops]: "turn i (sys_fork d)"
  unfolding sys_fork_def
  by (intro turn.intros turn_ops keep_ops [THEN keep_turn] keep.modif [THEN keep_turn]; simp)

lemma turn_sys_exit [turn_ops]: "turn i (sys_exit)"
  unfolding sys_exit_def
  by (intro turn.intros turn_ops keep_ops [THEN keep_turn] keep.modif [THEN keep_turn]; simp)

lemma turn_sys_wait [turn_ops]: "turn i (sys_wait)"
  unfolding sys_wait_def
  by (intro turn.intros turn_ops keep_ops [THEN keep_turn] keep.modif [THEN keep_turn]; simp)

lemma turn_sys_kill [turn_ops]: "turn i (sys_kill)"
  unfolding sys_kill_def
  by (intro turn.intros turn_ops keep_ops [THEN keep_turn] keep.modif [THEN keep_turn]; simp)

lemma keep_sys_getpid [keep_ops]: "keeps (sys_getpid)"
  unfolding sys_getpid_def
  by (intro keep.intros keep.modif keep_ops; simp)

lemma keep_sys_sbrk [keep_ops]: "keeps (sys_sbrk)"
  unfolding sys_sbrk_def
  by (intro keep.intros keep.modif keep_ops; simp)

lemma turn_sys_sleep_loop [turn_ops]: "turn i (sys_sleep_loop t n)"
  unfolding sys_sleep_loop_def
  by (intro turn.intros turn_ops keep_ops [THEN keep_turn] keep.modif [THEN keep_turn]; simp)

lemma turn_sys_sleep [turn_ops]: "turn i (sys_sleep)"
  unfolding sys_sleep_def
  by (intro turn.intros turn_ops keep_ops [THEN keep_turn] keep.modif [THEN keep_turn]; simp)

lemma turn_sys_sleep_resume [turn_ops]: "turn i (sys_sleep_resume en t n)"
  unfolding sys_sleep_resume_def
  by (intro turn.intros turn_ops keep_ops [THEN keep_turn] keep.modif [THEN keep_turn]; simp)

lemma keep_sys_uptime [keep_ops]: "keeps (sys_uptime)"
  unfolding sys_uptime_def
  by (intro keep.intros keep.modif keep_ops; simp)

lemma keep_sys_sysinfo [keep_ops]: "keeps (sys_sysinfo)"
  unfolding sys_sysinfo_def
  by (intro keep.intros keep.modif keep_ops; simp)

lemma keep_set_rax [keep_ops]: "keeps (set_rax v)"
  unfolding set_rax_def
  by (intro keep.intros keep.modif keep_ops; simp)

lemma turn_syscalls: "syscalls d n = Some f \<Longrightarrow> turn i f"
  unfolding syscalls_def
  by (auto intro: turn_ops keep_ops [THEN keep_turn] split: if_splits)

lemma turn_syscall [turn_ops]: "turn i (syscall d)"
proof -
  have "turn i (case (if b then syscalls d n else None) of Some f \<Rightarrow> obind f set_rax
     | None \<Rightarrow> oseq (cprintf g xs) (set_rax (-1)))" for b n g xs
    by (auto intro!: turn.bind turn.seq turn_syscalls keep_ops [THEN keep_turn] split: option.split)
  then show ?thesis
    unfolding syscall_def Let_def by (intro turn.bind keep_ops [THEN keep_turn] turn.basic)
qed

section \<open>Traps\<close>

lemma turn_timer_tick [turn_ops]: "turn i (timer_tick)"
  unfolding timer_tick_def
  by (intro turn.intros turn_ops keep_ops [THEN keep_turn] keep.modif [THEN keep_turn]; simp)

lemma keep_am_killed [keep_ops]: "keeps (am_killed)"
  unfolding am_killed_def
  by (intro keep.intros keep.modif keep_ops; simp)

lemma keep_trap_other [keep_ops]: "keeps (trap_other t c a)"
  unfolding trap_other_def
  by (intro keep.intros keep.modif keep_ops; simp)

lemma turn_trap_switch [turn_ops]: "turn i (trap_switch pcs t c a bs)"
  unfolding trap_switch_def Let_def
  by (intro turn.intros turn_ops keep_ops [THEN keep_turn] keep.modif [THEN keep_turn]; simp)

lemma turn_trap_end [turn_ops]: "turn i (trap_end t)"
  unfolding trap_end_def
  by (intro turn.intros turn_ops keep_ops [THEN keep_turn] keep.modif [THEN keep_turn]; simp)

lemma turn_yield_resume [turn_ops]: "turn i (yield_resume en)"
  unfolding yield_resume_def sched_resume_def
  by (intro turn.intros turn_ops keep_ops [THEN keep_turn] keep.modif [THEN keep_turn]; simp)

lemma turn_trap_yield_resume [turn_ops]: "turn i (trap_yield_resume en t)"
  unfolding trap_yield_resume_def
  by (intro turn.intros turn_ops keep_ops [THEN keep_turn] keep.modif [THEN keep_turn]; simp)

lemma turn_trap [turn_ops]: "turn i (trap d pcs t c a bs)"
  unfolding trap_def
  by (intro turn.intros turn_ops keep_ops [THEN keep_turn] keep.modif [THEN keep_turn]; simp)
end
