(* ===== verification/Sched.thy ===== *)
theory Sched
  imports KernelOps
begin

text \<open>
  Processes in time.  A configuration is a kernel state with the place of the CPU: at the head of the
  scheduler's loop, in the kernel or the program of a process, or back in the scheduler after process
  \<open>i\<close> has given up the CPU.  \<open>kstep\<close> relates two configurations when the code in \<open>kernel/proc.c\<close>,
  \<open>kernel/trap.c\<close> and \<open>kernel/syscall.c\<close> can take the one to the other.  The invariant of reachable
  configurations and a bound on the time a runnable process waits follow by rule induction from the
  guarantees of the operations.
\<close>

section \<open>Steps\<close>

datatype place = Loop | Turn nat | Back nat

type_synonym config = "place \<times> kst"

text \<open>What a process runs in the kernel: a trap from its program, the rest of a call that was put to
  sleep, or several of these one after the other.  A file-system call that waits for the lock of a
  buffer or an inode continues with \<open>acquiresleep_resume\<close>.\<close>

inductive_set kernel_ops :: "(unit, kst) kop set" where
  trap_op: "trap d pcs tr c a bs \<in> kernel_ops"
| yielded: "trap_yield_resume en tr \<in> kernel_ops"
| started: "forkret \<in> kernel_ops"
| got_lock: "acquiresleep_resume en l \<in> kernel_ops"
| waited: "obind (wait_resume en) set_rax \<in> kernel_ops"
| slept: "obind (sys_sleep_resume en t0 n) set_rax \<in> kernel_ops"
| wrote: "obind (pipe_write_resume en p buf n) set_rax \<in> kernel_ops"
| read_pipe: "obind (pipe_read_resume en p n) (\<lambda>(r, bytes). oseq (write_bytes va bytes) (set_rax r)) \<in> kernel_ops"
| read_cons: "obind (consoleread_resume en k got) (\<lambda>(r, bytes). oseq (write_bytes va bytes) (set_rax r)) \<in> kernel_ops"
| next_op: "m \<in> kernel_ops \<Longrightarrow> m' \<in> kernel_ops \<Longrightarrow> oseq m m' \<in> kernel_ops"

inductive kstep :: "config \<Rightarrow> config \<Rightarrow> bool" where
  pick: "scheduler_start s = Ret (Some i) t \<Longrightarrow> kstep (Loop, s) (Turn i, t)"
| idle: "scheduler_start s = Ret None t \<Longrightarrow> kstep (Loop, s) (Loop, t)"
| pick_next: "scheduler_resume j s = Ret (Some i) t \<Longrightarrow> kstep (Back j, s) (Turn i, t)"
| round_end: "scheduler_resume j s = Ret None t \<Longrightarrow> kstep (Back j, s) (Loop, t)"
| runs: "m \<in> kernel_ops \<Longrightarrow> m s = Ret () t \<Longrightarrow> kstep (Turn i, s) (Turn i, t)"
| gives_up: "m \<in> kernel_ops \<Longrightarrow> m s = Swtch t \<Longrightarrow> kstep (Turn i, s) (Back i, t)"

inductive_cases kstep_LoopE: "kstep (Loop, s) y"
inductive_cases kstep_TurnE: "kstep (Turn i, s) y"
inductive_cases kstep_BackE: "kstep (Back i, s) y"

lemma kernel_ops_turn: "m \<in> kernel_ops \<Longrightarrow> turn i m"
  by (induction rule: kernel_ops.induct)
    (intro turn.bind turn.seq turn.pair turn_ops keep_ops [THEN keep_turn]; assumption?)+

section \<open>What the scheduler does\<close>

text \<open>\<open>picked i k s t\<close>: looking from slot \<open>i\<close> on, the scheduler has switched to process \<open>k\<close>.\<close>

definition picked :: "nat \<Rightarrow> nat \<Rightarrow> kst \<Rightarrow> kst \<Rightarrow> bool" where
  "picked i k s t \<longleftrightarrow> i \<le> k \<and> k < length (procs (ptable s)) \<and> pstate (get_proc k s) = RUNNABLE \<and>
     (\<forall>j. i \<le> j \<and> j < k \<longrightarrow> pstate (get_proc j s) \<noteq> RUNNABLE) \<and>
     current t k \<and> length (procs (ptable t)) = length (procs (ptable s)) \<and> nextpid (ptable t) = nextpid (ptable s) \<and>
     (\<forall>j < length (procs (ptable s)). pid (get_proc j t) = pid (get_proc j s) \<and>
        pstate (get_proc j t) = (if j = k then RUNNING else pstate (get_proc j s)))"

lemma find_runnable:
  assumes "find_idx (\<lambda>p. pstate p = RUNNABLE) (drop i (procs (ptable s))) = Some d"
  shows "i + d < length (procs (ptable s))" "pstate (get_proc (i + d) s) = RUNNABLE"
    "\<forall>j. i \<le> j \<and> j < i + d \<longrightarrow> pstate (get_proc j s) \<noteq> RUNNABLE"
proof -
  have d: "d < length (procs (ptable s)) - i" "pstate (procs (ptable s) ! (i + d)) = RUNNABLE"
    "\<forall>j < d. pstate (procs (ptable s) ! (i + j)) \<noteq> RUNNABLE"
    using assms by (auto simp: find_idx_Some)
  show "i + d < length (procs (ptable s))" "pstate (get_proc (i + d) s) = RUNNABLE"
    using d(1,2) by (simp_all add: get_proc_def)
  show "\<forall>j. i \<le> j \<and> j < i + d \<longrightarrow> pstate (get_proc j s) \<noteq> RUNNABLE"
    using d(3) by (metis get_proc_def le_add_diff_inverse less_diff_conv2 add.commute)
qed

lemma no_runnable:
  "find_idx (\<lambda>p. pstate p = RUNNABLE) (drop i (procs (ptable s))) = None \<longleftrightarrow>
     (\<forall>j. i \<le> j \<and> j < length (procs (ptable s)) \<longrightarrow> pstate (get_proc j s) \<noteq> RUNNABLE)"
proof -
  have "(\<forall>x \<in> set (drop i (procs (ptable s))). pstate x \<noteq> RUNNABLE) \<longleftrightarrow>
      (\<forall>d < length (procs (ptable s)) - i. pstate (get_proc (i + d) s) \<noteq> RUNNABLE)"
    by (auto simp: all_set_conv_all_nth get_proc_def)
  also have "\<dots> \<longleftrightarrow> (\<forall>j. i \<le> j \<and> j < length (procs (ptable s)) \<longrightarrow> pstate (get_proc j s) \<noteq> RUNNABLE)"
    by (metis le_add1 le_add_diff_inverse less_diff_conv2 less_diff_conv add.commute)
  finally show ?thesis by (simp add: find_idx_None)
qed

lemma picked_run:
  assumes d: "find_idx (\<lambda>p. pstate p = RUNNABLE) (drop i (procs (ptable s))) = Some d"
    and k: "keepR (s\<lparr>cpu := (cpu s)\<lparr>curproc := Some (i + d)\<rparr>\<rparr>) u"
  shows "picked i (i + d) s (upd_proc (i + d) (\<lambda>q. q\<lparr>pstate := RUNNING\<rparr>) u)"
proof -
  let ?s = "s\<lparr>cpu := (cpu s)\<lparr>curproc := Some (i + d)\<rparr>\<rparr>"
  have u: "length (procs (ptable u)) = length (procs (ptable s))" "nextpid (ptable u) = nextpid (ptable s)"
    "curproc (cpu u) = Some (i + d)"
    and st: "j < length (procs (ptable s)) \<Longrightarrow> pstate (get_proc j u) = pstate (get_proc j s)"
      "j < length (procs (ptable s)) \<Longrightarrow> pid (get_proc j u) = pid (get_proc j s)" for j
    using psig_eqD [of u ?s] k by (simp_all add: keepR_def)
  show ?thesis
    using find_runnable [OF d] u st by (auto simp: picked_def current_def)
qed

lemma sched_scan_Some:
  assumes "sched_scan i s = Ret (Some k) t"
  shows "picked i k s t"
proof -
  obtain d u where d: "find_idx (\<lambda>p. pstate p = RUNNABLE) (drop i (procs (ptable s))) = Some d"
    and u: "vspaceinstall (Some (i + d)) (s\<lparr>cpu := (cpu s)\<lparr>curproc := Some (i + d)\<rparr>\<rparr>) = Ret () u"
    and k: "k = i + d" and t: "t = upd_proc (i + d) (\<lambda>q. q\<lparr>pstate := RUNNING\<rparr>) u"
    using assms by (auto simp: sched_scan_def run_rules split: option.splits)
  show ?thesis unfolding k t by (rule picked_run [OF d guar_ret_D [OF keep_vspaceinstall u]])
qed

lemma sched_scan_None:
  assumes "sched_scan i s = Ret None t"
  shows "keepR s t" "\<forall>j. i \<le> j \<and> j < length (procs (ptable s)) \<longrightarrow> pstate (get_proc j s) \<noteq> RUNNABLE"
  using assms guar_ret_D [OF keep_locks(4)] no_runnable [of i s]
  by (auto simp: sched_scan_def run_rules split: option.splits)

lemma picked_keep: "keepR s u \<Longrightarrow> picked i k u t \<Longrightarrow> picked i k s t"
  using psig_eqD [of u s] by (auto simp: picked_def keepR_def)

lemma scheduler_start_Ret:
  assumes "scheduler_start s = Ret r t"
  shows "case r of Some k \<Rightarrow> picked 0 k s t
    | None \<Rightarrow> keepR s t \<and> (\<forall>j < length (procs (ptable s)). pstate (get_proc j s) \<noteq> RUNNABLE)"
proof -
  obtain u where u: "acquire PtableLock (s\<lparr>cpu := (cpu s)\<lparr>eflags_if := True\<rparr>\<rparr>) = Ret () u" and r: "sched_scan 0 u = Ret r t"
    using assms by (auto simp: scheduler_start_def run_rules)
  have su: "keepR s u" by (rule keep.trans [OF _ guar_ret_D [OF keep_locks(3) u]]) simp
  then show ?thesis
    using r sched_scan_Some [of 0 u _ t] sched_scan_None [of 0 u t] picked_keep [OF su] keep.trans [OF su] psig_eqD [of u s]
    by (cases r) (auto simp: keepR_def)
qed

text \<open>\<open>scheduler_resume\<close> clears the current process before it looks for the next one.\<close>

lemma scheduler_resume_Ret:
  assumes "scheduler_resume j s = Ret r t"
  obtains u where "u = s\<lparr>cpu := (cpu s)\<lparr>cr3 := V2P (kpml4 (pviews s)), curproc := None\<rparr>\<rparr>"
    "case r of Some k \<Rightarrow> picked (Suc j) k u t
      | None \<Rightarrow> keepR u t \<and> (\<forall>k. j < k \<and> k < length (procs (ptable s)) \<longrightarrow> pstate (get_proc k s) \<noteq> RUNNABLE)"
proof -
  let ?u = "s\<lparr>cpu := (cpu s)\<lparr>cr3 := V2P (kpml4 (pviews s)), curproc := None\<rparr>\<rparr>"
  have "sched_scan (Suc j) ?u = Ret r t"
    using assms by (auto simp: scheduler_resume_def vspaceinstallkern_def run_rules)
  then show thesis
    using that [of ?u] sched_scan_Some [of "Suc j" ?u _ t] sched_scan_None [of "Suc j" ?u t]
    by (cases r) (auto simp: Suc_le_eq)
qed

section \<open>The invariant\<close>

definition nobody_runs :: "kst \<Rightarrow> bool" where
  "nobody_runs s \<longleftrightarrow> (\<forall>j < length (procs (ptable s)). pstate (get_proc j s) \<noteq> RUNNING)"

fun kinv :: "config \<Rightarrow> bool" where
  "kinv (Loop, s) = (pids_ok s \<and> curproc (cpu s) = None \<and> nobody_runs s)"
| "kinv (Turn i, s) = (pids_ok s \<and> running s i \<and>
     (\<forall>j < length (procs (ptable s)). pstate (get_proc j s) = RUNNING \<longrightarrow> j = i))"
| "kinv (Back i, s) = (pids_ok s \<and> current s i \<and> nobody_runs s)"

lemma pids_ok_same:
  "length (procs (ptable t)) = length (procs (ptable s)) \<Longrightarrow> nextpid (ptable t) = nextpid (ptable s) \<Longrightarrow>
     (\<forall>j < length (procs (ptable s)). pid (get_proc j t) = pid (get_proc j s)) \<Longrightarrow> pids_ok s \<Longrightarrow> pids_ok t"
  by (simp add: pids_ok_def)

lemma cpu_frame [simp]: "pids_ok (s\<lparr>cpu := c\<rparr>) = pids_ok s" "nobody_runs (s\<lparr>cpu := c\<rparr>) = nobody_runs s"
  by (simp_all add: pids_ok_def nobody_runs_def)

lemma kinv_picked:
  assumes "picked i k s t" "pids_ok s" "nobody_runs s"
  shows "kinv (Turn k, t)"
proof -
  have "pids_ok t" by (rule pids_ok_same [of t s]) (use assms in \<open>auto simp: picked_def\<close>)
  then show ?thesis
    using assms by (auto simp: picked_def running_def nobody_runs_def split: if_splits)
qed

lemma keepR_pids: "keepR s t \<Longrightarrow> pids_ok s \<Longrightarrow> pids_ok t"
  and keepR_nobody: "keepR s t \<Longrightarrow> nobody_runs s \<Longrightarrow> nobody_runs t"
  using psig_eqD [of t s] by (auto simp: keepR_def pids_ok_def nobody_runs_def)

lemma others_running:
  assumes "others i s t" "j < length (procs (ptable s))" "pstate (get_proc j t) = RUNNING"
  shows "j = i \<or> pstate (get_proc j s) = RUNNING"
  using assms by (auto simp: others_def calm_def)

lemma others_D: "others i s t \<Longrightarrow> pids_ok s \<Longrightarrow> pids_ok t" "others i s t \<Longrightarrow> length (procs (ptable t)) = length (procs (ptable s))"
  by (simp_all add: others_def)

lemma kstep_kinv: "kstep x y \<Longrightarrow> kinv x \<Longrightarrow> kinv y"
proof (induction rule: kstep.induct)
  case (pick s i t)
  then show ?case using scheduler_start_Ret [OF pick.hyps] kinv_picked [of 0 i s t] by simp
next
  case (idle s t)
  then show ?case
    using scheduler_start_Ret [OF idle.hyps] keepR_pids [of s t] keepR_nobody [of s t] psig_eqD(3) [of t s]
    by (simp add: keepR_def)
next
  case (pick_next j s i t)
  from pick_next.hyps obtain u where "u = s\<lparr>cpu := (cpu s)\<lparr>cr3 := V2P (kpml4 (pviews s)), curproc := None\<rparr>\<rparr>"
    "picked (Suc j) i u t" by (rule scheduler_resume_Ret) simp
  moreover from this have "pids_ok u" "nobody_runs u" using pick_next.prems by auto
  ultimately show ?case using kinv_picked by blast
next
  case (round_end j s t)
  from round_end.hyps obtain u where u: "u = s\<lparr>cpu := (cpu s)\<lparr>cr3 := V2P (kpml4 (pviews s)), curproc := None\<rparr>\<rparr>"
    "keepR u t" by (rule scheduler_resume_Ret) simp
  then show ?case
    using keepR_pids [OF u(2)] keepR_nobody [OF u(2)] psig_eqD(3) [of t u] round_end.prems by (simp add: keepR_def)
next
  case (runs m s t i)
  then have t: "running t i" "others i s t"
    using guar_ret_D [OF kernel_ops_turn [of m i], of s "()" t] by (simp_all add: turnR_def)
  have "j = i" if "j < length (procs (ptable s))" "pstate (get_proc j t) = RUNNING" for j
    using others_running [OF t(2) that] runs.prems that(1) by auto
  then show ?case using runs.prems t by (simp add: others_D [OF t(2)])
next
  case (gives_up m s t i)
  then have t: "current t i" "others i s t" "pstate (get_proc i t) \<noteq> RUNNING"
    using guar_swtch_D [OF kernel_ops_turn [of m i], of s t] by (simp_all add: turnS_def)
  have "pstate (get_proc j t) \<noteq> RUNNING" if "j < length (procs (ptable s))" for j
    using others_running [OF t(2) that] gives_up.prems that t(3) by auto
  then show ?case using gives_up.prems t by (simp add: others_D [OF t(2)] nobody_runs_def)
qed

section \<open>Waiting\<close>

text \<open>\<open>waits p x n y\<close>: the kernel can get from \<open>x\<close> to \<open>y\<close> without giving the CPU to process \<open>p\<close>, and on
  the way the scheduler starts \<open>n\<close> turns of other processes.\<close>

definition begins :: "config \<Rightarrow> config \<Rightarrow> bool" where
  "begins x y \<longleftrightarrow> (\<forall>i. fst x \<noteq> Turn i) \<and> (\<exists>i. fst y = Turn i)"

inductive waits :: "nat \<Rightarrow> config \<Rightarrow> nat \<Rightarrow> config \<Rightarrow> bool" for p x where
  waits_here: "waits p x 0 x"
| waits_step: "waits p x n y \<Longrightarrow> kstep y z \<Longrightarrow> fst z \<noteq> Turn p \<Longrightarrow>
     waits p x (if begins y z then Suc n else n) z"

text \<open>How many turns may still come before the turn of process \<open>p\<close>.\<close>

fun turns_left :: "nat \<Rightarrow> nat \<Rightarrow> place \<Rightarrow> nat" where
  "turns_left m p Loop = p"
| "turns_left m p (Turn j) = (if j < p then p - 1 - j else m - 1 - j + p)"
| "turns_left m p (Back j) = (if j < p then p - 1 - j else m - 1 - j + p)"

abbreviation nslots :: "config \<Rightarrow> nat" where
  "nslots x \<equiv> length (procs (ptable (snd x)))"

definition ready :: "nat \<Rightarrow> config \<Rightarrow> bool" where
  "ready p x \<longleftrightarrow> p < nslots x \<and> pstate (get_proc p (snd x)) = RUNNABLE"

lemma picked_before:
  assumes "picked i k s t" "pstate (get_proc p s) = RUNNABLE" "i \<le> p"
  shows "k \<le> p"
  using assms by (meson picked_def not_le_imp_less)

lemma picked_ready:
  assumes "picked i k s t" "ready p (x, s)" "k \<noteq> p"
  shows "ready p (y, t) \<and> nslots (y, t) = nslots (x, s) \<and> k < nslots (x, s) \<and> i \<le> k"
  using assms by (auto simp: picked_def ready_def)

lemma others_ready: "others i s t \<Longrightarrow> ready p (x, s) \<Longrightarrow> p \<noteq> i \<Longrightarrow> ready p (y, t)"
  by (simp add: others_def ready_def calm_def)

lemma ready_not_running: "running s i \<Longrightarrow> ready p (x, s) \<Longrightarrow> p \<noteq> i"
  by (auto simp: ready_def running_def)

lemma fewer: "j < i \<Longrightarrow> i < m \<Longrightarrow> Suc (m - Suc i) \<le> m - Suc j"
  by linarith

lemma ready_step:
  assumes step: "kstep y z" and "fst z \<noteq> Turn p" "ready p y" "kinv y"
  shows "ready p z \<and> nslots z = nslots y \<and>
     (if begins y z then Suc (turns_left (nslots y) p (fst z)) else turns_left (nslots y) p (fst z)) \<le> turns_left (nslots y) p (fst y)"
  using assms
proof (induction rule: kstep.induct)
  case (pick s i t)
  have picked: "picked 0 i s t" using scheduler_start_Ret [OF pick.hyps] by simp
  have "i \<noteq> p" using pick.prems(1) by simp
  moreover have "i \<le> p" using picked_before [OF picked, of p] pick.prems(2) by (simp add: ready_def)
  ultimately have "i < p" by simp
  then show ?case
    using picked_ready [OF picked, of p Loop "Turn i"] pick.prems(2) by (simp add: begins_def)
next
  case (idle s t)
  have "pstate (get_proc p s) \<noteq> RUNNABLE"
    using scheduler_start_Ret [OF idle.hyps] idle.prems(2) by (auto simp: ready_def)
  then show ?case using idle.prems(2) by (simp add: ready_def)
next
  case (pick_next j s i t)
  from pick_next.hyps obtain u where u: "u = s\<lparr>cpu := (cpu s)\<lparr>cr3 := V2P (kpml4 (pviews s)), curproc := None\<rparr>\<rparr>"
    and picked: "picked (Suc j) i u t" by (rule scheduler_resume_Ret) simp
  have ready: "ready p (Back j, u)" using pick_next.prems u by (simp add: ready_def)
  have ip: "i \<noteq> p" using pick_next.prems(1) by simp
  note r = picked_ready [OF picked ready ip, of "Turn i"]
  have "Suc (turns_left (nslots (Back j, u)) p (Turn i)) \<le> turns_left (nslots (Back j, u)) p (Back j)"
  proof (cases "j < p")
    case True
    then have "i < p" using picked_before [OF picked, of p] ready ip by (simp add: ready_def)
    then show ?thesis using True r fewer [of j i p] by simp
  next
    case False
    then show ?thesis using r fewer [of j i "nslots (Back j, u) + p"] by simp
  qed
  then show ?case using r u by (simp add: begins_def)
next
  case (round_end j s t)
  from round_end.hyps obtain u where u: "u = s\<lparr>cpu := (cpu s)\<lparr>cr3 := V2P (kpml4 (pviews s)), curproc := None\<rparr>\<rparr>"
    "keepR u t" "\<forall>k. j < k \<and> k < length (procs (ptable s)) \<longrightarrow> pstate (get_proc k s) \<noteq> RUNNABLE"
    by (rule scheduler_resume_Ret) simp
  have "p \<le> j" using spec [OF u(3), of p] round_end.prems(2) by (cases "j < p") (simp_all add: ready_def)
  moreover have "ready p (Loop, t)" "length (procs (ptable t)) = length (procs (ptable s))"
    using psig_eqD(1,4) [of t u] u(1,2) round_end.prems(2) by (simp_all add: ready_def keepR_def)
  ultimately show ?case by (simp add: begins_def)
next
  case (runs m s t i)
  then have i: "running s i" by simp
  then have t: "others i s t"
    using guar_ret_D [OF kernel_ops_turn [of m i] runs.hyps(2)] runs.hyps(1) by (simp add: turnR_def)
  show ?case
    using others_ready [OF t, of p "Turn i" "Turn i"] runs.prems(2) ready_not_running [OF i] others_D(2) [OF t]
    by (simp add: begins_def)
next
  case (gives_up m s t i)
  then have i: "running s i" by simp
  then have t: "others i s t"
    using guar_swtch_D [OF kernel_ops_turn [of m i] gives_up.hyps(2)] gives_up.hyps(1) by (simp add: turnS_def)
  show ?case
    using others_ready [OF t, of p "Turn i" "Back i"] gives_up.prems(2) ready_not_running [OF i] others_D(2) [OF t]
    by (simp add: begins_def)
qed

lemma waits_bound:
  "waits p x n y \<Longrightarrow> ready p x \<Longrightarrow> kinv x \<Longrightarrow>
     kinv y \<and> ready p y \<and> nslots y = nslots x \<and> n + turns_left (nslots x) p (fst y) \<le> turns_left (nslots x) p (fst x)"
proof (induction rule: waits.induct)
  case waits_here
  then show ?case by simp
next
  case (waits_step n y z)
  then have y: "kinv y" "ready p y" "nslots y = nslots x"
    "n + turns_left (nslots x) p (fst y) \<le> turns_left (nslots x) p (fst x)" by simp_all
  note z = ready_step [OF waits_step.hyps(2,3) y(2,1)]
  show ?case
    using kstep_kinv [OF waits_step.hyps(2) y(1)] z y(3,4) by (cases "begins y z") simp_all
qed

section \<open>Properties\<close>

text \<open>The state in which the scheduler looks for a process: no lock is held.\<close>

definition sched_ok :: "kst \<Rightarrow> bool" where
  "sched_ok s \<longleftrightarrow> locks s PtableLock = free_lock \<and> ncli (cpu s) = 0"

lemma wp_sched_scan:
  assumes "find_idx (\<lambda>p. pstate p = RUNNABLE) (drop i (procs (ptable s))) = Some d"
    and "kstack (get_proc (i + d) s) \<noteq> 0" "pgtbl (pvspace (get_proc (i + d) s)) \<noteq> 0"
    and "0 < ncli (cpu s)" "\<not> eflags_if (cpu s)"
  shows "wp (sched_scan i) (\<lambda>r t. r = Some (i + d) \<and> picked i (i + d) s t \<and>
     cr3 (cpu t) = V2P (pgtbl (pvspace (get_proc (i + d) s))) \<and>
     ts_rsp0 (cpu t) = kstack (get_proc (i + d) s) + PGSIZE) s"
proof -
  have "wp (sched_scan i) (\<lambda>r t. r = Some (i + d) \<and>
     cr3 (cpu t) = V2P (pgtbl (pvspace (get_proc (i + d) s))) \<and>
     ts_rsp0 (cpu t) = kstack (get_proc (i + d) s) + PGSIZE) s"
    using assms by (simp add: sched_scan_def vspaceinstall_def wp_rules push_cpu_def pop_cpu_def)
  then show ?thesis
    using sched_scan_Some [of i s "i + d"] by (auto simp: wp_iff)
qed

lemma wp_scheduler_start:
  assumes ok: "sched_ok s" and d: "find_idx (\<lambda>p. pstate p = RUNNABLE) (procs (ptable s)) = Some k"
    and "kstack (get_proc k s) \<noteq> 0" "pgtbl (pvspace (get_proc k s)) \<noteq> 0"
  shows "wp scheduler_start (\<lambda>r t. r = Some k \<and> picked 0 k s t \<and>
     cr3 (cpu t) = V2P (pgtbl (pvspace (get_proc k s))) \<and> ts_rsp0 (cpu t) = kstack (get_proc k s) + PGSIZE) s"
proof -
  let ?u = "s\<lparr>cpu := push_cpu ((cpu s)\<lparr>eflags_if := True\<rparr>), locks := (locks s)(PtableLock := held_lock)\<rparr>"
  have "wp (sched_scan 0) (\<lambda>r t. r = Some (0 + k) \<and> picked 0 (0 + k) ?u t \<and>
     cr3 (cpu t) = V2P (pgtbl (pvspace (get_proc (0 + k) ?u))) \<and> ts_rsp0 (cpu t) = kstack (get_proc (0 + k) ?u) + PGSIZE) ?u"
    by (rule wp_sched_scan) (use assms in \<open>simp_all add: sched_ok_def\<close>)
  moreover have "keepR s ?u" by (simp add: keepR_def psig_def)
  ultimately have "wp (sched_scan 0) (\<lambda>r t. r = Some k \<and> picked 0 k s t \<and>
     cr3 (cpu t) = V2P (pgtbl (pvspace (get_proc k s))) \<and> ts_rsp0 (cpu t) = kstack (get_proc k s) + PGSIZE) ?u"
    by (auto elim!: wp_mono intro: picked_keep)
  then show ?thesis
    using ok by (simp add: scheduler_start_def wp_rules sched_ok_def holding_def kst_comm)
qed


text \<open>Two processes that wait for the CPU.\<close>

definition demo_two :: kst where
  "demo_two = zero_kst\<lparr>ptable := (ptable zero_kst)\<lparr>nextpid := 3, procs :=
     [zero_proc\<lparr>pid := 1, pstate := RUNNABLE, kstack := 0x1000, pvspace := \<lparr>regions = [], pgtbl = 0x2000\<rparr>\<rparr>,
      zero_proc\<lparr>pid := 2, pstate := RUNNABLE, kstack := 0x3000, pvspace := \<lparr>regions = [], pgtbl = 0x4000\<rparr>\<rparr>]\<rparr>\<rparr>"

lemma demo_two_sel:
  "length (procs (ptable demo_two)) = 2" "cpu demo_two = cpu zero_kst" "sched_ok demo_two"
  "get_proc 0 demo_two = zero_proc\<lparr>pid := 1, pstate := RUNNABLE, kstack := 0x1000, pvspace := \<lparr>regions = [], pgtbl = 0x2000\<rparr>\<rparr>"
  "get_proc (Suc 0) demo_two = zero_proc\<lparr>pid := 2, pstate := RUNNABLE, kstack := 0x3000, pvspace := \<lparr>regions = [], pgtbl = 0x4000\<rparr>\<rparr>"
  "nextpid (ptable demo_two) = 3"
  by (simp_all add: demo_two_def get_proc_def sched_ok_def) (simp add: zero_kst_def)


lemma demo_two_step:
  obtains t where "scheduler_start demo_two = Ret (Some 0) t" "picked 0 0 demo_two t"
proof -
  have "find_idx (\<lambda>p. pstate p = RUNNABLE) (procs (ptable demo_two)) = Some 0"
    by (simp add: demo_two_def)
  from wp_scheduler_start [OF demo_two_sel(3) this] show thesis
    using that by (auto simp: demo_two_sel wp_iff)
qed

lemma demo_two_kinv: "kinv (Loop, demo_two)" "ready 1 (Loop, demo_two)"
  by (auto simp: pids_ok_def nobody_runs_def demo_two_sel less_Suc_eq numeral_2_eq_2 zero_kst_def ready_def)





text \<open>C4: No process starves.  A runnable process gets the CPU after at most \<open>NPROC - 1\<close> turns of others:
  on a path of the kernel that does not give the CPU to process \<open>p\<close>, fewer turns begin than the process
  table has slots, and \<open>p\<close> is still runnable at its end.\<close>

theorem scheduler_bounded_waiting:
  assumes "kinv x" "ready p x" "waits p x n y"
  shows "n < nslots x \<and> ready p y"
proof -
  have "turns_left (nslots x) p (fst x) < nslots x"
    using assms(2) by (cases "fst x") (auto simp: ready_def)
  then show ?thesis using waits_bound [OF assms(3,2,1)] by simp
qed

theorem scheduler_bounded_waiting_witness:
  "\<exists>t. waits 1 (Loop, demo_two) 1 (Turn 0, t) \<and> 1 < nslots (Loop, demo_two) \<and> ready 1 (Turn 0, t)"
proof -
  obtain t where t: "scheduler_start demo_two = Ret (Some 0) t" "picked 0 0 demo_two t" by (rule demo_two_step)
  have "waits 1 (Loop, demo_two) (if begins (Loop, demo_two) (Turn 0, t) then Suc 0 else 0) (Turn 0, t)"
    by (rule waits_step [OF waits_here kstep.pick [OF t(1)]]) simp
  then have w: "waits 1 (Loop, demo_two) 1 (Turn 0, t)" by (simp add: begins_def)
  then show ?thesis using scheduler_bounded_waiting [OF demo_two_kinv w] by blast
qed

end
