(* ===== verification/PageTree.thy ===== *)
theory PageTree
  imports PageTable
begin

unbundle bit_operations_syntax

text \<open>
  What the page tables of \<open>kernel/x86_64vm.c\<close> mean: the tree of table pages below a root, the leaf entry
  of an address, and the effect of walking and mapping on them.
\<close>

section \<open>Entries\<close>

lemma PTE_ADDR_alt: "PTE_ADDR e = push_bit 12 (take_bit 40 (drop_bit 12 e))"
proof -
  have *: "(0x000FFFFFFFFFF000 :: u64) = push_bit 12 (mask 40)" by (simp add: mask_eq_exp_minus_1)
  have "e AND push_bit 12 (mask 40) = push_bit 12 (take_bit 40 (drop_bit 12 e))"
    by (rule bit_word_eqI) (auto simp: bit_simps)
  then show ?thesis unfolding PTE_ADDR_def * .
qed

lemma PTE_ADDR_make:
  assumes "drop_bit 12 f = (0 :: u64)" "take_bit 40 w = w"
  shows "PTE_ADDR (push_bit 12 w OR f) = push_bit 12 w"
proof -
  have w: "bit w n \<longleftrightarrow> n < 40 \<and> bit w n" for n using assms(2) by (metis bit_take_bit_iff)
  have f: "\<not> bit f (12 + n)" for n using assms(1) by (metis bit_drop_bit_eq bit_0_eq comp_apply bot_apply bot_bool_def)
  show ?thesis unfolding PTE_ADDR_alt
  proof (rule bit_word_eqI)
    fix n
    show "bit (push_bit 12 (take_bit 40 (drop_bit 12 (push_bit 12 w OR f)))) n = bit (push_bit 12 w) n"
      using w [of "n - 12"] f [of "n - 12"] by (auto simp: bit_simps)
  qed
qed

lemma take_bit_of_nat_page: "i < 2 ^ 19 \<Longrightarrow> take_bit 40 (of_nat i :: u64) = of_nat i"
  by (simp only: word_unat_eq_iff unsigned_take_bit_eq) (simp add: unat_of_nat take_bit_eq_mod)

definition table_flags :: u64 where
  "table_flags = PTE_P OR PTE_W OR PTE_U"

lemma table_flags_bits: "drop_bit 12 table_flags = 0" "table_flags = 7"
  by (simp_all add: table_flags_def PTE_P_def PTE_W_def PTE_U_def)

lemma new_entry:
  assumes "i < 2 ^ 19"
  shows "pte_present (V2P (kpage i) OR PTE_P OR PTE_W OR PTE_U)"
    and "table_of (V2P (kpage i) OR PTE_P OR PTE_W OR PTE_U) = kpage i"
proof -
  have *: "V2P (kpage i) OR PTE_P OR PTE_W OR PTE_U = push_bit 12 (of_nat i) OR table_flags"
    by (simp add: table_flags_def or.assoc)
  have "bit (push_bit 12 (of_nat i) OR table_flags) 0" by (simp add: bit_simps table_flags_bits)
  then have "pte_present (push_bit 12 (of_nat i) OR table_flags)"
    unfolding pte_present_def PTE_P_def by (auto simp: and_one_eq bit_0 odd_iff_mod_2_eq_one)
  then show "pte_present (V2P (kpage i) OR PTE_P OR PTE_W OR PTE_U)" unfolding * .
  have "table_of (push_bit 12 (of_nat i) OR table_flags) = kpage i"
    unfolding table_of_def PTE_ADDR_make [OF table_flags_bits(1) take_bit_of_nat_page [OF assms]] kpage_def ..
  then show "table_of (V2P (kpage i) OR PTE_P OR PTE_W OR PTE_U) = kpage i" unfolding * .
qed

lemma pte_present_0 [simp]: "\<not> pte_present 0"
  by (simp add: pte_present_def)

section \<open>The tree of tables\<close>

definition pt_step :: "(u64 \<Rightarrow> nat \<Rightarrow> u64) \<Rightarrow> u64 \<Rightarrow> nat \<Rightarrow> u64 option" where
  "pt_step T t i = (if pte_present (T t i) then Some (table_of (T t i)) else None)"

fun pt_node :: "(u64 \<Rightarrow> nat \<Rightarrow> u64) \<Rightarrow> u64 \<Rightarrow> nat list \<Rightarrow> u64 option" where
  "pt_node T t [] = Some t"
| "pt_node T t (i # is) = (case pt_step T t i of None \<Rightarrow> None | Some t' \<Rightarrow> pt_node T t' is)"

definition pt_leaf :: "(u64 \<Rightarrow> nat \<Rightarrow> u64) \<Rightarrow> u64 \<Rightarrow> nat list \<Rightarrow> nat \<Rightarrow> u64" where
  "pt_leaf T r q j = (case pt_node T r q of None \<Rightarrow> 0 | Some t \<Rightarrow> T t j)"

text \<open>No table is shared between two places of the first four levels.\<close>

definition pt_tree :: "(u64 \<Rightarrow> nat \<Rightarrow> u64) \<Rightarrow> u64 \<Rightarrow> bool" where
  "pt_tree T r \<longleftrightarrow> (\<forall>p q a. length p \<le> 3 \<and> length q \<le> 3 \<and> pt_node T r p = Some a \<and> pt_node T r q = Some a \<longrightarrow> p = q)"

definition pt_pages :: "(u64 \<Rightarrow> nat \<Rightarrow> u64) \<Rightarrow> u64 \<Rightarrow> u64 set" where
  "pt_pages T r = {a. \<exists>p. length p \<le> 3 \<and> pt_node T r p = Some a}"

lemma pt_node_snoc:
  "pt_node T r (p @ [i]) = (case pt_node T r p of None \<Rightarrow> None | Some t \<Rightarrow> pt_step T t i)"
  by (induction p arbitrary: r) (auto split: option.splits)

lemma pt_treeD: "pt_tree T r \<Longrightarrow> length p \<le> 3 \<Longrightarrow> length q \<le> 3 \<Longrightarrow> pt_node T r p = Some a \<Longrightarrow> pt_node T r q = Some a \<Longrightarrow> p = q"
  unfolding pt_tree_def by blast

lemma pt_pagesI: "length p \<le> 3 \<Longrightarrow> pt_node T r p = Some a \<Longrightarrow> a \<in> pt_pages T r"
  unfolding pt_pages_def by blast

text \<open>A new, empty table below the entry \<open>i\<close> of the table at \<open>p\<close>.\<close>

lemma pt_node_grow:
  assumes tree: "pt_tree T r" and p: "length p \<le> 2" "pt_node T r p = Some t"
    and old: "\<not> pte_present (T t i)" and fresh: "n \<notin> pt_pages T r"
    and e: "pte_present e" "table_of e = n"
    and T': "T' = T(n := (\<lambda>_. 0), t := (T t)(i := e))"
  shows "length q \<le> 3 \<Longrightarrow> pt_node T' r q = (if q = p @ [i] then Some n else pt_node T r q)"
proof (induction q rule: rev_induct)
  case Nil
  then show ?case by simp
next
  case (snoc j q)
  have tn: "t \<noteq> n" using fresh pt_pagesI [of p T r t] p by auto
  have IH: "pt_node T' r q = (if q = p @ [i] then Some n else pt_node T r q)" using snoc by simp
  have "pt_node T r (p @ [i]) = None" using p old by (simp add: pt_node_snoc pt_step_def)
  show ?case
  proof (cases "q = p @ [i]")
    case True
    then have "pt_node T' r q = Some n" using IH by simp
    then have "pt_node T' r (q @ [j]) = None"
      unfolding pt_node_snoc using tn by (simp add: pt_step_def T')
    moreover have "pt_node T r (q @ [j]) = None"
      unfolding pt_node_snoc using True \<open>pt_node T r (p @ [i]) = None\<close> by simp
    moreover have "q @ [j] \<noteq> p @ [i]" using True by (metis append_same_eq butlast_snoc length_append_singleton n_not_Suc_n)
    ultimately show ?thesis by simp
  next
    case False
    show ?thesis
    proof (cases "pt_node T r q")
      case None
      then have "pt_node T' r (q @ [j]) = None" "pt_node T r (q @ [j]) = None" using IH False by (simp_all add: pt_node_snoc)
      moreover have "q @ [j] \<noteq> p @ [i]" using None p by auto
      ultimately show ?thesis by simp
    next
      case (Some a)
      then have an: "a \<noteq> n" using fresh pt_pagesI [of q T r a] snoc.prems by auto
      have "a = t \<longleftrightarrow> q = p"
        using Some p pt_treeD [OF tree, of q p a] snoc.prems by auto
      then have step: "pt_step T' a j = (if q = p \<and> j = i then Some n else pt_step T a j)"
        using an tn e by (auto simp: pt_step_def T')
      have "pt_node T' r q = Some a" using IH False Some by simp
      then show ?thesis unfolding pt_node_snoc using Some step by simp
    qed
  qed
qed

lemma pt_leaf_grow:
  assumes "pt_tree T r" "length p \<le> 2" "pt_node T r p = Some t"
    and "\<not> pte_present (T t i)" "n \<notin> pt_pages T r" "pte_present e" "table_of e = n"
    and T': "T' = T(n := (\<lambda>_. 0), t := (T t)(i := e))"
    and q: "length q = 3"
  shows "pt_leaf T' r q j = pt_leaf T r q j"
proof -
  note grow = pt_node_grow [OF assms(1-8), of q]
  have tn: "t \<noteq> n" using assms(5) pt_pagesI [of p T r t] assms(2,3) by auto
  show ?thesis
  proof (cases "q = p @ [i]")
    case True
    then have "pt_node T r q = None" using assms(3,4) by (simp add: pt_node_snoc pt_step_def)
    then show ?thesis using True grow q tn by (simp add: pt_leaf_def T')
  next
    case False
    have "a \<noteq> n \<and> a \<noteq> t" if "pt_node T r q = Some a" for a
      using that q assms(2,3,5) pt_pagesI [of q T r a] pt_treeD [OF assms(1), of q p a] by auto
    then show ?thesis using False grow q by (auto simp: pt_leaf_def T' split: option.splits)
  qed
qed

lemma pt_tree_grow:
  assumes "pt_tree T r" "length p \<le> 2" "pt_node T r p = Some t"
    and "\<not> pte_present (T t i)" "n \<notin> pt_pages T r" "pte_present e" "table_of e = n"
    and "T' = T(n := (\<lambda>_. 0), t := (T t)(i := e))"
  shows "pt_tree T' r" "pt_pages T' r = insert n (pt_pages T r)"
proof -
  note grow = pt_node_grow [OF assms]
  show "pt_tree T' r"
    unfolding pt_tree_def
  proof (intro allI impI, elim conjE)
    fix x y a
    assume *: "length x \<le> 3" "length y \<le> 3" "pt_node T' r x = Some a" "pt_node T' r y = Some a"
    then show "x = y"
      using grow [of x] grow [of y] assms(5) pt_pagesI [of x T r a] pt_pagesI [of y T r a]
        pt_treeD [OF assms(1), of x y a] by (auto split: if_splits)
  qed
  have "pt_node T' r (p @ [i]) = Some n" using grow [of "p @ [i]"] assms(2) by simp
  moreover have "length (p @ [i]) \<le> 3" using assms(2) by simp
  ultimately have "n \<in> pt_pages T' r" by (rule pt_pagesI [rotated])
  moreover have "a \<in> pt_pages T' r" if "a \<in> pt_pages T r" for a
  proof -
    from that obtain x where x: "length x \<le> 3" "pt_node T r x = Some a" by (auto simp: pt_pages_def)
    have "x \<noteq> p @ [i]" using x assms(3,4) by (auto simp: pt_node_snoc pt_step_def)
    then show ?thesis using grow [OF x(1)] x by (intro pt_pagesI [OF x(1)]) simp
  qed
  moreover have "a \<in> insert n (pt_pages T r)" if "a \<in> pt_pages T' r" for a
  proof -
    from that obtain x where x: "length x \<le> 3" "pt_node T' r x = Some a" by (auto simp: pt_pages_def)
    then show ?thesis using grow [OF x(1)] pt_pagesI [OF x(1), of T r a] by (auto split: if_splits)
  qed
  ultimately show "pt_pages T' r = insert n (pt_pages T r)" by blast
qed

text \<open>Changing a leaf entry.\<close>

lemma pt_set_leaf:
  assumes tree: "pt_tree T r" and p: "length p = 3" "pt_node T r p = Some t"
    and T': "T' = T(t := (T t)(i := v))"
  shows "length q \<le> 3 \<Longrightarrow> pt_node T' r q = pt_node T r q"
    and "length q = 3 \<Longrightarrow> pt_leaf T' r q j = (if q = p \<and> j = i then v else pt_leaf T r q j)"
proof -
  have node: "length q \<le> 3 \<Longrightarrow> pt_node T' r q = pt_node T r q" for q
  proof (induction q rule: rev_induct)
    case Nil
    then show ?case by simp
  next
    case (snoc j q)
    have "a \<noteq> t" if "pt_node T r q = Some a" for a
      using that snoc.prems p pt_treeD [OF tree, of q p a] by auto
    then show ?case using snoc by (auto simp: pt_node_snoc pt_step_def T' split: option.splits)
  qed
  then show "length q \<le> 3 \<Longrightarrow> pt_node T' r q = pt_node T r q" .
  assume q: "length q = 3"
  have "a = t \<longleftrightarrow> q = p" if "pt_node T r q = Some a" for a
    using that q p pt_treeD [OF tree, of q p a] by auto
  then show "pt_leaf T' r q j = (if q = p \<and> j = i then v else pt_leaf T r q j)"
    using node [of q] q p by (auto simp: pt_leaf_def T' split: option.splits)
qed

lemma pt_tree_set_leaf:
  assumes "pt_tree T r" "length p = 3" "pt_node T r p = Some t" "T' = T(t := (T t)(i := v))"
  shows "pt_tree T' r" "pt_pages T' r = pt_pages T r"
proof -
  note node = pt_set_leaf(1) [OF assms]
  have "x = y" if "length x \<le> 3" "length y \<le> 3" "pt_node T' r x = Some a" "pt_node T' r y = Some a" for x y a
    using that node [of x] node [of y] pt_treeD [OF assms(1), of x y a] by simp
  then show "pt_tree T' r" unfolding pt_tree_def by blast
  show "pt_pages T' r = pt_pages T r" using node by (auto simp: pt_pages_def)
qed

end
