(* ===== verification/PageMap.thy ===== *)
theory PageMap
  imports PageTree
begin

text \<open>
  The page tables as the kernel walks and fills them (\<^verbatim>\<open>kernel/x86_64vm.c\<close>): the lookup of
  \<open>walkpml4\<close> is the walk of the hardware, a walk that may allocate keeps the tree of tables and every
  translation, and \<open>mappages\<close> changes the translation of the pages it is given and of no other.
\<close>

section \<open>Addresses and leaf entries\<close>

abbreviation pts :: "kst \<Rightarrow> u64 \<Rightarrow> nat \<Rightarrow> u64" where
  "pts s \<equiv> pt_view (pviews s)"

definition va_path :: "u64 \<Rightarrow> nat list" where
  "va_path va = [PML4_INDEX va, PDPT_INDEX va, PD_INDEX va]"

definition leaf_of :: "u64 \<Rightarrow> u64 \<Rightarrow> kst \<Rightarrow> u64" where
  "leaf_of r va s = pt_leaf (pts s) r (va_path va) (PT_INDEX va)"

text \<open>Two addresses are on the same page when they agree on bits 12 to 47.\<close>

definition same_page :: "u64 \<Rightarrow> u64 \<Rightarrow> bool" where
  "same_page va w \<longleftrightarrow> drop_bit 12 (take_bit 48 va) = drop_bit 12 (take_bit 48 w)"

lemma length_va_path [simp]: "length (va_path va) = 3"
  by (simp add: va_path_def)

lemma hw_level_pt_step: "hw_level t i s = pt_step (pts s) t i"
  by (simp add: hw_level_def pt_step_def get_pte_def Let_def)

lemma pte_of_pt_node: "pte_of r va s = map_option (\<lambda>t. (t, PT_INDEX va)) (pt_node (pts s) r (va_path va))"
  by (simp add: pte_of_def va_path_def hw_level_pt_step split: option.splits)

lemma translate_leaf:
  "translate r va s = (if pte_present (leaf_of r va s) then Some (PTE_ADDR (leaf_of r va s) + (va AND 4095)) else None)"
  by (simp add: translate_def pte_of_pt_node leaf_of_def pt_leaf_def get_pte_def split: option.splits)

lemma index_bit:
  "(drop_bit n va AND 511 :: u64) = drop_bit n w AND 511 \<longleftrightarrow> (\<forall>k < 9. n + k < 64 \<longrightarrow> bit va (n + k) = bit w (n + k))"
  unfolding and_511
proof
  assume "take_bit 9 (drop_bit n va) = take_bit 9 (drop_bit n w)"
  then have "bit (take_bit 9 (drop_bit n va)) k = bit (take_bit 9 (drop_bit n w)) k" for k by simp
  then show "\<forall>k < 9. n + k < 64 \<longrightarrow> bit va (n + k) = bit w (n + k)"
    by (simp add: bit_simps) metis
next
  assume "\<forall>k < 9. n + k < 64 \<longrightarrow> bit va (n + k) = bit w (n + k)"
  moreover have "bit x m \<Longrightarrow> m < 64" for x :: u64 and m using bit_imp_le_length [of x m] by simp
  ultimately show "take_bit 9 (drop_bit n va) = take_bit 9 (drop_bit n w)"
    by (intro bit_word_eqI) (auto simp: bit_simps)
qed

lemma same_page_indices: "same_page va w \<longleftrightarrow> va_path va = va_path w \<and> PT_INDEX va = PT_INDEX w"
proof -
  have "same_page va w \<longleftrightarrow> (\<forall>m. 12 \<le> m \<and> m < 48 \<longrightarrow> bit va m = bit w m)"
  proof
    assume "same_page va w"
    then have "bit (drop_bit 12 (take_bit 48 va)) k = bit (drop_bit 12 (take_bit 48 w)) k" for k
      by (simp add: same_page_def)
    then have "k + 12 < 48 \<longrightarrow> bit va (k + 12) = bit w (k + 12)" for k by (simp add: bit_simps add.commute) metis
    then show "\<forall>m. 12 \<le> m \<and> m < 48 \<longrightarrow> bit va m = bit w m" by (metis le_add_diff_inverse2)
  next
    assume "\<forall>m. 12 \<le> m \<and> m < 48 \<longrightarrow> bit va m = bit w m"
    then show "same_page va w"
      unfolding same_page_def by (intro bit_word_eqI) (auto simp: bit_simps)
  qed
  also have "\<dots> \<longleftrightarrow> (\<forall>k < 9. bit va (39 + k) = bit w (39 + k)) \<and> (\<forall>k < 9. bit va (30 + k) = bit w (30 + k)) \<and>
      (\<forall>k < 9. bit va (21 + k) = bit w (21 + k)) \<and> (\<forall>k < 9. bit va (12 + k) = bit w (12 + k))"
  proof (rule iffI, simp, rule allI, rule impI)
    fix m :: nat
    assume *: "(\<forall>k < 9. bit va (39 + k) = bit w (39 + k)) \<and> (\<forall>k < 9. bit va (30 + k) = bit w (30 + k)) \<and>
      (\<forall>k < 9. bit va (21 + k) = bit w (21 + k)) \<and> (\<forall>k < 9. bit va (12 + k) = bit w (12 + k))"
      and m: "12 \<le> m \<and> m < 48"
    then consider "39 \<le> m" "m - 39 < 9" | "30 \<le> m" "m - 30 < 9" | "21 \<le> m" "m - 21 < 9" | "m - 12 < 9" by linarith
    then show "bit va m = bit w m" using * m by cases (metis le_add_diff_inverse)+
  qed
  also have "\<dots> \<longleftrightarrow> va_path va = va_path w \<and> PT_INDEX va = PT_INDEX w"
    unfolding va_path_def PML4_INDEX_def PDPT_INDEX_def PD_INDEX_def PT_INDEX_def
    by (simp add: index_bit word_unat_eq_iff [symmetric])
  finally show ?thesis .
qed

section \<open>Walking\<close>


definition pt_inv :: "u64 \<Rightarrow> kst \<Rightarrow> bool" where
  "pt_inv r s \<longleftrightarrow> kalloc_inv s \<and> pt_tree (pts s) r \<and> pt_pages (pts s) r \<subseteq> managed_pages s - page_pool s"

definition same_maps :: "u64 \<Rightarrow> kst \<Rightarrow> kst \<Rightarrow> bool" where
  "same_maps r s t \<longleftrightarrow> (\<forall>q j. length q = 3 \<longrightarrow> pt_leaf (pts t) r q j = pt_leaf (pts s) r q j)"

lemma kalloc_takes:
  assumes "kalloc_inv s" "page_pool s \<noteq> {}"
  obtains i where "i \<in> avail_set s" "i < 2 ^ 19"
    "\<forall>Q. wp kalloc Q s = Q (kpage i) (s\<lparr>kmem := take_page i (kmem s), cpu := quiet (cpu s)\<rparr>)"
    "page_pool (s\<lparr>kmem := take_page i (kmem s), cpu := quiet (cpu s)\<rparr>) = page_pool s - {kpage i}"
proof -
  have ok: "kmem_ok s" "kmem_locked s" using assms(1) by (simp_all add: kalloc_inv_def)
  show thesis
  proof (cases "find_idx available (take (unat (npages (kmem s))) (core_map (kmem s)))")
    case None
    then show ?thesis using assms(2) none_available [OF ok(1)] by (simp add: page_pool_def)
  next
    case (Some i)
    note i = first_available(1,2) [OF ok(1) Some]
    have "page_pool (s\<lparr>kmem := take_page i (kmem s), cpu := quiet (cpu s)\<rparr>) = page_pool s - {kpage i}"
      using pool_minus [OF ok(1) i(1)] avail_set_upd(1) [OF i(2)] by (simp add: page_pool_def)
    then show ?thesis
      using that [of i] i(1) avail_bound [OF ok(1) i(1)] Some by (simp add: wp_kalloc [OF ok(2)])
  qed
qed

text \<open>Changes of the page views leave the allocator alone.\<close>

lemma kalloc_pviews [simp]:
  "kalloc_inv (s\<lparr>pviews := v\<rparr>) = kalloc_inv s" "page_pool (s\<lparr>pviews := v\<rparr>) = page_pool s"
  "managed_pages (s\<lparr>pviews := v\<rparr>) = managed_pages s" "page_pool (s\<lparr>cpu := c\<rparr>) = page_pool s"
  "managed_pages (s\<lparr>cpu := c\<rparr>) = managed_pages s"
  by (simp_all add: kalloc_inv_def kmem_ok_def kmem_locked_def page_pool_def managed_pages_def)

lemma wp_walk_level:
  assumes inv: "pt_inv r s" and p: "length p \<le> 2" "pt_node (pts s) r p = Some t" and pool: "page_pool s \<noteq> {}"
  shows "wp (walk_level (t, i) True) (\<lambda>res u. \<exists>n. res = Some n \<and> pt_inv r u \<and> pt_node (pts u) r (p @ [i]) = Some n \<and>
     same_maps r s u \<and> card (page_pool s) \<le> Suc (card (page_pool u)) \<and> npages (kmem u) = npages (kmem s)) s"
proof (cases "pte_present (pts s t i)")
  case True
  then show ?thesis
    using inv p by (simp add: walk_level_def wp_rules get_pte_def pt_node_snoc pt_step_def same_maps_def)
next
  case False
  have kinv: "kalloc_inv s" using inv by (simp add: pt_inv_def)
  then have ok: "kmem_ok s" by (simp add: kalloc_inv_def)
  obtain k where k: "k \<in> avail_set s" "k < 2 ^ 19"
    "\<forall>Q. wp kalloc Q s = Q (kpage k) (s\<lparr>kmem := take_page k (kmem s), cpu := quiet (cpu s)\<rparr>)"
    "page_pool (s\<lparr>kmem := take_page k (kmem s), cpu := quiet (cpu s)\<rparr>) = page_pool s - {kpage k}"
    by (rule kalloc_takes [OF kinv pool])
  let ?n = "kpage k" and ?e = "V2P (kpage k) OR PTE_P OR PTE_W OR PTE_U"
  let ?v = "s\<lparr>kmem := take_page k (kmem s), cpu := quiet (cpu s)\<rparr>"
  let ?u = "set_pte (t, i) ?e (?v\<lparr>pviews := fill_views ?n 0 (pviews s)\<rparr>)"
  have n0: "?n \<noteq> 0" by (rule kpage_nonzero [OF k(2)])
  have npool: "?n \<in> page_pool s" using k(1) by (simp add: page_pool_def)
  then have fresh: "?n \<notin> pt_pages (pts s) r" using inv by (auto simp: pt_inv_def)
  have tp: "t \<in> pt_pages (pts s) r" using p by (intro pt_pagesI) auto
  then have tn: "t \<noteq> ?n" using fresh by auto
  have T': "pts ?u = (pts s)(?n := (\<lambda>_. 0), t := (pts s t)(i := ?e))"
    using tn by (simp add: set_pte_def fill_views_def)
  have tree: "pt_tree (pts s) r" using inv by (simp add: pt_inv_def)
  note grow = tree p False fresh new_entry [OF k(2)] T'
  have kin: "kalloc_inv ?u"
    using kalloc_inv_take [OF kinv k(1)] unfolding set_pte_def by simp
  have pool': "page_pool ?u = page_pool s - {?n}"
    using k(4) unfolding set_pte_def by simp
  have man: "managed_pages ?u = managed_pages s" by (simp add: managed_pages_def set_pte_def)
  have "?n \<in> managed_pages s" using npool phys.pool_managed [OF kinv] by auto
  then have "pt_inv r ?u"
    using kin pool' man pt_tree_grow [OF grow] inv by (auto simp: pt_inv_def)
  moreover have "pt_node (pts ?u) r (p @ [i]) = Some ?n" using pt_node_grow [OF grow, of "p @ [i]"] p(1) by simp
  moreover have "same_maps r s ?u" using pt_leaf_grow [OF grow] by (simp add: same_maps_def)
  moreover have "card (page_pool s) \<le> Suc (card (page_pool ?u))"
    unfolding pool' by (simp add: card_Diff_singleton_if) linarith
  moreover have "npages (kmem ?u) = npages (kmem s)" by (simp add: set_pte_def)
  ultimately show ?thesis
    using False n0 by (simp add: walk_level_def wp_rules get_pte_def k(3) kst_comm)
qed

lemma same_maps_trans: "same_maps r s t \<Longrightarrow> same_maps r t u \<Longrightarrow> same_maps r s u"
  by (simp add: same_maps_def)

lemma wp_walk_step:
  assumes "pt_inv r s" "length p \<le> 2" "pt_node (pts s) r p = Some t" "0 < card (page_pool s)"
    and k: "\<And>u n. pt_inv r u \<Longrightarrow> pt_node (pts u) r (p @ [i]) = Some n \<Longrightarrow> same_maps r s u \<Longrightarrow>
      card (page_pool s) \<le> Suc (card (page_pool u)) \<Longrightarrow> npages (kmem u) = npages (kmem s) \<Longrightarrow> wp (k (Some n)) Q u"
  shows "wp (obind (walk_level (t, i) True) k) Q s"
proof -
  have "page_pool s \<noteq> {}" using assms(4) by auto
  from wp_walk_level [OF assms(1-3) this] show ?thesis
    unfolding wp_obind by (rule wp_mono) (auto intro: k)
qed

text \<open>With three free pages the walk always ends at an entry, and it changes no translation.\<close>

lemma wp_walkpml4:
  assumes inv: "pt_inv r s" and pool: "card (page_pool s) \<ge> 3"
  shows "wp (walkpml4 r va True) (\<lambda>res u. \<exists>t. res = Some (t, PT_INDEX va) \<and> pt_inv r u \<and>
     pt_node (pts u) r (va_path va) = Some t \<and> same_maps r s u \<and> card (page_pool s) \<le> card (page_pool u) + 3 \<and>
     npages (kmem u) = npages (kmem s)) s" (is "wp _ ?Q s")
proof -
  let ?k3 = "\<lambda>r. case r of None \<Rightarrow> ret None | Some pgtab \<Rightarrow> ret (Some (pgtab, PT_INDEX va))"
  let ?k2 = "\<lambda>r. case r of None \<Rightarrow> ret None | Some pgdir \<Rightarrow> obind (walk_level (pgdir, PD_INDEX va) True) ?k3"
  let ?k1 = "\<lambda>r. case r of None \<Rightarrow> ret None | Some pdpt \<Rightarrow> obind (walk_level (pdpt, PDPT_INDEX va) True) ?k2"
  show ?thesis
    unfolding walkpml4_def
  proof (rule wp_walk_step [OF inv, of "[]"])
    fix u n assume u: "pt_inv r u" "pt_node (pts u) r ([] @ [PML4_INDEX va]) = Some n" "same_maps r s u"
      "card (page_pool s) \<le> Suc (card (page_pool u))" "npages (kmem u) = npages (kmem s)"
    show "wp (?k1 (Some n)) ?Q u" unfolding option.case
    proof (rule wp_walk_step [OF u(1) _ u(2)])
      fix w m assume w: "pt_inv r w" "pt_node (pts w) r (([] @ [PML4_INDEX va]) @ [PDPT_INDEX va]) = Some m"
        "same_maps r u w" "card (page_pool u) \<le> Suc (card (page_pool w))" "npages (kmem w) = npages (kmem u)"
      show "wp (?k2 (Some m)) ?Q w" unfolding option.case
        by (rule wp_walk_step [OF w(1) _ w(2)])
          (use pool u w in \<open>auto simp: wp_rules va_path_def same_maps_def\<close>)
    qed (use pool u in simp_all)
  qed (use pool in simp_all)
qed

section \<open>Mapping\<close>

lemma npages_mark [simp]: "npages (kmem (upd_core i f s)) = npages (kmem s)"
  by (simp add: upd_core_def)

lemma pt_inv_mark:
  assumes "pt_inv r s"
  shows "pt_inv r (upd_core i (\<lambda>e. e\<lparr>cuser := b, cva := a\<rparr>) s)"
    and "page_pool (upd_core i (\<lambda>e. e\<lparr>cuser := b, cva := a\<rparr>) s) = page_pool s"
proof -
  let ?u = "upd_core i (\<lambda>e. e\<lparr>cuser := b, cva := a\<rparr>) s"
  have "x < length xs \<Longrightarrow> available (xs[i := (xs ! i)\<lparr>cuser := b, cva := a\<rparr>] ! x) = available (xs ! x)" for x xs
    by (cases "x = i") simp_all
  then have av: "avail_set ?u = avail_set s"
    by (auto simp: avail_set_def upd_core_def)
  show pool: "page_pool ?u = page_pool s" by (simp add: page_pool_def av)
  have "kmem_ok ?u = kmem_ok s" "kmem_locked ?u = kmem_locked s" "managed_pages ?u = managed_pages s" "pts ?u = pts s"
    unfolding kmem_ok_def av by (simp_all add: upd_core_def kmem_locked_def managed_pages_def freeable_def)
  then show "pt_inv r ?u" using assms pool by (simp add: pt_inv_def kalloc_inv_def)
qed

text \<open>Writing the entry the walk has found.\<close>

lemma set_leaf:
  assumes inv: "pt_inv r u" and node: "pt_node (pts u) r (va_path w) = Some t"
  shows "pt_inv r (set_pte (t, PT_INDEX w) e u)"
    and "leaf_of r va (set_pte (t, PT_INDEX w) e u) = (if same_page va w then e else leaf_of r va u)"
    and "page_pool (set_pte (t, PT_INDEX w) e u) = page_pool u"
    and "npages (kmem (set_pte (t, PT_INDEX w) e u)) = npages (kmem u)"
proof -
  let ?v = "set_pte (t, PT_INDEX w) e u"
  have tree: "pt_tree (pts u) r" using inv by (simp add: pt_inv_def)
  have T: "pts ?v = (pts u)(t := (pts u t)(PT_INDEX w := e))" by (simp add: set_pte_def)
  show pool: "page_pool ?v = page_pool u" by (simp add: set_pte_def)
  have "kalloc_inv ?v = kalloc_inv u" "managed_pages ?v = managed_pages u" by (simp_all add: set_pte_def)
  then show "pt_inv r ?v"
    using inv pool pt_tree_set_leaf [OF tree _ node T] by (simp add: pt_inv_def)
  show "leaf_of r va ?v = (if same_page va w then e else leaf_of r va u)"
    using pt_set_leaf(2) [OF tree _ node T, of "va_path va" "PT_INDEX va"]
    by (simp add: leaf_of_def same_page_indices)
  show "npages (kmem ?v) = npages (kmem u)" by (simp add: set_pte_def)
qed

lemma same_maps_leaf: "same_maps r s u \<Longrightarrow> leaf_of r va u = leaf_of r va s"
  by (simp add: same_maps_def leaf_of_def)

lemma wp_mark_user_mem:
  assumes "unat (npages (kmem s)) < 2 ^ 19" "unat pfn < unat (npages (kmem s))"
  shows "wp (mark_user_mem (push_bit 12 pfn) va) Q s =
     Q () (upd_core (unat pfn) (\<lambda>e. e\<lparr>cuser := True, cva := va\<rparr>) s)"
proof -
  have "V2P (kpage (unat pfn)) = push_bit 12 pfn" by simp
  then show ?thesis
    using wp_pa2page_kpage [OF assms] by (simp add: mark_user_mem_def wp_rules)
qed

lemma wp_map_one:
  assumes inv: "pt_inv r s" and pool: "card (page_pool s) \<ge> 3"
    and free: "\<not> pte_present (leaf_of r (push_bit 12 vpn) s)"
    and frame: "\<not> kern \<longrightarrow> unat pfn < unat (npages (kmem s))"
    and k: "\<And>t. pt_inv r t \<Longrightarrow> card (page_pool s) \<le> card (page_pool t) + 3 \<Longrightarrow> npages (kmem t) = npages (kmem s) \<Longrightarrow>
      (\<And>va. leaf_of r va t = (if same_page va (push_bit 12 vpn) then PTE (push_bit 12 pfn) perm else leaf_of r va s)) \<Longrightarrow>
      wp (mappages_loop n r (vpn + 1) (pfn + 1) perm kern) Q t"
  shows "wp (mappages_loop (Suc n) r vpn pfn perm kern) Q s"
  unfolding mappages_loop.simps wp_obind
proof (rule wp_mono [OF wp_walkpml4 [OF inv pool]], elim exE conjE)
  let ?w = "push_bit 12 vpn" and ?e = "PTE (push_bit 12 pfn) perm"
  fix res u t
  assume u: "res = Some (t, PT_INDEX ?w)" "pt_inv r u" "pt_node (pts u) r (va_path ?w) = Some t" "same_maps r s u"
    "card (page_pool s) \<le> card (page_pool u) + 3" "npages (kmem u) = npages (kmem s)"
  have "leaf_of r ?w u = pts u t (PT_INDEX ?w)" using u(3) by (simp add: leaf_of_def pt_leaf_def)
  then have np: "\<not> pte_present (get_pte (t, PT_INDEX ?w) u)"
    using free same_maps_leaf [OF u(4)] by (simp add: get_pte_def)
  let ?v = "set_pte (t, PT_INDEX ?w) ?e u"
  note v = set_leaf [OF u(2,3), where e = ?e]
  have b: "unat (npages (kmem ?v)) < 2 ^ 19" using v(1) by (simp add: pt_inv_def kalloc_inv_def kmem_ok_def)
  let ?f = "upd_core (unat pfn) (\<lambda>e. e\<lparr>cuser := True, cva := ?w\<rparr>)"
  have leaf: "leaf_of r va ?v = (if same_page va ?w then ?e else leaf_of r va s)" for va
    using v(2) same_maps_leaf [OF u(4)] by simp
  have leaf': "leaf_of r va (?f ?v) = leaf_of r va ?v" for va by (simp add: leaf_of_def upd_core_def)
  have kern: "wp (mappages_loop n r (vpn + 1) (pfn + 1) perm kern) Q ?v" if kern
    using k [OF v(1)] v(3,4) u(5,6) leaf by simp
  have user: "wp (mappages_loop n r (vpn + 1) (pfn + 1) perm kern) Q (?f ?v)"
    using k [OF pt_inv_mark(1) [OF v(1)]] pt_inv_mark(2) [OF v(1)] v(3,4) u(5,6) leaf leaf' by simp
  show "wp (case res of None \<Rightarrow> panic ''not enough memory'' | Some pte \<Rightarrow>
     obind (gets (get_pte pte)) (\<lambda>v. if pte_present v then panic ''remap'' else
     oseq (modify (set_pte pte ?e)) (
     oseq (kwhen (\<not> kern) (mark_user_mem (push_bit 12 pfn) ?w))
       (mappages_loop n r (vpn + 1) (pfn + 1) perm kern)))) Q u"
    using np kern user wp_mark_user_mem [OF b] frame v(4) u(6)
    by (cases kern) (simp_all add: u(1) wp_rules)
qed

text \<open>Pages of one call are different pages.\<close>

lemma same_page_push: "same_page (push_bit 12 a) (push_bit 12 b) \<longleftrightarrow> take_bit 36 a = take_bit 36 b"
proof -
  have *: "drop_bit 12 (take_bit 48 (push_bit 12 x)) = take_bit 36 x" for x :: u64
    by (rule bit_word_eqI) (auto simp: bit_simps)
  show ?thesis by (simp add: same_page_def *)
qed

lemma same_page_step:
  assumes "k < 2 ^ 36"
  shows "same_page (push_bit 12 (v + of_nat k)) (push_bit 12 v) \<longleftrightarrow> k = 0"
proof
  assume "same_page (push_bit 12 (v + of_nat k)) (push_bit 12 v)"
  then have eq: "take_bit 36 (v + of_nat k) = take_bit 36 v" by (simp only: same_page_push)
  have "unat (v + of_nat k) = (unat v + k) mod 2 ^ 64"
    by (simp add: unat_word_ariths unat_of_nat mod_simps)
  then have "unat (v + of_nat k) mod 2 ^ 36 = (unat v + k) mod 2 ^ 36"
    using mod_mod_cancel [of "2 ^ 36" "2 ^ 64 :: nat"] by (simp add: le_imp_power_dvd)
  moreover have "unat (v + of_nat k) mod 2 ^ 36 = unat v mod 2 ^ 36"
    using arg_cong [OF eq, of unat] unfolding unsigned_take_bit_eq by (simp only: take_bit_eq_mod)
  ultimately have "(unat v + k) mod 2 ^ 36 = unat v mod 2 ^ 36" by simp
  then have "2 ^ 36 dvd k" using mod_eq_dvd_iff_nat [of "unat v" "unat v + k" "2 ^ 36"] by simp
  then show "k = 0" using assms dvd_imp_le [of "2 ^ 36" k] by (cases "k = 0") simp_all
qed (simp add: same_page_def)

text \<open>The leaf of an address after \<open>n\<close> pages have been mapped from \<open>vpn\<close> on.\<close>

definition mapped :: "nat \<Rightarrow> u64 \<Rightarrow> u64 \<Rightarrow> u64 \<Rightarrow> u64 \<Rightarrow> kst \<Rightarrow> kst \<Rightarrow> bool" where
  "mapped n r vpn pfn perm s t \<longleftrightarrow>
     (\<forall>va. (\<forall>k < n. same_page va (push_bit 12 (vpn + of_nat k)) \<longrightarrow>
              leaf_of r va t = PTE (push_bit 12 (pfn + of_nat k)) perm) \<and>
           ((\<forall>k < n. \<not> same_page va (push_bit 12 (vpn + of_nat k))) \<longrightarrow> leaf_of r va t = leaf_of r va s))"

lemma same_page_trans: "same_page a b \<Longrightarrow> same_page a c \<Longrightarrow> same_page b c"
  by (simp add: same_page_def)

lemma mapped_Suc:
  assumes n: "n < 2 ^ 36"
    and one: "\<And>va. leaf_of r va t = (if same_page va (push_bit 12 vpn) then PTE (push_bit 12 pfn) perm else leaf_of r va s)"
    and rest: "mapped n r (vpn + 1) (pfn + 1) perm t u"
  shows "mapped (Suc n) r vpn pfn perm s u"
  unfolding mapped_def
proof (intro allI conjI impI)
  fix va k assume k: "k < Suc n" and same: "same_page va (push_bit 12 (vpn + of_nat k))"
  show "leaf_of r va u = PTE (push_bit 12 (pfn + of_nat k)) perm"
  proof (cases k)
    case 0
    have "\<not> same_page va (push_bit 12 (vpn + 1 + of_nat j))" if "j < n" for j
      using same_page_trans [of va "push_bit 12 (vpn + of_nat (Suc j))" "push_bit 12 vpn"]
        same_page_step [of "Suc j" vpn] that n same 0 by (auto simp: add.assoc)
    then have "leaf_of r va u = leaf_of r va t" using rest by (simp add: mapped_def)
    then show ?thesis using one same 0 by simp
  next
    case (Suc j)
    then show ?thesis using rest same k by (auto simp: mapped_def add.assoc)
  qed
next
  fix va assume no: "\<forall>k < Suc n. \<not> same_page va (push_bit 12 (vpn + of_nat k))"
  have "\<not> same_page va (push_bit 12 (vpn + 1 + of_nat j))" if "j < n" for j
    using spec [OF no, of "Suc j"] that by (simp add: add.assoc)
  then have "leaf_of r va u = leaf_of r va t" using rest by (simp add: mapped_def)
  then show "leaf_of r va u = leaf_of r va s" using one spec [OF no, of 0] by simp
qed

lemma wp_mappages_loop:
  "pt_inv r s \<Longrightarrow> 3 * n \<le> card (page_pool s) \<Longrightarrow> n < 2 ^ 36 \<Longrightarrow>
   \<forall>k < n. \<not> pte_present (leaf_of r (push_bit 12 (vpn + of_nat k)) s) \<Longrightarrow>
   unat pfn + n \<le> 2 ^ 40 \<Longrightarrow> \<not> kern \<longrightarrow> unat pfn + n \<le> unat (npages (kmem s)) \<Longrightarrow>
   wp (mappages_loop n r vpn pfn perm kern) (\<lambda>_ t. pt_inv r t \<and> mapped n r vpn pfn perm s t) s"
proof (induction n arbitrary: s vpn pfn)
  case 0
  then show ?case by (simp add: wp_rules mapped_def mappages_loop.simps)
next
  case (Suc n)
  show ?case
  proof (rule wp_map_one)
    show "pt_inv r s" "3 \<le> card (page_pool s)" "\<not> kern \<longrightarrow> unat pfn < unat (npages (kmem s))"
      using Suc.prems by auto
    show "\<not> pte_present (leaf_of r (push_bit 12 vpn) s)" using spec [OF Suc.prems(4), of 0] by simp
    fix t
    assume t: "pt_inv r t" "card (page_pool s) \<le> card (page_pool t) + 3" "npages (kmem t) = npages (kmem s)"
      and leaf: "\<And>va. leaf_of r va t = (if same_page va (push_bit 12 vpn) then PTE (push_bit 12 pfn) perm else leaf_of r va s)"
    have "unat pfn + 1 < 2 ^ 64" using Suc.prems(5) by simp
    then have p: "unat (pfn + 1) = unat pfn + 1" by (simp add: unat_word_ariths)
    have free: "\<not> pte_present (leaf_of r (push_bit 12 (vpn + 1 + of_nat k)) t)" if "k < n" for k
      using same_page_step [of "Suc k" vpn] spec [OF Suc.prems(4), of "Suc k"] Suc.prems(3) that leaf
      by (simp add: add.assoc)
    have "wp (mappages_loop n r (vpn + 1) (pfn + 1) perm kern)
       (\<lambda>_ u. pt_inv r u \<and> mapped n r (vpn + 1) (pfn + 1) perm t u) t"
      using Suc.prems t free p by (intro Suc.IH) auto
    then show "wp (mappages_loop n r (vpn + 1) (pfn + 1) perm kern)
       (\<lambda>_ u. pt_inv r u \<and> mapped (Suc n) r vpn pfn perm s u) t"
      by (rule wp_mono) (use mapped_Suc [OF _ leaf] Suc.prems(3) in auto)
  qed
qed

lemma pte_present_PTE: "perm AND PTE_P \<noteq> 0 \<Longrightarrow> pte_present (PTE (push_bit 12 w) perm)"
  by (simp add: pte_present_def PTE_def PTE_P_def and_one_eq odd_iff_mod_2_eq_one [symmetric] bit_0 [symmetric] bit_simps)

lemma PTE_ADDR_frame:
  assumes "unat pfn + n \<le> 2 ^ 40" "k < n" "drop_bit 12 perm = 0"
  shows "PTE_ADDR (PTE (push_bit 12 (pfn + of_nat k)) perm) = push_bit 12 (pfn + of_nat k)"
proof -
  have "k < 2 ^ 64" "unat pfn + k < 2 ^ 64" using assms by simp_all
  then have "unat (pfn + of_nat k) = unat pfn + k" by (simp add: unat_word_ariths unat_of_nat)
  then have "unat (pfn + of_nat k) < 2 ^ 40" using assms by simp
  then have "take_bit 40 (pfn + of_nat k) = pfn + of_nat k"
    by (simp only: word_unat_eq_iff unsigned_take_bit_eq take_bit_nat_eq_self)
  then show ?thesis unfolding PTE_def by (rule PTE_ADDR_make [OF assms(3)])
qed


text \<open>C2: \<open>mappages\<close> maps exactly what it is asked to: with memory for the tables, on pages that are not
  mapped yet, it returns 0; each of the \<open>num_page\<close> virtual pages then translates to its frame, every
  other address translates as before, and the tables are still a tree of pages owned by nobody else.\<close>

theorem mappages_extends_translation:
  assumes inv: "pt_inv r s" and n: "n = nat (sint num_page)" and mem: "3 * n \<le> card (page_pool s)"
    and free: "\<forall>k < n. \<not> pte_present (leaf_of r (push_bit 12 (vpn + of_nat k)) s)"
    and pfn: "unat pfn + n \<le> 2 ^ 40" "\<not> kern \<longrightarrow> unat pfn + n \<le> unat (npages (kmem s))"
    and perm: "perm AND PTE_P \<noteq> 0" "drop_bit 12 perm = 0"
  shows "wp (mappages r vpn num_page pfn perm kern) (\<lambda>rc t. rc = 0 \<and> pt_inv r t \<and>
     (\<forall>va. (\<forall>k < n. same_page va (push_bit 12 (vpn + of_nat k)) \<longrightarrow>
              translate r va t = Some (push_bit 12 (pfn + of_nat k) + (va AND 4095))) \<and>
           ((\<forall>k < n. \<not> same_page va (push_bit 12 (vpn + of_nat k))) \<longrightarrow>
              translate r va t = translate r va s))) s"
proof -
  have "sint num_page < 2 ^ 31" using sint_lt [of num_page] by simp
  then have "n < 2 ^ 36" unfolding n by simp
  from wp_mappages_loop [OF inv mem this free pfn, of perm]
  have "wp (mappages_loop n r vpn pfn perm kern) (\<lambda>_ t. pt_inv r t \<and> mapped n r vpn pfn perm s t) s" .
  then show ?thesis
    unfolding mappages_def wp_oseq wp_ret n [symmetric]
    by (rule wp_mono)
      (auto simp: mapped_def translate_leaf pte_present_PTE [OF perm(1)] PTE_ADDR_frame [OF pfn(1) _ perm(2)])
qed

text \<open>A root whose entries are all zero maps nothing.\<close>

lemma pt_node_empty: "\<forall>i. T r i = 0 \<Longrightarrow> pt_node T r p = Some a \<Longrightarrow> p = [] \<and> a = r"
  by (cases p) (simp_all add: pt_step_def)

lemma pt_inv_empty:
  assumes "kalloc_inv s" "r \<in> managed_pages s" "r \<notin> page_pool s" "\<forall>i. pts s r i = 0"
  shows "pt_inv r s" "leaf_of r va s = 0"
proof -
  have "pt_pages (pts s) r \<subseteq> {r}" "pt_tree (pts s) r"
    using pt_node_empty [of "pts s" r, OF assms(4)] by (auto simp: pt_pages_def pt_tree_def)
  then show "pt_inv r s" using assms by (auto simp: pt_inv_def)
  show "leaf_of r va s = 0"
    using pt_node_empty [of "pts s" r "va_path va"] assms(4)
    by (auto simp: leaf_of_def pt_leaf_def va_path_def split: option.splits)
qed

text \<open>Six pages: two of the kernel, a root table and three free ones.\<close>

definition demo_root :: kst where
  "demo_root = zero_kst\<lparr>kmem := \<lparr>npages = 6, pages_in_use = 1, pages_in_swap = 0, free_pages = 3,
     core_map = [fresh_entry\<lparr>available := False\<rparr>, fresh_entry\<lparr>available := False\<rparr>,
       fresh_entry\<lparr>available := False\<rparr>, fresh_entry, fresh_entry, fresh_entry],
     use_lock = True, kend = kpage 2, rand_next = 1\<rparr>\<rparr>"

lemma demo_root_avail: "avail_set demo_root = {3, 4, 5}"
  by (simp add: avail_set_code demo_root_def fresh_entry_def upt_rec eval_nat_numeral)

lemma demo_root_ok: "pt_inv (kpage 2) demo_root" "leaf_of (kpage 2) va demo_root = 0"
  "card (page_pool demo_root) = 3"
proof -
  have "kalloc_inv demo_root"
    unfolding kalloc_inv_def kmem_ok_def kmem_locked_def demo_root_avail
    by (simp add: demo_root_def kpage_le_iff)
  moreover have "kpage 2 \<in> managed_pages demo_root"
    by (simp add: managed_pages_def freeable_def demo_root_def)
  moreover have "kpage 2 \<notin> page_pool demo_root"
    by (simp add: page_pool_def demo_root_avail kpage_inj)
  moreover have "\<forall>i. pts demo_root (kpage 2) i = 0" by (simp add: demo_root_def zero_kst_def zero_views_def)
  ultimately show "pt_inv (kpage 2) demo_root" "leaf_of (kpage 2) va demo_root = 0" by (rule pt_inv_empty)+
  show "card (page_pool demo_root) = 3" by (simp add: page_pool_def demo_root_avail kpage_inj)
qed

theorem mappages_extends_translation_witness:
  "wp (mappages (kpage 2) 0x12345 1 1 7 False) (\<lambda>rc t. rc = 0 \<and> pt_inv (kpage 2) t \<and>
     translate (kpage 2) 0x12345678 t = Some 0x1678) demo_root"
proof -
  have same: "same_page 0x12345678 (push_bit 12 0x12345)" by (simp add: same_page_def)
  have "wp (mappages (kpage 2) 0x12345 1 1 7 False) (\<lambda>rc t. rc = 0 \<and> pt_inv (kpage 2) t \<and>
     (\<forall>va. (\<forall>k < 1. same_page va (push_bit 12 (0x12345 + of_nat k)) \<longrightarrow>
              translate (kpage 2) va t = Some (push_bit 12 (1 + of_nat k) + (va AND 4095))) \<and>
           ((\<forall>k < 1. \<not> same_page va (push_bit 12 (0x12345 + of_nat k))) \<longrightarrow>
              translate (kpage 2) va t = translate (kpage 2) va demo_root))) demo_root"
    by (rule mappages_extends_translation [OF demo_root_ok(1)])
      (simp_all add: demo_root_ok PTE_P_def, simp_all add: demo_root_def)
  then show ?thesis
    by (rule wp_mono) (use same in \<open>auto dest: spec [of _ "0x12345678"]\<close>)
qed





end
