(* ===== verification/Grep.thy ===== *)
theory Grep
  imports Prelude
begin

text \<open>
  The user program \<open>grep\<close> (\<open>user/grep.c\<close>): its matcher for patterns with the operators \<open>^\<close>, \<open>.\<close>, \<open>*\<close>
  and \<open>$\<close>, and the loop that reads a file through a buffer of 1024 bytes and writes the lines that
  match.

  A C string is the list of its bytes without the final zero.  The file is the list of the bytes that
  are still to be read; \<open>read\<close> fills the room it is given as long as the file lasts.
\<close>

section \<open>The matcher\<close>

definition caret :: byte where "caret = 94"
definition dot :: byte where "dot = 46"
definition star :: byte where "star = 42"
definition dollar :: byte where "dollar = 36"
definition newline :: byte where "newline = 10"

function matchhere :: "byte list \<Rightarrow> byte list \<Rightarrow> bool"
  and matchstar :: "byte \<Rightarrow> byte list \<Rightarrow> byte list \<Rightarrow> bool" where
  "matchhere re text =
     (case re of [] \<Rightarrow> True | c # rest \<Rightarrow>
      if rest \<noteq> [] \<and> hd rest = star then matchstar c (tl rest) text
      else if c = dollar \<and> rest = [] then text = []
      else case text of [] \<Rightarrow> False | t # ts \<Rightarrow> (c = dot \<or> c = t) \<and> matchhere rest ts)"
| "matchstar c re text =
     (matchhere re text \<or> (case text of [] \<Rightarrow> False | t # ts \<Rightarrow> (t = c \<or> c = dot) \<and> matchstar c re ts))"
  by pat_completeness auto
termination
  by (relation "measures [\<lambda>x. case x of Inl (re, t) \<Rightarrow> length re | Inr (c, re, t) \<Rightarrow> Suc (length re),
                          \<lambda>x. case x of Inl (re, t) \<Rightarrow> length t | Inr (c, re, t) \<Rightarrow> length t]")
    (auto simp: neq_Nil_conv)

declare matchhere.simps [simp del] matchstar.simps [simp del]

fun match_from :: "byte list \<Rightarrow> byte list \<Rightarrow> bool" where
  "match_from re text = (matchhere re text \<or> (case text of [] \<Rightarrow> False | t # ts \<Rightarrow> match_from re ts))"

declare match_from.simps [simp del]

definition match :: "byte list \<Rightarrow> byte list \<Rightarrow> bool" where
  "match re text = (if re \<noteq> [] \<and> hd re = caret then matchhere (tl re) text else match_from re text)"

section \<open>What a pattern means\<close>

datatype item = One byte | Rep byte | End

fun items :: "byte list \<Rightarrow> item list" where
  "items [] = []"
| "items [c] = [if c = dollar then End else One c]"
| "items (c # d # re) = (if d = star then Rep c # items re else One c # items (d # re))"

definition fits :: "byte \<Rightarrow> byte \<Rightarrow> bool" where
  "fits c x \<longleftrightarrow> c = dot \<or> c = x"

text \<open>\<open>matches is t v\<close>: the items match a prefix of the text \<open>t\<close> and leave \<open>v\<close>.\<close>

inductive matches :: "item list \<Rightarrow> byte list \<Rightarrow> byte list \<Rightarrow> bool" where
  m_nil: "matches [] v v"
| m_one: "fits c x \<Longrightarrow> matches is t v \<Longrightarrow> matches (One c # is) (x # t) v"
| m_rep: "\<forall>x \<in> set u. fits c x \<Longrightarrow> matches is t v \<Longrightarrow> matches (Rep c # is) (u @ t) v"
| m_end: "matches [End] [] []"

inductive_cases m_nilE: "matches [] t v"
inductive_cases m_oneE: "matches (One c # is) t v"
inductive_cases m_repE: "matches (Rep c # is) t v"
inductive_cases m_endE: "matches (End # is) t v"

lemma matches_Nil [simp]: "matches [] t v \<longleftrightarrow> v = t"
  by (auto intro: m_nil elim: m_nilE)

lemma matches_One: "matches (One c # is) t v \<longleftrightarrow> (\<exists>x u. t = x # u \<and> fits c x \<and> matches is u v)"
  by (auto intro: m_one elim: m_oneE)

lemma matches_Rep:
  "matches (Rep c # is) t v \<longleftrightarrow> matches is t v \<or> (\<exists>x u. t = x # u \<and> fits c x \<and> matches (Rep c # is) u v)"
proof
  assume "matches (Rep c # is) t v"
  then obtain u w where t: "t = u @ w" "\<forall>x \<in> set u. fits c x" "matches is w v" by (rule m_repE)
  then show "matches is t v \<or> (\<exists>x u. t = x # u \<and> fits c x \<and> matches (Rep c # is) u v)"
    by (cases u) (auto intro: m_rep)
next
  assume "matches is t v \<or> (\<exists>x u. t = x # u \<and> fits c x \<and> matches (Rep c # is) u v)"
  then show "matches (Rep c # is) t v"
  proof
    assume "matches is t v"
    then show ?thesis using m_rep [of "[]" c "is" t v] by simp
  next
    assume "\<exists>x u. t = x # u \<and> fits c x \<and> matches (Rep c # is) u v"
    then obtain x u where t: "t = x # u" "fits c x" "matches (Rep c # is) u v" by blast
    from t(3) obtain a b where "u = a @ b" "\<forall>x \<in> set a. fits c x" "matches is b v" by (rule m_repE)
    then show ?thesis using t(1,2) m_rep [of "x # a" c "is" b v] by simp
  qed
qed

lemma matches_End [simp]: "matches (End # is) t v \<longleftrightarrow> is = [] \<and> t = [] \<and> v = []"
  by (auto intro: m_end elim: m_endE)

lemma matchhere_eqs:
  "matchhere [] s = True"
  "matchhere [c] s = (if c = dollar then s = [] else case s of [] \<Rightarrow> False | t # ts \<Rightarrow> fits c t)"
  "matchhere (c # d # re) s = (if d = star then matchstar c re s
     else case s of [] \<Rightarrow> False | t # ts \<Rightarrow> fits c t \<and> matchhere (d # re) ts)"
proof -
  show empty: "matchhere [] s = True" for s by (subst matchhere.simps) simp
  show "matchhere [c] s = (if c = dollar then s = [] else case s of [] \<Rightarrow> False | t # ts \<Rightarrow> fits c t)"
    by (subst matchhere.simps) (simp add: fits_def empty split: list.split)
  show "matchhere (c # d # re) s = (if d = star then matchstar c re s
     else case s of [] \<Rightarrow> False | t # ts \<Rightarrow> fits c t \<and> matchhere (d # re) ts)"
    by (subst matchhere.simps) (simp add: fits_def split: list.split)
qed

lemma matchstar_eqs:
  "matchstar c re [] = matchhere re []"
  "matchstar c re (t # ts) = (matchhere re (t # ts) \<or> fits c t \<and> matchstar c re ts)"
  by (auto simp: matchstar.simps [of c re "[]"] matchstar.simps [of c re "t # ts"] fits_def)

lemma matchstar_matches:
  assumes "\<And>t. matchhere re t = (\<exists>v. matches (items re) t v)"
  shows "matchstar c re s = (\<exists>v. matches (Rep c # items re) s v)"
proof (induction s)
  case Nil
  then show ?case by (simp add: matchstar_eqs assms matches_Rep [of c _ "[]"])
next
  case (Cons t ts)
  then show ?case by (auto simp: matchstar_eqs assms matches_Rep [of c _ "t # ts"])
qed

lemma matchhere_matches: "matchhere re s = (\<exists>v. matches (items re) s v)"
proof (induction re arbitrary: s rule: items.induct)
  case 1
  then show ?case by (auto simp: matchhere_eqs)
next
  case (2 c)
  then show ?case by (auto simp: matchhere_eqs matches_One split: list.split)
next
  case (3 c d re)
  then show ?case
    by (auto simp: matchhere_eqs matches_One matchstar_matches split: list.split)
qed

lemma match_from_suffix: "match_from re s \<longleftrightarrow> (\<exists>u t. s = u @ t \<and> matchhere re t)"
proof (induction s)
  case Nil
  show ?case by (subst match_from.simps) simp
next
  case (Cons x xs)
  then show ?case by (subst match_from.simps) (auto simp: Cons_eq_append_conv)
qed

text \<open>C15: \<open>match\<close> decides the meaning of the pattern: the text contains a part that the items of the
  pattern match, at its beginning if the pattern starts with \<open>^\<close> and up to its end if it ends with \<open>$\<close>.\<close>

theorem match_correct:
  "match re s \<longleftrightarrow>
     (\<exists>u t v. s = u @ t \<and>
        (if re \<noteq> [] \<and> hd re = caret then u = [] \<and> matches (items (tl re)) t v else matches (items re) t v))"
proof (cases "re \<noteq> [] \<and> hd re = caret")
  case True
  then show ?thesis by (simp add: match_def matchhere_matches)
next
  case False
  then show ?thesis unfolding match_def match_from_suffix matchhere_matches by simp blast
qed

section \<open>Reading and printing\<close>

definition BUFSZ :: nat where "BUFSZ = 1024"

text \<open>\<open>strchr(p, '\n')\<close> and what it divides: the line and what follows it.  A zero byte ends the search.\<close>

definition split_line :: "byte list \<Rightarrow> (byte list \<times> byte list) option" where
  "split_line xs =
     (if newline \<in> set (takeWhile (\<lambda>c. c \<noteq> 0) xs)
      then Some (takeWhile (\<lambda>c. c \<noteq> newline) xs, tl (dropWhile (\<lambda>c. c \<noteq> newline) xs))
      else None)"

lemma tl_dropWhile_shorter:
  assumes "newline \<in> set xs"
  shows "length (tl (dropWhile (\<lambda>c. c \<noteq> newline) xs)) < length xs"
proof -
  have "dropWhile (\<lambda>c. c \<noteq> newline) xs \<noteq> []" using assms by (auto simp: dropWhile_eq_Nil_conv)
  then have "length (tl (dropWhile (\<lambda>c. c \<noteq> newline) xs)) < length (dropWhile (\<lambda>c. c \<noteq> newline) xs)" by simp
  then show ?thesis using length_dropWhile_le [of "\<lambda>c. c \<noteq> newline" xs] by simp
qed

lemma split_line_shorter: "split_line xs = Some (l, rest) \<Longrightarrow> length rest < length xs"
  by (auto simp: split_line_def split: if_splits dest: set_takeWhileD intro!: tl_dropWhile_shorter)

lemma at_newline:
  "newline \<notin> set l \<Longrightarrow> takeWhile (\<lambda>c. c \<noteq> newline) (l @ newline # rest) = l"
  "newline \<notin> set l \<Longrightarrow> dropWhile (\<lambda>c. c \<noteq> newline) (l @ newline # rest) = newline # rest"
  by (induction l) auto

text \<open>The inner loop: the bytes it writes, and the bytes after the last line.\<close>

function grep_lines :: "byte list \<Rightarrow> byte list \<Rightarrow> byte list \<times> byte list" where
  "grep_lines pattern xs =
     (case split_line xs of
        None \<Rightarrow> ([], xs)
      | Some (l, rest) \<Rightarrow>
          let (out, p) = grep_lines pattern rest
          in ((if match pattern l then l @ [newline] else []) @ out, p))"
  by pat_completeness auto
termination
  by (relation "measure (length o snd)") (auto dest: split_line_shorter)

text \<open>The outer loop: \<open>buf\<close> holds the \<open>m\<close> bytes kept from the last round and \<open>file\<close> what is left to
  read.\<close>

function grep :: "byte list \<Rightarrow> byte list \<Rightarrow> byte list \<Rightarrow> byte list" where
  "grep pattern buf file =
     (let n = min (BUFSZ - length buf - 1) (length file) in
      if n = 0 then [] else
      let xs = buf @ take n file; (out, p) = grep_lines pattern xs
      in out @ grep pattern (if length p = length xs then [] else p) (drop n file))"
  by pat_completeness auto
termination
  by (relation "measure (length o snd o snd)") auto

declare grep_lines.simps [simp del] grep.simps [simp del]

section \<open>What it prints\<close>

function full_lines :: "byte list \<Rightarrow> byte list list" where
  "full_lines xs =
     (if newline \<in> set xs
      then takeWhile (\<lambda>c. c \<noteq> newline) xs # full_lines (tl (dropWhile (\<lambda>c. c \<noteq> newline) xs))
      else [])"
  by pat_completeness auto
termination
  by (relation "measure length") (simp_all add: tl_dropWhile_shorter del: length_tl)

declare full_lines.simps [simp del]

lemma full_lines_none: "newline \<notin> set xs \<Longrightarrow> full_lines xs = []"
  by (simp add: full_lines.simps)

lemma full_lines_cons: "newline \<notin> set l \<Longrightarrow> full_lines (l @ newline # rest) = l # full_lines rest"
  by (subst full_lines.simps) (simp add: at_newline)

definition print_lines :: "byte list \<Rightarrow> byte list list \<Rightarrow> byte list" where
  "print_lines pattern ls = concat (map (\<lambda>l. l @ [newline]) (filter (match pattern) ls))"

lemma print_lines_simps [simp]:
  "print_lines pattern [] = []"
  "print_lines pattern (l # ls) = (if match pattern l then l @ [newline] else []) @ print_lines pattern ls"
  "print_lines pattern (ls @ ms) = print_lines pattern ls @ print_lines pattern ms"
  by (simp_all add: print_lines_def)

lemma line_cases:
  obtains "newline \<notin> set xs" | l rest where "xs = l @ newline # rest" "newline \<notin> set l"
  by (metis split_list_first)

lemma split_line_eq:
  assumes "0 \<notin> set xs"
  shows "newline \<notin> set xs \<Longrightarrow> split_line xs = None"
    and "xs = l @ newline # rest \<Longrightarrow> newline \<notin> set l \<Longrightarrow> split_line xs = Some (l, rest)"
proof -
  have *: "takeWhile (\<lambda>c. c \<noteq> 0) xs = xs" using assms by (auto simp: takeWhile_eq_all_conv)
  show "newline \<notin> set xs \<Longrightarrow> split_line xs = None" by (simp add: split_line_def *)
  show "xs = l @ newline # rest \<Longrightarrow> newline \<notin> set l \<Longrightarrow> split_line xs = Some (l, rest)"
    unfolding split_line_def * by (simp add: at_newline)
qed

text \<open>The inner loop prints the matching lines and leaves the unfinished one.\<close>

lemma grep_lines_correct:
  assumes "0 \<notin> set xs"
  obtains p where "grep_lines pattern xs = (print_lines pattern (full_lines xs), p)"
    "newline \<notin> set p" "length p = length xs \<longleftrightarrow> newline \<notin> set xs" "length p \<le> length xs"
    "\<forall>ys. full_lines (xs @ ys) = full_lines xs @ full_lines (p @ ys)" "set p \<subseteq> set xs"
  using assms
proof (induction xs arbitrary: thesis rule: length_induct)
  case (1 xs)
  show ?case
  proof (cases xs rule: line_cases)
    case 1
    then show ?thesis
      using split_line_eq(1) [OF "1.prems"(2) 1] "1.prems"(1) [of xs] by (simp add: grep_lines.simps full_lines_none)
  next
    case (2 l rest)
    have z: "0 \<notin> set rest" using 2 "1.prems"(2) by auto
    obtain p where p: "grep_lines pattern rest = (print_lines pattern (full_lines rest), p)"
      "newline \<notin> set p" "length p \<le> length rest"
      "\<forall>ys. full_lines (rest @ ys) = full_lines rest @ full_lines (p @ ys)" "set p \<subseteq> set rest"
    proof -
      have "length rest < length xs" using 2 by simp
      then show ?thesis using "1.IH" z that by blast
    qed
    have g: "grep_lines pattern xs = (print_lines pattern (full_lines xs), p)"
      using split_line_eq(2) [OF "1.prems"(2) 2] p(1) 2(2)
      unfolding 2(1) by (simp add: grep_lines.simps [of pattern "l @ newline # rest"] full_lines_cons)
    show ?thesis
      by (rule "1.prems"(1) [OF g p(2)]) (use p(3-5) 2 in \<open>auto simp: full_lines_cons\<close>)
  qed
qed

lemma long_line:
  assumes "newline \<notin> set xs" "newline \<in> set ys"
  shows "\<exists>l \<in> set (full_lines (xs @ ys)). length xs \<le> length l"
proof -
  obtain a b where "ys = a @ newline # b" "newline \<notin> set a" using split_list_first [OF assms(2)] by blast
  then show ?thesis using full_lines_cons [of "xs @ a" b] assms(1) by simp
qed

lemma grep_invariant:
  "newline \<notin> set buf \<Longrightarrow> length buf < BUFSZ - 1 \<Longrightarrow> 0 \<notin> set buf \<union> set inp \<Longrightarrow>
   \<forall>l \<in> set (full_lines (buf @ inp)). length l < BUFSZ - 1 \<Longrightarrow>
   grep pattern buf inp = print_lines pattern (full_lines (buf @ inp))"
proof (induction pattern buf inp rule: grep.induct)
  case (1 pattern buf inp)
  define n where "n = min (BUFSZ - length buf - 1) (length inp)"
  show ?case
  proof (cases "n = 0")
    case True
    then have "inp = []" using "1.prems"(2) unfolding n_def by (cases inp) auto
    then show ?thesis using "1.prems"(1) by (subst grep.simps) (simp add: full_lines_none)
  next
    case False
    let ?xs = "buf @ take n inp" and ?rest = "drop n inp"
    have z: "0 \<notin> set ?xs" using "1.prems"(3) by (auto dest: in_set_takeD)
    have inp: "buf @ inp = ?xs @ ?rest" by simp
    obtain p where p: "grep_lines pattern ?xs = (print_lines pattern (full_lines ?xs), p)" "newline \<notin> set p"
      "length p = length ?xs \<longleftrightarrow> newline \<notin> set ?xs" "length p \<le> length ?xs"
      "\<forall>ys. full_lines (?xs @ ys) = full_lines ?xs @ full_lines (p @ ys)" "set p \<subseteq> set ?xs"
      by (rule grep_lines_correct [OF z, of pattern])
    let ?b = "if length p = length ?xs then [] else p"
    have step: "grep pattern buf inp = print_lines pattern (full_lines ?xs) @ grep pattern ?b ?rest"
      using False p(1) grep.simps [of pattern buf inp, folded n_def] by (simp add: Let_def del: length_append)
    have len: "length ?xs \<le> BUFSZ - 1" using "1.prems"(2) unfolding n_def by auto
    have same: "full_lines (?b @ ?rest) = full_lines (p @ ?rest)"
    proof (cases "newline \<in> set ?xs")
      case True
      then show ?thesis using p(3) by simp
    next
      case no: False
      have "newline \<notin> set ?rest"
      proof
        assume r: "newline \<in> set ?rest"
        then have "?rest \<noteq> []" by auto
        then have "length ?xs = BUFSZ - 1" using "1.prems"(2) unfolding n_def by (auto simp: min_def split: if_splits)
        then show False using long_line [OF no r] "1.prems"(4) unfolding inp by fastforce
      qed
      then show ?thesis using no p(2,3) by (simp add: full_lines_none)
    qed
    have all: "full_lines (buf @ inp) = full_lines ?xs @ full_lines (p @ ?rest)"
      using spec [OF p(5), of ?rest] unfolding inp .
    have "grep pattern ?b ?rest = print_lines pattern (full_lines (?b @ ?rest))"
    proof (rule "1.IH" [OF n_def False refl p(1) [symmetric] refl])
      show "newline \<notin> set ?b" "length ?b < BUFSZ - 1" using p(2,4) len by (auto simp: BUFSZ_def)
      show "0 \<notin> set ?b \<union> set ?rest" using "1.prems"(3) p(6) z by (auto dest: in_set_dropD)
      show "\<forall>l \<in> set (full_lines (?b @ ?rest)). length l < BUFSZ - 1"
        using "1.prems"(4) unfolding same all by simp
    qed
    then show ?thesis unfolding step same all by simp
  qed
qed

text \<open>C37: \<open>grep\<close> prints exactly the lines of the file that match, in order, when the file holds no zero
  byte and its lines fit into the buffer.\<close>

theorem grep_prints_matching_lines:
  assumes "0 \<notin> set inp" "\<forall>l \<in> set (full_lines inp). length l < BUFSZ - 1"
  shows "grep pattern [] inp = concat (map (\<lambda>l. l @ [newline]) (filter (match pattern) (full_lines inp)))"
  using grep_invariant [of "[]" inp pattern] assms by (simp add: print_lines_def BUFSZ_def)

text \<open>The pattern \<open>^b\<close> on a file of two lines.\<close>

theorem grep_prints_matching_lines_witness:
  "grep [94, 98] [] [97, 10, 98, 99, 10] = [98, 99, 10]"
proof -
  have l: "full_lines [97, 10, 98, 99, 10] = [[97], [98, 99]]"
    using full_lines_cons [of "[97]" "[98, 99, 10]"] full_lines_cons [of "[98, 99]" "[]"]
    by (simp add: newline_def full_lines_none)
  have "\<not> match [94, 98] [97]" "match [94, 98] [98, 99]"
    by (simp_all add: match_def caret_def matchhere_eqs fits_def dollar_def dot_def)
  then show ?thesis
    using grep_prints_matching_lines [of "[97, 10, 98, 99, 10]" "[94, 98]"]
    by (simp add: l newline_def BUFSZ_def)
qed

end
