(* ===== verification/Sh.thy ===== *)
theory Sh
  imports Kstate "HOL-Library.Sublist"
begin

text \<open>
  The parser of the shell (\<open>user/sh.c\<close>).

  A command line is the list of its bytes up to the terminating zero; \<open>s\<close> and \<open>es\<close> are positions in it
  and the byte at \<open>es\<close> is the zero.  Every parsing function works on a state with the position the code
  keeps in \<open>*ps\<close> and the number of further calls of \<open>malloc\<close> that succeed: the first one that fails ends
  the shell's child with \<open>panic\<close>.  A word of the line is the pair of the positions of its first byte
  and of the byte behind it, as the arrays \<open>argv\<close> and \<open>eargv\<close> have them.

  The functions \<open>parseline\<close>, \<open>parsepipe\<close>, \<open>parseexec\<close> and \<open>parseblock\<close> call each other.  Their first
  argument bounds the depth of those calls and goes down only where the code has consumed a symbol;
  each loop has a bound of its own.  \<open>parsecmd\<close> starts with more than the length of the line, and
  \<open>parsecmd_total\<close> shows that this never runs out.
\<close>

section \<open>Commands\<close>

definition MAXARGS :: nat where "MAXARGS = 10"

type_synonym token = "nat \<times> nat"

text \<open>The words of a command are positions in the line while it is parsed; the printer below uses the same
  trees with the text of the words.\<close>

datatype 'w command =
    EXEC "'w list"
  | REDIR "'w command" 'w u32 nat
  | PIPE "'w command" "'w command"
  | LIST "'w command" "'w command"
  | BACK "'w command"

type_synonym cmd = "token command"

record sh_state =
  spos :: nat
  room :: nat

type_synonym 'a sh = "('a, sh_state) kop"

text \<open>The call of \<open>malloc\<close> in the constructors.\<close>

definition alloc_cmd :: "unit sh" where
  "alloc_cmd = obind (gets room) (\<lambda>r.
     if r = 0 then panic ''malloc failed'' else modify (\<lambda>s. s\<lparr>room := r - 1\<rparr>))"

definition execcmd :: "cmd sh" where
  "execcmd = oseq alloc_cmd (ret (EXEC []))"

definition redircmd :: "cmd \<Rightarrow> token \<Rightarrow> u32 \<Rightarrow> nat \<Rightarrow> cmd sh" where
  "redircmd subcmd q mode fd = oseq alloc_cmd (ret (REDIR subcmd q mode fd))"

definition pipecmd :: "cmd \<Rightarrow> cmd \<Rightarrow> cmd sh" where
  "pipecmd l r = oseq alloc_cmd (ret (PIPE l r))"

definition listcmd :: "cmd \<Rightarrow> cmd \<Rightarrow> cmd sh" where
  "listcmd l r = oseq alloc_cmd (ret (LIST l r))"

definition backcmd :: "cmd \<Rightarrow> cmd sh" where
  "backcmd subcmd = oseq alloc_cmd (ret (BACK subcmd))"

section \<open>Tokens\<close>

text \<open>The bytes \<open>" \t\r\n\v"\<close> and \<open>"<|>&;()"\<close>.\<close>

definition whitespace :: "byte list" where "whitespace = [32, 9, 13, 10, 11]"
definition symbols :: "byte list" where "symbols = [60, 124, 62, 38, 59, 40, 41]"

definition ch :: "byte list \<Rightarrow> nat \<Rightarrow> byte" where
  "ch line s = (if s < length line then line ! s else 0)"

definition skip_while :: "(byte \<Rightarrow> bool) \<Rightarrow> byte list \<Rightarrow> nat \<Rightarrow> nat" where
  "skip_while P line s = s + length (takeWhile P (drop s line))"

definition is_space :: "byte \<Rightarrow> bool" where "is_space c \<longleftrightarrow> c \<in> set whitespace"
definition is_word :: "byte \<Rightarrow> bool" where "is_word c \<longleftrightarrow> c \<notin> set whitespace \<and> c \<notin> set symbols"

text \<open>\<open>gettoken\<close> returns the kind of the token (0 at the end of the line, \<open>'a'\<close> for a word, \<open>'+'\<close> for
  \<open>>>\<close>, else the symbol itself) and its first and last position.\<close>

definition scan_token :: "byte list \<Rightarrow> nat \<Rightarrow> byte \<times> nat" where
  "scan_token line s =
     (let c = ch line s in
      if c = 0 then (0, s)
      else if c \<in> {124, 40, 41, 59, 38, 60} then (c, s + 1)
      else if c = 62 then (if ch line (s + 1) = 62 then (43, s + 2) else (62, s + 1))
      else (97, skip_while is_word line s))"

definition gettoken :: "byte list \<Rightarrow> (byte \<times> token) sh" where
  "gettoken line = obind (gets spos) (\<lambda>p.
     let q = skip_while is_space line p; (tok, eq) = scan_token line q
     in oseq (modify (\<lambda>s. s\<lparr>spos := skip_while is_space line eq\<rparr>)) (ret (tok, (q, eq))))"

definition peek :: "byte list \<Rightarrow> byte list \<Rightarrow> bool sh" where
  "peek line toks = obind (gets spos) (\<lambda>p.
     let q = skip_while is_space line p
     in oseq (modify (\<lambda>s. s\<lparr>spos := q\<rparr>)) (ret (ch line q \<noteq> 0 \<and> ch line q \<in> set toks)))"

section \<open>The grammar\<close>

fun redirs_loop :: "nat \<Rightarrow> byte list \<Rightarrow> cmd \<Rightarrow> cmd sh" where
  "redirs_loop 0 line cmd = hang"
| "redirs_loop (Suc n) line cmd =
     obind (peek line [60, 62]) (\<lambda>more.
     if \<not> more then ret cmd else
     obind (gettoken line) (\<lambda>(tok, _).
     obind (gettoken line) (\<lambda>(w, q).
     if w \<noteq> 97 then panic ''missing file for redirection'' else
     obind (if tok = 60 then redircmd cmd q O_RDONLY 0
            else if tok = 62 then redircmd cmd q (O_WRONLY OR O_CREATE) 1
            else if tok = 43 then redircmd cmd q (O_WRONLY OR O_CREATE) 1
            else ret cmd) (redirs_loop n line))))"

definition parseredirs :: "byte list \<Rightarrow> cmd \<Rightarrow> cmd sh" where
  "parseredirs line cmd = redirs_loop (Suc (length line)) line cmd"

text \<open>\<open>cmd->argv[argc] = q; argc++\<close> on the \<open>EXEC\<close> node inside the redirections around it.\<close>

fun argc :: "cmd \<Rightarrow> nat" where
  "argc (EXEC argv) = length argv"
| "argc (REDIR c q m fd) = argc c"
| "argc _ = 0"

fun add_arg :: "token \<Rightarrow> cmd \<Rightarrow> cmd" where
  "add_arg t (EXEC argv) = EXEC (argv @ [t])"
| "add_arg t (REDIR c q m fd) = REDIR (add_arg t c) q m fd"
| "add_arg t c = c"

fun args_loop :: "nat \<Rightarrow> byte list \<Rightarrow> cmd \<Rightarrow> cmd sh" where
  "args_loop 0 line cmd = hang"
| "args_loop (Suc n) line cmd =
     obind (peek line [124, 41, 38, 59]) (\<lambda>stop.
     if stop then ret cmd else
     obind (gettoken line) (\<lambda>(tok, t).
     if tok = 0 then ret cmd
     else if tok \<noteq> 97 then panic ''syntax''
     else if argc cmd + 1 \<ge> MAXARGS then panic ''too many args''
     else obind (parseredirs line (add_arg t cmd)) (args_loop n line)))"

fun back_loop :: "nat \<Rightarrow> byte list \<Rightarrow> cmd \<Rightarrow> cmd sh" where
  "back_loop 0 line cmd = hang"
| "back_loop (Suc n) line cmd =
     obind (peek line [38]) (\<lambda>more.
     if \<not> more then ret cmd else
     oseq (gettoken line) (obind (backcmd cmd) (back_loop n line)))"

function (sequential) parseline :: "nat \<Rightarrow> byte list \<Rightarrow> cmd sh"
  and parsepipe :: "nat \<Rightarrow> byte list \<Rightarrow> cmd sh"
  and parseexec :: "nat \<Rightarrow> byte list \<Rightarrow> cmd sh"
  and parseblock :: "nat \<Rightarrow> byte list \<Rightarrow> cmd sh" where
  "parseline n line =
     obind (parsepipe n line) (\<lambda>cmd.
     obind (back_loop (Suc (length line)) line cmd) (\<lambda>cmd.
     obind (peek line [59]) (\<lambda>more.
     if \<not> more then ret cmd else
     oseq (gettoken line)
       (case n of 0 \<Rightarrow> hang | Suc m \<Rightarrow> obind (parseline m line) (listcmd cmd)))))"
| "parsepipe n line =
     obind (parseexec n line) (\<lambda>cmd.
     obind (peek line [124]) (\<lambda>more.
     if \<not> more then ret cmd else
     oseq (gettoken line)
       (case n of 0 \<Rightarrow> hang | Suc m \<Rightarrow> obind (parsepipe m line) (pipecmd cmd))))"
| "parseexec n line =
     obind (peek line [40]) (\<lambda>block.
     if block then parseblock n line else
     obind execcmd (\<lambda>cmd.
     obind (parseredirs line cmd) (args_loop (Suc (length line)) line)))"
| "parseblock n line =
     obind (peek line [40]) (\<lambda>open.
     if \<not> open then panic ''parseblock'' else
     oseq (gettoken line)
       (case n of 0 \<Rightarrow> hang | Suc m \<Rightarrow>
        obind (parseline m line) (\<lambda>cmd.
        obind (peek line [41]) (\<lambda>close.
        if \<not> close then panic ''syntax - missing )'' else
        oseq (gettoken line) (parseredirs line cmd)))))"
  by pat_completeness auto
termination
  by (relation "measures [\<lambda>x. case x of Inl (Inl (n, _)) \<Rightarrow> n | Inl (Inr (n, _)) \<Rightarrow> n
                                       | Inr (Inl (n, _)) \<Rightarrow> n | Inr (Inr (n, _)) \<Rightarrow> n,
                          \<lambda>x. case x of Inl (Inl _) \<Rightarrow> 3 | Inl (Inr _) \<Rightarrow> 2 | Inr (Inl _) \<Rightarrow> 1 | Inr (Inr _) \<Rightarrow> 0]")
    auto

declare parseline.simps [simp del] parsepipe.simps [simp del] parseexec.simps [simp del] parseblock.simps [simp del]

text \<open>\<open>nulterminate\<close> writes a zero behind every word of the command.\<close>

fun nulterminate :: "cmd \<Rightarrow> byte list \<Rightarrow> byte list" where
  "nulterminate (EXEC argv) mem = fold (\<lambda>(q, eq) m. m[eq := 0]) argv mem"
| "nulterminate (REDIR c (q, eq) m fd) mem = (nulterminate c mem)[eq := 0]"
| "nulterminate (PIPE l r) mem = nulterminate r (nulterminate l mem)"
| "nulterminate (LIST l r) mem = nulterminate r (nulterminate l mem)"
| "nulterminate (BACK c) mem = nulterminate c mem"

definition parsecmd :: "byte list \<Rightarrow> (cmd \<times> byte list) sh" where
  "parsecmd line =
     obind (parseline (Suc (length line)) line) (\<lambda>cmd.
     oseq (peek line []) (
     obind (gets spos) (\<lambda>p.
     if p \<noteq> length line then panic ''syntax''
     else ret (cmd, nulterminate cmd (line @ [0])))))"

section \<open>The parser ends\<close>

text \<open>\<open>okp m Q s\<close>: \<open>m\<close> ends, with a result that satisfies \<open>Q\<close> or in \<open>panic\<close>.\<close>

definition okp :: "('a, 's) kop \<Rightarrow> ('a \<Rightarrow> 's \<Rightarrow> bool) \<Rightarrow> 's \<Rightarrow> bool" where
  "okp m Q s \<longleftrightarrow> (case m s of Ret a t \<Rightarrow> Q a t | Panic e \<Rightarrow> True | _ \<Rightarrow> False)"

named_theorems ok_rules

lemma okp_basic [ok_rules]:
  "okp (ret a) Q s = Q a s" "okp (panic e) Q s" "okp (gets f) Q s = Q (f s) s" "okp (modify g) R s = R () (g s)"
  "\<not> okp hang Q s"
  "okp (if b then m else m') Q s = (if b then okp m Q s else okp m' Q s)"
  by (simp_all add: okp_def kop_defs)

lemma okp_bind [ok_rules]:
  "okp (obind m f) Q s = okp m (\<lambda>a. okp (f a) Q) s"
  "okp (oseq m m') Q s = okp m (\<lambda>_. okp m' Q) s"
  by (simp_all add: okp_def kop_defs split: outcome.splits)

lemma okp_mono: "okp m Q s \<Longrightarrow> (\<And>a t. Q a t \<Longrightarrow> R a t) \<Longrightarrow> okp m R s"
  by (auto simp: okp_def split: outcome.splits)

lemma okp_alloc [ok_rules]: "okp alloc_cmd Q s = (room s = 0 \<or> Q () (s\<lparr>room := room s - 1\<rparr>))"
  by (simp add: alloc_cmd_def ok_rules)

lemmas cmd_defs = execcmd_def redircmd_def pipecmd_def listcmd_def backcmd_def

subsection \<open>Positions\<close>

lemma skip_ge: "s \<le> skip_while P line s"
  by (simp add: skip_while_def)

lemma skip_le: "s \<le> length line \<Longrightarrow> skip_while P line s \<le> length line"
  using length_takeWhile_le [of P "drop s line"] by (simp add: skip_while_def)

lemma skip_stop: "skip_while P line s < length line \<Longrightarrow> \<not> P (line ! skip_while P line s)"
  using nth_length_takeWhile [of P "drop s line"] by (simp add: skip_while_def)

lemma skip_all: "s \<le> i \<Longrightarrow> i < skip_while P line s \<Longrightarrow> i < length line \<Longrightarrow> P (line ! i)"
  using nth_mem [of "i - s" "takeWhile P (drop s line)"] takeWhile_nth [of "i - s" P "drop s line"]
  by (simp add: skip_while_def) (metis less_diff_conv2 add.commute set_takeWhileD)

lemma skip_step: "s < length line \<Longrightarrow> P (line ! s) \<Longrightarrow> s < skip_while P line s"
  by (simp add: skip_while_def Cons_nth_drop_Suc [symmetric])

text \<open>A word of the line: it is not empty and ends where the word characters end.\<close>

definition word_at :: "byte list \<Rightarrow> token \<Rightarrow> bool" where
  "word_at line = (\<lambda>(q, e). q < e \<and> e \<le> length line \<and> (\<forall>i. q \<le> i \<and> i < e \<longrightarrow> is_word (line ! i)) \<and>
     (e < length line \<longrightarrow> \<not> is_word (line ! e)))"

lemma ch_nonzero: "ch line s \<noteq> 0 \<Longrightarrow> s < length line"
  by (simp add: ch_def split: if_splits)

lemma word_char: "c \<notin> {124, 40, 41, 59, 38, 60} \<Longrightarrow> c \<noteq> 62 \<Longrightarrow> \<not> is_space c \<Longrightarrow> is_word c"
  by (auto simp: is_word_def is_space_def symbols_def)

lemma scan_token_range:
  assumes "scan_token line s = (tok, e)" "s \<le> length line" "s < length line \<Longrightarrow> \<not> is_space (line ! s)"
  shows "s \<le> e \<and> e \<le> length line \<and> (tok \<noteq> 0 \<longrightarrow> s < e) \<and> (ch line s \<noteq> 0 \<longrightarrow> tok \<noteq> 0) \<and> (tok = 97 \<longrightarrow> word_at line (s, e))"
proof -
  let ?c = "ch line s"
  consider "?c = 0" | "?c \<noteq> 0" "?c \<in> {124, 40, 41, 59, 38, 60}" | "?c = 62"
    | "?c \<noteq> 0" "?c \<notin> {124, 40, 41, 59, 38, 60}" "?c \<noteq> 62" by blast
  then show ?thesis
  proof cases
    case 1
    then show ?thesis using assms by (simp add: scan_token_def Let_def)
  next
    case 2
    then show ?thesis using assms ch_nonzero [of line s] by (auto simp: scan_token_def Let_def)
  next
    case 3
    then show ?thesis using assms ch_nonzero [of line s] ch_nonzero [of line "s + 1"]
      by (auto simp: scan_token_def Let_def split: if_splits)
  next
    case 4
    then have l: "s < length line" by (simp add: ch_nonzero)
    with 4 have "is_word (line ! s)" using assms(3) word_char by (simp add: ch_def)
    moreover have "(tok, e) = (97, skip_while is_word line s)" using assms(1) 4 by (simp add: scan_token_def Let_def)
    ultimately show ?thesis
      using 4 l skip_step [of s line is_word] skip_le [of s line is_word] skip_stop [of is_word line s]
        skip_all [of s _ is_word line] by (auto simp: word_at_def)
  qed
qed

lemma okp_gettoken:
  assumes "spos s \<le> length line"
    and "\<And>tok q e p. spos s \<le> p \<Longrightarrow> p \<le> length line \<Longrightarrow> (tok \<noteq> 0 \<Longrightarrow> spos s < p) \<Longrightarrow>
           (ch line (skip_while is_space line (spos s)) \<noteq> 0 \<Longrightarrow> tok \<noteq> 0) \<Longrightarrow>
           (tok = 97 \<Longrightarrow> word_at line (q, e)) \<Longrightarrow> Q (tok, (q, e)) (s\<lparr>spos := p\<rparr>)"
  shows "okp (gettoken line) Q s"
proof -
  let ?q = "skip_while is_space line (spos s)"
  obtain tok e where t: "scan_token line ?q = (tok, e)" by fastforce
  note r = scan_token_range [OF t skip_le [OF assms(1)] skip_stop [of is_space]]
  have e: "spos s \<le> e" "e \<le> length line" "tok \<noteq> 0 \<Longrightarrow> spos s < e" "tok = 97 \<Longrightarrow> word_at line (?q, e)"
    "ch line ?q \<noteq> 0 \<Longrightarrow> tok \<noteq> 0"
    using r skip_ge [of "spos s" is_space line] by auto
  show ?thesis
    unfolding gettoken_def
    by (simp add: ok_rules t Let_def,
        rule assms(2) [OF order_trans [OF e(1) skip_ge] skip_le [OF e(2)] less_le_trans [OF e(3) skip_ge] e(5) e(4)])
qed

lemma okp_peek:
  assumes "spos s \<le> length line"
    and "\<And>b p. spos s \<le> p \<Longrightarrow> p \<le> length line \<Longrightarrow> (b \<Longrightarrow> ch line (skip_while is_space line p) \<noteq> 0) \<Longrightarrow>
           Q b (s\<lparr>spos := p\<rparr>)"
  shows "okp (peek line toks) Q s"
proof -
  let ?q = "skip_while is_space line (spos s)"
  have "skip_while is_space line ?q = ?q" if "ch line ?q \<noteq> 0"
    using skip_stop [of is_space line "spos s"] ch_nonzero [OF that]
    by (simp add: skip_while_def [of _ _ "skip_while is_space line (spos s)"] Cons_nth_drop_Suc [symmetric])
  then show ?thesis
    unfolding peek_def using assms(2) [OF skip_ge skip_le [OF assms(1)]] by (simp add: ok_rules Let_def)
qed

subsection \<open>The parsing functions\<close>

fun wf_cmd :: "byte list \<Rightarrow> cmd \<Rightarrow> bool" where
  "wf_cmd line (EXEC argv) \<longleftrightarrow> length argv < MAXARGS \<and> list_all (word_at line) argv"
| "wf_cmd line (REDIR c q m fd) \<longleftrightarrow> wf_cmd line c \<and> word_at line q"
| "wf_cmd line (PIPE l r) \<longleftrightarrow> wf_cmd line l \<and> wf_cmd line r"
| "wf_cmd line (LIST l r) \<longleftrightarrow> wf_cmd line l \<and> wf_cmd line r"
| "wf_cmd line (BACK c) \<longleftrightarrow> wf_cmd line c"

lemma wf_add_arg: "wf_cmd line c \<Longrightarrow> word_at line t \<Longrightarrow> Suc (argc c) < MAXARGS \<Longrightarrow> wf_cmd line (add_arg t c)"
  by (induction t c rule: add_arg.induct) auto

definition later :: "byte list \<Rightarrow> nat \<Rightarrow> cmd \<Rightarrow> sh_state \<Rightarrow> bool" where
  "later line p c t \<longleftrightarrow> wf_cmd line c \<and> p \<le> spos t \<and> spos t \<le> length line"

lemma later_mono: "later line p c t \<Longrightarrow> p' \<le> p \<Longrightarrow> later line p' c t"
  by (simp add: later_def)

lemma okp_later: "okp m (later line (spos t)) t \<Longrightarrow> p < spos t \<Longrightarrow> okp m (later line p) t"
  by (erule okp_mono) (auto elim: later_mono)

lemma laterI: "wf_cmd line c \<Longrightarrow> p \<le> spos t \<Longrightarrow> spos t \<le> length line \<Longrightarrow> later line p c t"
  by (simp add: later_def)

text \<open>A symbol that \<open>peek\<close> has seen is consumed by the next \<open>gettoken\<close>.\<close>

lemma okp_symbol:
  assumes "spos s \<le> length line"
    and "\<And>t. spos s \<le> spos t \<Longrightarrow> spos t \<le> length line \<Longrightarrow> okp m Q t"
    and "\<And>r t. spos s < spos t \<Longrightarrow> spos t \<le> length line \<Longrightarrow> okp (k r) Q t"
  shows "okp (obind (peek line toks) (\<lambda>more. if \<not> more then m else obind (gettoken line) k)) Q s"
  unfolding ok_rules
proof (rule okp_peek [OF assms(1)])
  fix b p assume p: "spos s \<le> p" "p \<le> length line" "b \<Longrightarrow> ch line (skip_while is_space line p) \<noteq> 0"
  show "if \<not> b then okp m Q (s\<lparr>spos := p\<rparr>) else okp (gettoken line) (\<lambda>a. okp (k a) Q) (s\<lparr>spos := p\<rparr>)"
    using p assms(2) [of "s\<lparr>spos := p\<rparr>"] by (auto intro!: okp_gettoken assms(3))
qed

lemma okp_token:
  assumes "spos s \<le> length line"
    and "\<And>q t. spos s \<le> spos t \<Longrightarrow> spos t \<le> length line \<Longrightarrow> okp (k (0, q)) Q t"
    and "\<And>q t. spos s < spos t \<Longrightarrow> spos t \<le> length line \<Longrightarrow> word_at line q \<Longrightarrow> okp (k (97, q)) Q t"
    and "\<And>tok q t. tok \<noteq> 0 \<Longrightarrow> tok \<noteq> 97 \<Longrightarrow> spos s < spos t \<Longrightarrow> spos t \<le> length line \<Longrightarrow> okp (k (tok, q)) Q t"
  shows "okp (obind (gettoken line) k) Q s"
  unfolding ok_rules
proof (rule okp_gettoken [OF assms(1)])
  fix tok :: byte and q e p
  assume p: "spos s \<le> p" "p \<le> length line" "tok \<noteq> 0 \<Longrightarrow> spos s < p" "tok = 97 \<Longrightarrow> word_at line (q, e)"
  consider "tok = 0" | "tok = 97" | "tok \<noteq> 0" "tok \<noteq> 97" by blast
  then show "okp (k (tok, (q, e))) Q (s\<lparr>spos := p\<rparr>)"
    by cases (use p in \<open>auto intro: assms(2-4)\<close>)
qed

text \<open>A loop body that has consumed something may run the loop again.\<close>

lemma okp_again:
  assumes "\<And>c s. wf_cmd line c \<Longrightarrow> spos s \<le> length line \<Longrightarrow> length line - spos s < n \<Longrightarrow> okp (f c) (later line (spos s)) s"
    and "length line - p < Suc n" "wf_cmd line c" "p < spos t" "spos t \<le> length line"
  shows "okp (f c) (later line p) t"
proof -
  have "length line - spos t < n" using assms(2,4,5) by linarith
  from assms(1) [OF assms(3,5) this] assms(4) show ?thesis by (rule okp_later)
qed

lemma okp_redirs_loop:
  "wf_cmd line c \<Longrightarrow> spos s \<le> length line \<Longrightarrow> length line - spos s < n \<Longrightarrow>
   okp (redirs_loop n line c) (later line (spos s)) s"
proof (induction n arbitrary: c s)
  case 0
  then show ?case by simp
next
  case (Suc n)
  note again = okp_again [of line n "redirs_loop n line", OF Suc.IH Suc.prems(3)]
  show ?case
    unfolding redirs_loop.simps
  proof (rule okp_symbol, unfold case_prod_beta, goal_cases)
    case (3 r t)
    then show ?case using Suc.prems(1) by - (rule okp_token; auto simp: ok_rules cmd_defs intro: again)
  qed (use Suc.prems in \<open>auto simp: ok_rules intro: laterI\<close>)
qed

lemma okp_parseredirs:
  "wf_cmd line c \<Longrightarrow> spos s \<le> length line \<Longrightarrow> okp (parseredirs line c) (later line (spos s)) s"
  unfolding parseredirs_def by (rule okp_redirs_loop) auto

lemma okp_args_loop:
  "wf_cmd line c \<Longrightarrow> spos s \<le> length line \<Longrightarrow> length line - spos s < n \<Longrightarrow>
   okp (args_loop n line c) (later line (spos s)) s"
proof (induction n arbitrary: c s)
  case 0
  then show ?case by simp
next
  case (Suc n)
  note again = okp_again [of line n "args_loop n line", OF Suc.IH Suc.prems(3)]
  have redirs: "okp (parseredirs line c') (\<lambda>a. okp (args_loop n line a) (later line (spos s))) t"
    if "wf_cmd line c'" "spos s < spos t" "spos t \<le> length line" for c' t
    by (rule okp_mono [OF okp_parseredirs [OF that(1,3)]]) (use that(2) in \<open>auto simp: later_def intro: again\<close>)
  show ?case
    unfolding args_loop.simps okp_bind(1) [of "peek _ _"]
  proof (rule okp_peek [OF Suc.prems(2)])
    fix b p assume p: "spos s \<le> p" "p \<le> length line"
    show "okp (if b then ret c else
        obind (gettoken line) (\<lambda>(tok, t).
        if tok = 0 then ret c
        else if tok \<noteq> 97 then panic ''syntax''
        else if argc c + 1 \<ge> MAXARGS then panic ''too many args''
        else obind (parseredirs line (add_arg t c)) (args_loop n line))) (later line (spos s)) (s\<lparr>spos := p\<rparr>)"
    proof (cases b)
      case True
      then show ?thesis using p Suc.prems(1) by (simp add: ok_rules laterI)
    next
      case False
      then show ?thesis
        using p Suc.prems(1)
        by (simp only: if_False) (rule okp_token; auto simp: ok_rules not_le intro!: laterI redirs wf_add_arg)
    qed
  qed
qed

lemma okp_back_loop:
  "wf_cmd line c \<Longrightarrow> spos s \<le> length line \<Longrightarrow> length line - spos s < n \<Longrightarrow>
   okp (back_loop n line c) (later line (spos s)) s"
proof (induction n arbitrary: c s)
  case 0
  then show ?case by simp
next
  case (Suc n)
  note again = okp_again [of line n "back_loop n line", OF Suc.IH Suc.prems(3)]
  show ?case
    unfolding back_loop.simps oseq_def
    by (rule okp_symbol) (use Suc.prems in \<open>auto simp: ok_rules cmd_defs intro: laterI again\<close>)
qed

definition parses :: "nat \<Rightarrow> byte list \<Rightarrow> cmd sh \<Rightarrow> bool" where
  "parses n line m \<longleftrightarrow>
     (\<forall>s. spos s \<le> length line \<longrightarrow> length line - spos s < n \<longrightarrow> okp m (later line (spos s)) s)"

lemma parsesD:
  "parses n line m \<Longrightarrow> spos t \<le> length line \<Longrightarrow> length line - spos t < n \<Longrightarrow> p \<le> spos t \<Longrightarrow>
   (\<And>c u. wf_cmd line c \<Longrightarrow> p \<le> spos u \<Longrightarrow> spos t \<le> spos u \<Longrightarrow> spos u \<le> length line \<Longrightarrow> Q c u) \<Longrightarrow> okp m Q t"
  unfolding parses_def by (rule okp_mono [of _ "later line (spos t)"]) (auto simp: later_def)

lemma okp_inner:
  assumes "parses m line f" "length line - p < Suc m" "p < spos t" "spos t \<le> length line"
    and "\<And>c u. wf_cmd line c \<Longrightarrow> p < spos u \<Longrightarrow> spos u \<le> length line \<Longrightarrow> okp (g c) Q u"
  shows "okp (obind f g) Q t"
proof -
  have "length line - spos t < m" using assms(2-4) by linarith
  from parsesD [OF assms(1,4) this order_refl] assms(3,5) show ?thesis unfolding ok_rules by force
qed

lemma parses_all:
  "parses n line (parseline n line)" "parses n line (parsepipe n line)"
  "parses n line (parseexec n line)" "parses n line (parseblock n line)"
proof (induction n line and n line and n line and n line rule: parseline_parsepipe_parseexec_parseblock.induct)
  case (1 n line)
  show ?case
    unfolding parses_def
  proof (intro allI impI)
    fix s :: sh_state assume s: "spos s \<le> length line" "length line - spos s < n"
    then obtain m where n: "n = Suc m" by (cases n) auto
    have IH: "parses m line (parseline m line)" by (rule "1.IH"(2) [of True]) (simp_all add: n)
    show "okp (parseline n line) (later line (spos s)) s"
      unfolding parseline.simps [of n] okp_bind(1) [of "parsepipe n line"] okp_bind(1) [of "back_loop _ _ _"]
    proof (rule parsesD [OF "1.IH"(1) s order_refl], rule okp_mono [OF okp_back_loop], goal_cases)
      case (4 c u c' u')
      then show ?case
        using s(2) unfolding later_def [of _ _ c'] oseq_def n nat.case
        by - (rule okp_symbol; auto simp: ok_rules cmd_defs intro!: laterI okp_inner [OF IH, of "spos s", unfolded ok_rules])
    qed auto
  qed
next
  case (2 n line)
  show ?case
    unfolding parses_def
  proof (intro allI impI)
    fix s :: sh_state assume s: "spos s \<le> length line" "length line - spos s < n"
    then obtain m where n: "n = Suc m" by (cases n) auto
    have IH: "parses m line (parsepipe m line)" by (rule "2.IH"(2) [of True]) (simp_all add: n)
    show "okp (parsepipe n line) (later line (spos s)) s"
      unfolding parsepipe.simps [of n] okp_bind(1) [of "parseexec n line"]
    proof (rule parsesD [OF "2.IH"(1) s order_refl], goal_cases)
      case (1 c u)
      then show ?case
        using s(2) unfolding oseq_def n nat.case
        by - (rule okp_symbol; auto simp: ok_rules cmd_defs intro!: laterI okp_inner [OF IH, of "spos s", unfolded ok_rules])
    qed
  qed
next
  case (3 n line)
  show ?case
    unfolding parses_def
  proof (intro allI impI)
    fix s :: sh_state assume s: "spos s \<le> length line" "length line - spos s < n"
    have exec: "okp (obind execcmd (\<lambda>cmd. obind (parseredirs line cmd) (args_loop (Suc (length line)) line)))
        (later line (spos s)) t"
      if "spos s \<le> spos t" "spos t \<le> length line" for t
      unfolding ok_rules execcmd_def
    proof (rule disjI2, rule okp_mono [OF okp_parseredirs])
      fix c u assume "later line (spos (t\<lparr>room := room t - 1\<rparr>)) c u"
      then have u: "wf_cmd line c" "spos s \<le> spos u" "spos u \<le> length line" using that by (auto simp: later_def)
      show "okp (args_loop (Suc (length line)) line c) (later line (spos s)) u"
        by (rule okp_mono [OF okp_args_loop [OF u(1,3)]]) (use u(2) in \<open>auto simp: later_def\<close>)
    qed (use that in \<open>auto simp: MAXARGS_def\<close>)
    show "okp (parseexec n line) (later line (spos s)) s"
      unfolding parseexec.simps [of n] okp_bind(1) [of "peek _ _"]
    proof (rule okp_peek [OF s(1)])
      fix b p assume p: "spos s \<le> p" "p \<le> length line"
      have "length line - p < n" using p s(2) by linarith
      then have "b \<Longrightarrow> okp (parseblock n line) (later line (spos s)) (s\<lparr>spos := p\<rparr>)"
        using p by (intro parsesD [OF "3.IH"(1) [of True]]) (auto intro: laterI)
      then show "okp (if b then parseblock n line else
          obind execcmd (\<lambda>cmd. obind (parseredirs line cmd) (args_loop (Suc (length line)) line)))
          (later line (spos s)) (s\<lparr>spos := p\<rparr>)"
        using exec [of "s\<lparr>spos := p\<rparr>"] p by simp
    qed
  qed
next
  case (4 n line)
  show ?case
    unfolding parses_def
  proof (intro allI impI)
    fix s :: sh_state assume s: "spos s \<le> length line" "length line - spos s < n"
    then obtain m where n: "n = Suc m" by (cases n) auto
    have IH: "parses m line (parseline m line)" by (rule "4.IH" [of True]) (simp_all add: n)
    have rest: "okp (obind (peek line [41]) (\<lambda>close. if \<not> close then panic ''syntax - missing )''
        else obind (gettoken line) (\<lambda>_. parseredirs line c))) (later line (spos s)) u"
      if "wf_cmd line c" "spos s < spos u" "spos u \<le> length line" for c u
      by (rule okp_symbol) (use that in \<open>auto simp: ok_rules intro!: okp_later okp_parseredirs\<close>)
    show "okp (parseblock n line) (later line (spos s)) s"
      unfolding n parseblock.simps [of "Suc m"] oseq_def nat.case
      by (rule okp_symbol) (use s n in \<open>auto simp: okp_basic intro!: okp_inner [OF IH, of "spos s"] rest\<close>)
  qed
qed

subsection \<open>The words after \<open>nulterminate\<close>\<close>

fun tokens :: "cmd \<Rightarrow> token set" where
  "tokens (EXEC argv) = set argv"
| "tokens (REDIR c q m fd) = insert q (tokens c)"
| "tokens (PIPE l r) = tokens l \<union> tokens r"
| "tokens (LIST l r) = tokens l \<union> tokens r"
| "tokens (BACK c) = tokens c"

lemma wf_tokens: "wf_cmd line c \<Longrightarrow> t \<in> tokens c \<Longrightarrow> word_at line t"
  by (induction c) (auto simp: list_all_iff)

definition zeros_at :: "nat set \<Rightarrow> byte list \<Rightarrow> byte list \<Rightarrow> bool" where
  "zeros_at E m m' \<longleftrightarrow> length m' = length m \<and> (\<forall>i < length m. m' ! i = (if i \<in> E then 0 else m ! i))"

lemma zero_update: "i < length m \<Longrightarrow> (m :: byte list)[e := 0] ! i = (if i = e then 0 else m ! i)"
  by (simp add: nth_list_update_neq)

lemma zeros_at_simps:
  "zeros_at {} m m"
  "zeros_at E m m' \<Longrightarrow> zeros_at (insert e E) m (m'[e := 0])"
  "zeros_at E m m' \<Longrightarrow> zeros_at E' m' m'' \<Longrightarrow> zeros_at (E \<union> E') m m''"
  by (auto simp: zeros_at_def zero_update)

lemma nulterminate_zeros: "zeros_at (snd ` tokens c) m (nulterminate c m)"
proof (induction c arbitrary: m)
  case (EXEC argv)
  have "zeros_at (snd ` set argv) m (fold (\<lambda>(q, eq) m. m[eq := 0]) argv m)" for m :: "byte list"
  proof (induction argv arbitrary: m)
    case (Cons t argv)
    have "zeros_at {snd t} m (m[snd t := 0])" using zeros_at_simps(2) [OF zeros_at_simps(1)] .
    from zeros_at_simps(3) [OF this Cons.IH] show ?case by (simp add: case_prod_beta)
  qed (simp add: zeros_at_simps)
  then show ?case by simp
next
  case (REDIR c q mo fd)
  then show ?case by (cases q) (simp add: zeros_at_simps(2))
qed (auto simp: image_Un intro: zeros_at_simps(3))

text \<open>A C string in memory.\<close>

definition cstring_at :: "byte list \<Rightarrow> nat \<Rightarrow> byte list" where
  "cstring_at m q = takeWhile (\<lambda>c. c \<noteq> 0) (drop q m)"

definition word_text :: "byte list \<Rightarrow> token \<Rightarrow> byte list" where
  "word_text line = (\<lambda>(q, e). take (e - q) (drop q line))"

lemma nulterminate_word:
  assumes "wf_cmd line c" "(q, e) \<in> tokens c" "0 \<notin> set line"
  shows "cstring_at (nulterminate c (line @ [0])) q = word_text line (q, e)"
proof -
  let ?m = "nulterminate c (line @ [0])"
  have w: "q < e" "e \<le> length line" and word: "\<And>i. q \<le> i \<Longrightarrow> i < e \<Longrightarrow> is_word (line ! i)"
    using wf_tokens [OF assms(1,2)] by (auto simp: word_at_def)
  have z: "length ?m = Suc (length line)"
    "\<And>i. i \<le> length line \<Longrightarrow> ?m ! i = (if i \<in> snd ` tokens c then 0 else (line @ [0]) ! i)"
    using nulterminate_zeros [of c "line @ [0]"] by (auto simp: zeros_at_def)
  have keep: "?m ! i = line ! i" if "q \<le> i" "i < e" for i
  proof -
    have "i \<notin> snd ` tokens c"
      using wf_tokens [OF assms(1)] word [OF that] that w(2) by (force simp: word_at_def)
    then show ?thesis using z(2) [of i] that w(2) by (simp add: nth_append)
  qed
  have "?m ! e = 0" using z(2) [OF w(2)] assms(2) by (force simp: image_iff)
  then have "drop e ?m = 0 # drop (Suc e) ?m" using Cons_nth_drop_Suc [of e ?m] w(2) z(1) by simp
  moreover have "take (e - q) (drop q ?m) = take (e - q) (drop q line)"
    by (rule nth_equalityI) (use w z(1) keep in auto)
  ultimately have d: "drop q ?m = take (e - q) (drop q line) @ 0 # drop (Suc e) ?m"
    using append_take_drop_id [of "e - q" "drop q ?m"] w(1) by simp
  have "\<forall>x \<in> set (take (e - q) (drop q line)). x \<noteq> 0" using assms(3) by (auto dest: in_set_takeD in_set_dropD)
  then show ?thesis unfolding cstring_at_def d word_text_def by (simp add: takeWhile_append2)
qed

lemma parsecmd_okp:
  assumes "0 \<notin> set line"
  shows "okp (parsecmd line) (\<lambda>(c, m) t. wf_cmd line c \<and> (\<forall>(q, e) \<in> tokens c. cstring_at m q = word_text line (q, e)))
    \<lparr>spos = 0, room = n\<rparr>"
  unfolding parsecmd_def ok_rules
  by (rule parsesD [OF parses_all(1), where t = "\<lparr>spos = 0, room = n\<rparr>" and p = 0])
     (auto simp: ok_rules nulterminate_word assms intro!: okp_peek)

text \<open>C13: On any line and whatever \<open>malloc\<close> returns, \<open>parsecmd\<close> ends: it panics, or it returns a command
  with fewer than \<open>MAXARGS\<close> words in each \<open>EXEC\<close> node whose words, after \<open>nulterminate\<close>, are C strings
  with exactly the bytes that stand between their two positions.\<close>

theorem parsecmd_total:
  assumes "0 \<notin> set line"
  shows "case parsecmd line \<lparr>spos = 0, room = n\<rparr> of
      Ret (c, m) t \<Rightarrow> wf_cmd line c \<and> (\<forall>(q, e) \<in> tokens c. cstring_at m q = word_text line (q, e))
    | Panic e \<Rightarrow> True
    | _ \<Rightarrow> False"
  using parsecmd_okp [OF assms, of n] by (simp add: okp_def split: outcome.splits prod.splits)

text \<open>The line \<open>a>b\<close>.\<close>

theorem parsecmd_total_witness:
  "\<exists>m t. parsecmd [97, 62, 98] \<lparr>spos = 0, room = 2\<rparr> = Ret (REDIR (EXEC [(0, 1)]) (2, 3) 0x201 1, m) t \<and>
     cstring_at m 0 = [97] \<and> cstring_at m 2 = [98]"
proof -
  have run: "parsecmd [97, 62, 98] \<lparr>spos = 0, room = 2\<rparr> =
      Ret (REDIR (EXEC [(0, 1)]) (2, 3) 0x201 1, [97, 0, 98, 0]) \<lparr>spos = 3, room = 0\<rparr>"
    by code_simp
  then show ?thesis using parsecmd_total [of "[97, 62, 98]" 2] by (simp add: word_text_def)
qed

section \<open>Printing and parsing\<close>

text \<open>A state of the parser by what is left of the line.\<close>

definition st :: "byte list \<Rightarrow> byte list \<Rightarrow> nat \<Rightarrow> sh_state" where
  "st line xs r = \<lparr>spos = length line - length xs, room = r\<rparr>"

abbreviation no_space :: "byte list \<Rightarrow> byte list" where
  "no_space \<equiv> dropWhile is_space"

lemma skip_suffix:
  assumes "suffix xs line"
  shows "skip_while P line (length line - length xs) = length line - length (dropWhile P xs)"
    and "suffix (dropWhile P xs) line"
proof -
  obtain pre where l: "line = pre @ xs" using assms by (auto simp: suffix_def)
  have "length xs = length (takeWhile P xs) + length (dropWhile P xs)"
    by (metis length_append takeWhile_dropWhile_id)
  then show "skip_while P line (length line - length xs) = length line - length (dropWhile P xs)"
    unfolding l skip_while_def by simp
  show "suffix (dropWhile P xs) line"
    unfolding l by (metis suffix_appendI suffix_dropWhile)
qed

lemma ch_suffix: "suffix xs line \<Longrightarrow> ch line (length line - length xs) = (case xs of [] \<Rightarrow> 0 | c # _ \<Rightarrow> c)"
  by (cases xs) (auto simp: ch_def suffix_def)

lemma peek_st:
  "suffix xs line \<Longrightarrow>
   peek line toks (st line xs r) =
     Ret (case no_space xs of [] \<Rightarrow> False | c # _ \<Rightarrow> c \<noteq> 0 \<and> c \<in> set toks) (st line (no_space xs) r)"
  using ch_suffix [OF skip_suffix(2) [of xs line is_space]]
  by (cases "no_space xs") (simp_all add: peek_def kop_defs st_def Let_def skip_suffix(1) del: dropWhile_eq_Nil_conv)

lemma gettoken_st:
  assumes "suffix xs line" "no_space xs = ys" "scan_token line (length line - length ys) = (tok, length line - length zs)"
    "suffix zs line"
  shows "gettoken line (st line xs r) =
    Ret (tok, (length line - length ys, length line - length zs)) (st line (no_space zs) r)"
  using assms by (simp add: gettoken_def kop_defs st_def Let_def skip_suffix)

lemma suffix_ConsD': "suffix (c # xs) line \<Longrightarrow> suffix xs line \<and> length line - length xs = Suc (length line - length (c # xs))"
  by (auto simp: suffix_def)

lemma gettoken_symbol:
  assumes "suffix (c # xs) line" "c \<in> {124, 40, 41, 59, 38, 60} \<or> c = 62 \<and> (\<forall>d ys. xs = d # ys \<longrightarrow> d \<noteq> 62)"
  shows "\<exists>q. gettoken line (st line (c # xs) r) = Ret (c, q) (st line (no_space xs) r)"
proof -
  have sp: "\<not> is_space c" using assms(2) by (auto simp: is_space_def whitespace_def)
  note s = suffix_ConsD' [OF assms(1)]
  have "ch line (length line - length (c # xs)) = c" using ch_suffix [OF assms(1)] by simp
  moreover have "ch line (length line - length xs) = (case xs of [] \<Rightarrow> 0 | c # _ \<Rightarrow> c)" using s ch_suffix by blast
  ultimately have "scan_token line (length line - length (c # xs)) = (c, length line - length xs)"
    using assms(2) s by (auto simp: scan_token_def Let_def split: list.splits)
  from gettoken_st [OF assms(1) _ this] show ?thesis using sp s by simp
qed

definition is_text :: "byte list \<Rightarrow> bool" where
  "is_text w \<longleftrightarrow> w \<noteq> [] \<and> (\<forall>c \<in> set w. is_word c \<and> c \<noteq> 0)"

lemma gettoken_word:
  assumes "suffix (w @ xs) line" "is_text w" "\<forall>c ys. xs = c # ys \<longrightarrow> \<not> is_word c"
  shows "\<exists>q. gettoken line (st line (w @ xs) r) = Ret (97, q) (st line (no_space xs) r) \<and> word_text line q = w"
proof -
  let ?p = "length line - length (w @ xs)" and ?e = "length line - length xs"
  obtain pre where l: "line = pre @ w @ xs" using assms(1) by (auto simp: suffix_def)
  obtain c w' where w: "w = c # w'" "is_word c" "c \<noteq> 0" using assms(2) by (cases w) (auto simp: is_text_def)
  have "takeWhile is_word (w @ xs) = w" using assms(2,3) by (cases xs) (auto simp: is_text_def takeWhile_append)
  then have "skip_while is_word line ?p = ?e" unfolding l skip_while_def by simp
  moreover have "ch line ?p = c" using ch_suffix [OF assms(1)] w(1) by simp
  ultimately have "scan_token line ?p = (97, ?e)"
    using w(2,3) by (auto simp: scan_token_def Let_def is_word_def symbols_def)
  moreover have "no_space (w @ xs) = w @ xs" using w by (simp add: is_space_def is_word_def)
  ultimately have "gettoken line (st line (w @ xs) r) = Ret (97, (?p, ?e)) (st line (no_space xs) r)"
    using gettoken_st [OF assms(1), of "w @ xs" 97 xs] l by (simp add: suffix_def)
  moreover have "word_text line (?p, ?e) = w" unfolding l word_text_def by simp
  ultimately show ?thesis by blast
qed

lemma gettoken_end: "suffix [] line \<Longrightarrow> \<exists>q. gettoken line (st line [] r) = Ret (0, q) (st line [] r)"
  using gettoken_st [of "[]" line "[]" 0 "[]" r] ch_suffix [of "[]" line] by (simp add: scan_token_def)

text \<open>The printer puts parentheses around every part.\<close>

definition block :: "byte list \<Rightarrow> byte list" where
  "block xs = 40 # xs @ [41]"

fun show_cmd :: "byte list command \<Rightarrow> byte list" where
  "show_cmd (EXEC ws) = concat (map (\<lambda>w. w @ [32]) ws)"
| "show_cmd (REDIR c w m fd) = block (show_cmd c) @ (if fd = 0 then 60 else 62) # w"
| "show_cmd (PIPE l r) = block (show_cmd l) @ 124 # block (show_cmd r)"
| "show_cmd (LIST l r) = block (show_cmd l) @ 59 # block (show_cmd r)"
| "show_cmd (BACK c) = block (show_cmd c) @ [38]"

fun is_cmd :: "byte list command \<Rightarrow> bool" where
  "is_cmd (EXEC ws) \<longleftrightarrow> length ws < MAXARGS \<and> list_all is_text ws"
| "is_cmd (REDIR c w m fd) \<longleftrightarrow> is_cmd c \<and> is_text w \<and> (m, fd) \<in> {(O_RDONLY, 0), (O_WRONLY OR O_CREATE, 1)}"
| "is_cmd (PIPE l r) \<longleftrightarrow> is_cmd l \<and> is_cmd r"
| "is_cmd (LIST l r) \<longleftrightarrow> is_cmd l \<and> is_cmd r"
| "is_cmd (BACK c) \<longleftrightarrow> is_cmd c"

fun nodes :: "'w command \<Rightarrow> nat" where
  "nodes (EXEC ws) = 1"
| "nodes (REDIR c w m fd) = Suc (nodes c)"
| "nodes (PIPE l r) = Suc (nodes l + nodes r)"
| "nodes (LIST l r) = Suc (nodes l + nodes r)"
| "nodes (BACK c) = Suc (nodes c)"

text \<open>What may follow a command: the end of the line or a closing parenthesis; what may follow a block
  without changing it.\<close>

definition at_end :: "byte list \<Rightarrow> bool" where
  "at_end xs \<longleftrightarrow> xs = [] \<or> (\<exists>ys. xs = 41 # ys)"

definition after_block :: "byte list \<Rightarrow> bool" where
  "after_block xs \<longleftrightarrow> xs = [] \<or> (\<exists>c ys. xs = c # ys \<and> c \<in> {41, 124, 59, 38})"

lemma spaces:
  "\<not> is_space 40" "\<not> is_space 41" "\<not> is_space 124" "\<not> is_space 59" "\<not> is_space 38" "\<not> is_space 60" "\<not> is_space 62"
  "is_space 32" "is_word c \<Longrightarrow> \<not> is_space c"
  by (auto simp: is_space_def whitespace_def is_word_def)

lemma no_space_after [simp]: "at_end xs \<Longrightarrow> no_space xs = xs" "after_block xs \<Longrightarrow> no_space xs = xs"
  by (auto simp: at_end_def after_block_def spaces)

lemma no_space_text [simp]: "is_text w \<Longrightarrow> no_space (w @ xs) = w @ xs"
  by (cases w) (auto simp: is_text_def spaces)

lemma no_space_show [simp]: "is_cmd c \<Longrightarrow> at_end xs \<Longrightarrow> no_space (show_cmd c @ xs) = show_cmd c @ xs"
proof (cases c)
  case (EXEC ws)
  then show "is_cmd c \<Longrightarrow> at_end xs \<Longrightarrow> no_space (show_cmd c @ xs) = show_cmd c @ xs"
    by (cases ws) auto
qed (auto simp: block_def spaces)

subsection \<open>Words and redirections\<close>

lemma redirs_none:
  assumes "suffix xs line" "\<forall>c ys. no_space xs = c # ys \<longrightarrow> c \<noteq> 60 \<and> c \<noteq> 62"
  shows "parseredirs line c (st line xs r) = Ret c (st line (no_space xs) r)"
  using assms by (simp add: parseredirs_def peek_st obind_def ret_def split: list.splits)

lemma word_not_redir: "is_word c \<Longrightarrow> c \<noteq> 60 \<and> c \<noteq> 62 \<and> c \<notin> {124, 41, 38, 59, 40}"
  by (auto simp: is_word_def symbols_def)

lemma words_start:
  assumes "list_all is_text ws" "at_end rest"
  shows "\<forall>c ys. concat (map (\<lambda>w. w @ [32]) ws) @ rest = c # ys \<longrightarrow> c \<noteq> 60 \<and> c \<noteq> 62 \<and> c \<noteq> 40"
proof (cases ws)
  case Nil
  then show ?thesis using assms(2) by (auto simp: at_end_def)
next
  case (Cons w ws')
  moreover obtain c w' where "w = c # w'" "is_word c" using assms(1) Cons by (cases w) (auto simp: is_text_def)
  ultimately show ?thesis using word_not_redir [of c] by auto
qed

lemma args_loop_words:
  "list_all is_text ws \<Longrightarrow> suffix (concat (map (\<lambda>w. w @ [32]) ws) @ rest) line \<Longrightarrow> at_end rest \<Longrightarrow>
   length argv + length ws < MAXARGS \<Longrightarrow> length ws < n \<Longrightarrow>
   \<exists>toks. args_loop n line (EXEC argv) (st line (concat (map (\<lambda>w. w @ [32]) ws) @ rest) r) =
     Ret (EXEC (argv @ toks)) (st line rest r) \<and> map (word_text line) toks = ws"
proof (induction ws arbitrary: argv n)
  case Nil
  then obtain m where "n = Suc m" by (cases n) auto
  with Nil gettoken_end [of line r] show ?case
    by (auto simp: peek_st obind_def ret_def at_end_def spaces)
next
  case (Cons w ws)
  let ?tl = "concat (map (\<lambda>w. w @ [32]) ws) @ rest"
  obtain m where n: "n = Suc m" using Cons.prems(5) by (cases n) auto
  have w: "is_text w" and ws: "list_all is_text ws" using Cons.prems(1) by auto
  obtain c w' where c: "w = c # w'" "is_word c" "c \<noteq> 0" using w by (cases w) (auto simp: is_text_def)
  have suf: "suffix (w @ 32 # ?tl) line" using Cons.prems(2) by simp
  then have suf': "suffix ?tl line" by (metis append_Cons append_Nil append_assoc suffix_appendD)
  obtain q where q: "gettoken line (st line (w @ 32 # ?tl) r) = Ret (97, q) (st line (no_space (32 # ?tl)) r)"
    "word_text line q = w"
    using gettoken_word [OF suf w, of r] by (auto simp: is_word_def whitespace_def)
  have tl: "no_space ?tl = ?tl" using no_space_show [of "EXEC ws" rest] ws Cons.prems(3,4) by simp
  have "parseredirs line (EXEC (argv @ [q])) (st line ?tl r) = Ret (EXEC (argv @ [q])) (st line ?tl r)"
    using redirs_none [OF suf'] words_start [OF ws Cons.prems(3)] unfolding tl by blast
  moreover obtain toks where "args_loop m line (EXEC (argv @ [q])) (st line ?tl r) =
      Ret (EXEC ((argv @ [q]) @ toks)) (st line rest r)" "map (word_text line) toks = ws"
    using Cons.IH [OF ws suf' Cons.prems(3), of "argv @ [q]" m] Cons.prems(4,5) n by auto
  moreover have "peek line [124, 41, 38, 59] (st line (w @ 32 # ?tl) r) = Ret False (st line (w @ 32 # ?tl) r)"
    using peek_st [OF suf] w c word_not_redir [OF c(2)] by (simp add: spaces)
  ultimately show ?case
    using q tl Cons.prems(4) unfolding n
    by (intro exI [of _ "q # toks"]) (simp add: obind_def spaces)
qed

subsection \<open>Blocks\<close>

definition reads :: "byte list \<Rightarrow> byte list command \<Rightarrow> bool" where
  "reads line c \<longleftrightarrow> (\<forall>n rest r. suffix (show_cmd c @ rest) line \<longrightarrow> at_end rest \<longrightarrow> length (show_cmd c) \<le> n \<longrightarrow>
     nodes c \<le> r \<longrightarrow> (\<exists>c'. parseline n line (st line (show_cmd c @ rest) r) = Ret c' (st line rest (r - nodes c)) \<and>
       map_command (word_text line) c' = c))"

lemma parseblock_reads:
  assumes "reads line c" "is_cmd c" "suffix (block (show_cmd c) @ rest) line" "length (show_cmd c) \<le> n" "nodes c \<le> r"
  shows "\<exists>c'. map_command (word_text line) c' = c \<and>
    parseblock (Suc n) line (st line (block (show_cmd c) @ rest) r) =
    parseredirs line c' (st line (no_space rest) (r - nodes c))"
proof -
  let ?in = "show_cmd c @ 41 # rest"
  have s: "suffix (40 # ?in) line" using assms(3) by (simp add: block_def)
  note s1 = suffix_ConsD' [OF s, THEN conjunct1]
  have s2: "suffix (41 # rest) line" using s1 suffix_appendD by blast
  obtain q where q: "gettoken line (st line (40 # ?in) r) = Ret (40, q) (st line (no_space ?in) r)"
    using gettoken_symbol [OF s, of r] by auto
  have in_eq: "no_space ?in = ?in" using assms(2) by (intro no_space_show) (auto simp: at_end_def)
  obtain c' where c': "parseline n line (st line ?in r) = Ret c' (st line (41 # rest) (r - nodes c))"
    "map_command (word_text line) c' = c"
    using assms(1,4,5) s1 unfolding reads_def at_end_def by blast
  obtain q' where q': "gettoken line (st line (41 # rest) (r - nodes c)) = Ret (41, q') (st line (no_space rest) (r - nodes c))"
    using gettoken_symbol [OF s2, of "r - nodes c"] by auto
  have "parseblock (Suc n) line (st line (40 # ?in) r) = parseredirs line c' (st line (no_space rest) (r - nodes c))"
    using c'(1) q q' in_eq peek_st [OF s] peek_st [OF s2]
    by (simp add: parseblock.simps obind_def oseq_def spaces)
  with c'(2) show ?thesis by (auto simp: block_def)
qed

lemma parseexec_block:
  assumes "suffix (block xs @ rest) line"
  shows "parseexec n line (st line (block xs @ rest) r) = parseblock n line (st line (block xs @ rest) r)"
  using peek_st [OF assms] by (simp add: parseexec.simps obind_def block_def spaces)

text \<open>A block that is followed by something other than a redirection.\<close>

lemma parseexec_reads:
  assumes "reads line c" "is_cmd c" "suffix (block (show_cmd c) @ rest) line" "after_block rest"
    "length (show_cmd c) \<le> n" "nodes c \<le> r"
  shows "\<exists>c'. map_command (word_text line) c' = c \<and>
    parseexec (Suc n) line (st line (block (show_cmd c) @ rest) r) = Ret c' (st line rest (r - nodes c))"
proof -
  have "suffix rest line" using assms(3) suffix_appendD by blast
  with assms(4) redirs_none [of rest line] parseblock_reads [OF assms(1-3,5,6)] parseexec_block [OF assms(3)]
  show ?thesis by (fastforce simp: after_block_def)
qed

lemma parsepipe_done:
  assumes "parseexec n line s = Ret c (st line rest r)" "suffix rest line" "after_block rest" "\<forall>ys. rest \<noteq> 124 # ys"
  shows "parsepipe n line s = Ret c (st line rest r)"
  using assms peek_st [OF assms(2)]
  by (auto simp: parsepipe.simps obind_def ret_def after_block_def)

lemma parseline_done:
  assumes "parsepipe n line s = Ret c (st line rest r)" "suffix rest line" "at_end rest"
  shows "parseline n line s = Ret c (st line rest r)"
  using assms peek_st [OF assms(2)]
  by (auto simp: parseline.simps obind_def ret_def at_end_def)

lemma at_end_after: "at_end xs \<Longrightarrow> after_block xs \<and> (\<forall>ys. xs \<noteq> 124 # ys)"
  by (auto simp: at_end_def after_block_def)

subsection \<open>Every command\<close>

lemma readsI:
  assumes "\<And>n rest r. suffix (show_cmd c @ rest) line \<Longrightarrow> at_end rest \<Longrightarrow> length (show_cmd c) \<le> n \<Longrightarrow> nodes c \<le> r \<Longrightarrow>
    \<exists>c'. parseline n line (st line (show_cmd c @ rest) r) = Ret c' (st line rest (r - nodes c)) \<and>
      map_command (word_text line) c' = c"
  shows "reads line c"
  using assms unfolding reads_def by blast

lemma alloc_Ret: "0 < r \<Longrightarrow> oseq alloc_cmd (ret c) (st line xs r) = Ret c (st line xs (r - 1))"
  by (simp add: alloc_cmd_def kop_defs st_def)

lemma reads_EXEC:
  assumes "is_cmd (EXEC ws)"
  shows "reads line (EXEC ws)"
proof (rule readsI)
  fix n rest r
  assume s: "suffix (show_cmd (EXEC ws) @ rest) line" and e: "at_end rest" and r: "nodes (EXEC ws) \<le> r"
  let ?xs = "concat (map (\<lambda>w. w @ [32]) ws) @ rest"
  have ws: "list_all is_text ws" "length ws < MAXARGS" and s: "suffix ?xs line" using assms s by auto
  have xs: "no_space ?xs = ?xs" using no_space_show [OF assms e] by simp
  note start = words_start [OF ws(1) e]
  have rest: "suffix rest line" using s suffix_appendD by blast
  have "length ws \<le> length (concat (map (\<lambda>w. w @ [32]) ws))" by (induction ws) auto
  also have "\<dots> \<le> length line" using suffix_length_le [OF s] by simp
  finally have "length ws < Suc (length line)" by simp
  then obtain toks where t: "args_loop (Suc (length line)) line (EXEC []) (st line ?xs (r - 1)) =
      Ret (EXEC toks) (st line rest (r - 1))" "map (word_text line) toks = ws"
    using args_loop_words [OF ws(1) s e, of "[]" "Suc (length line)" "r - 1"] ws(2) by (auto simp del: args_loop.simps)
  have "parseredirs line (EXEC []) (st line ?xs (r - 1)) = Ret (EXEC []) (st line ?xs (r - 1))"
    using redirs_none [OF s] start xs by metis
  moreover have "peek line [40] (st line ?xs r) = Ret False (st line ?xs r)"
    using peek_st [OF s] xs start by (auto split: list.splits)
  ultimately have "parseexec n line (st line ?xs r) = Ret (EXEC toks) (st line rest (r - 1))"
    using t(1) r by (simp add: parseexec.simps obind_def execcmd_def alloc_Ret del: args_loop.simps)
  then have "parseline n line (st line ?xs r) = Ret (EXEC toks) (st line rest (r - 1))"
    using parseline_done [OF parsepipe_done] rest e at_end_after by blast
  with t(2) show "\<exists>c'. parseline n line (st line (show_cmd (EXEC ws) @ rest) r) = Ret c' (st line rest (r - nodes (EXEC ws))) \<and>
      map_command (word_text line) c' = EXEC ws" by auto
qed

lemma reads_REDIR:
  assumes "reads line c" "is_cmd (REDIR c w m fd)"
  shows "reads line (REDIR c w m fd)"
proof (rule readsI)
  let ?c = "REDIR c w m fd"
  fix n rest r
  assume s: "suffix (show_cmd ?c @ rest) line" and e: "at_end rest" and n: "length (show_cmd ?c) \<le> n" and r: "nodes ?c \<le> r"
  define d :: byte where "d = (if fd = 0 then 60 else 62)"
  have w: "is_text w" "is_cmd c" using assms(2) by auto
  obtain k where k: "n = Suc k" "length (show_cmd c) \<le> k" using n by (cases n) (auto simp: block_def)
  have s: "suffix (block (show_cmd c) @ d # w @ rest) line" using s by (simp add: d_def)
  have s1: "suffix (d # w @ rest) line" using s suffix_appendD by blast
  have s2: "suffix (w @ rest) line" using suffix_ConsD' [OF s1] by blast
  have s3: "suffix rest line" using s2 suffix_appendD by blast
  let ?r = "r - nodes c"
  obtain c' where c': "map_command (word_text line) c' = c"
    "parseexec n line (st line (block (show_cmd c) @ d # w @ rest) r) = parseredirs line c' (st line (d # w @ rest) ?r)"
    using parseblock_reads [OF assms(1) w(2) s k(2), of r] parseexec_block [OF s] r k(1)
    by (auto simp: d_def spaces)
  have "w \<noteq> [] \<and> hd w \<noteq> 62" using w(1) word_not_redir [of "hd w"] by (auto simp: is_text_def)
  then have "d \<in> {124, 40, 41, 59, 38, 60} \<or> d = 62 \<and> (\<forall>x ys. w @ rest = x # ys \<longrightarrow> x \<noteq> 62)"
    by (cases w) (auto simp: d_def)
  then obtain q where q: "gettoken line (st line (d # w @ rest) ?r) = Ret (d, q) (st line (w @ rest) ?r)"
    using gettoken_symbol [OF s1, of ?r] w(1) by auto
  obtain q' where q': "gettoken line (st line (w @ rest) ?r) = Ret (97, q') (st line rest ?r)" "word_text line q' = w"
    using gettoken_word [OF s2 w(1), of ?r] e by (auto simp: at_end_def is_word_def symbols_def)
  have m: "m = (if fd = 0 then O_RDONLY else O_WRONLY OR O_CREATE)" "fd = 0 \<or> fd = 1" using assms(2) by auto
  obtain l where l: "length line = Suc l" using suffix_length_le [OF s1] by (cases "length line") auto
  have more: "peek line [60, 62] (st line (d # w @ rest) ?r) = Ret True (st line (d # w @ rest) ?r)"
    using peek_st [OF s1] by (auto simp: d_def spaces)
  have none: "peek line [60, 62] (st line rest (?r - 1)) = Ret False (st line rest (?r - 1))"
    using peek_st [OF s3] e by (auto simp: at_end_def spaces)
  have "parseredirs line c' (st line (d # w @ rest) ?r) = Ret (REDIR c' q' m fd) (st line rest (?r - 1))"
    using q q'(1) more none m(2) r
    by (auto simp: parseredirs_def l obind_def redircmd_def alloc_Ret m(1) d_def) (simp_all add: ret_def)
  then have "parseline n line (st line (block (show_cmd c) @ d # w @ rest) r) = Ret (REDIR c' q' m fd) (st line rest (?r - 1))"
    using parseline_done [OF parsepipe_done] c'(2) s3 e at_end_after by metis
  with c'(1) q'(2) show "\<exists>c'. parseline n line (st line (show_cmd ?c @ rest) r) = Ret c' (st line rest (r - nodes ?c)) \<and>
      map_command (word_text line) c' = ?c" by (auto simp: d_def)
qed

lemma reads_BACK:
  assumes "reads line c" "is_cmd c"
  shows "reads line (BACK c)"
proof (rule readsI)
  fix n rest r
  assume s: "suffix (show_cmd (BACK c) @ rest) line" and e: "at_end rest" and n: "length (show_cmd (BACK c)) \<le> n"
    and r: "nodes (BACK c) \<le> r"
  obtain k where k: "n = Suc k" "length (show_cmd c) \<le> k" using n by (cases n) (auto simp: block_def)
  have s: "suffix (block (show_cmd c) @ 38 # rest) line" using s by simp
  have s1: "suffix (38 # rest) line" using s suffix_appendD by blast
  have s2: "suffix rest line" using suffix_ConsD' [OF s1] by blast
  let ?r = "r - nodes c"
  obtain c' where c': "map_command (word_text line) c' = c"
    "parseexec n line (st line (block (show_cmd c) @ 38 # rest) r) = Ret c' (st line (38 # rest) ?r)"
    using parseexec_reads [OF assms s _ k(2), of r] r k(1) by (auto simp: after_block_def)
  have p: "parsepipe n line (st line (block (show_cmd c) @ 38 # rest) r) = Ret c' (st line (38 # rest) ?r)"
    by (rule parsepipe_done [OF c'(2) s1]) (auto simp: after_block_def)
  obtain q where q: "gettoken line (st line (38 # rest) ?r) = Ret (38, q) (st line rest ?r)"
    using gettoken_symbol [OF s1, of ?r] e by auto
  obtain l where l: "length line = Suc l" using suffix_length_le [OF s1] by (cases "length line") auto
  have "back_loop (Suc (length line)) line c' (st line (38 # rest) ?r) = Ret (BACK c') (st line rest (?r - 1))"
    using q peek_st [OF s1] peek_st [OF s2] e r
    by (auto simp: l obind_def oseq_def [of "gettoken _"] backcmd_def alloc_Ret spaces at_end_def) (simp_all add: ret_def)
  then have "parseline n line (st line (block (show_cmd c) @ 38 # rest) r) = Ret (BACK c') (st line rest (?r - 1))"
    using p peek_st [OF s2] e by (auto simp: parseline.simps obind_def ret_def at_end_def simp del: back_loop.simps)
  with c'(1) show "\<exists>c'. parseline n line (st line (show_cmd (BACK c) @ rest) r) = Ret c' (st line rest (r - nodes (BACK c))) \<and>
      map_command (word_text line) c' = BACK c" by auto
qed

lemma reads_PIPE:
  assumes "reads line a" "is_cmd a" "reads line b" "is_cmd b"
  shows "reads line (PIPE a b)"
proof (rule readsI)
  fix n rest r
  assume s: "suffix (show_cmd (PIPE a b) @ rest) line" and e: "at_end rest" and n: "length (show_cmd (PIPE a b)) \<le> n"
    and r: "nodes (PIPE a b) \<le> r"
  obtain k where k: "n = Suc (Suc k)" "length (show_cmd a) \<le> Suc k" "length (show_cmd b) \<le> k"
    using n by (cases n; cases "n - 1") (auto simp: block_def)
  have s: "suffix (block (show_cmd a) @ 124 # block (show_cmd b) @ rest) line" using s by simp
  have s1: "suffix (124 # block (show_cmd b) @ rest) line" using s suffix_appendD by blast
  have s2: "suffix (block (show_cmd b) @ rest) line" using suffix_ConsD' [OF s1] by blast
  have s3: "suffix rest line" using s2 suffix_appendD by blast
  let ?r = "r - nodes a"
  have rb: "nodes b \<le> ?r" using r by simp
  obtain a' where a': "map_command (word_text line) a' = a"
    "parseexec n line (st line (block (show_cmd a) @ 124 # block (show_cmd b) @ rest) r) =
      Ret a' (st line (124 # block (show_cmd b) @ rest) ?r)"
    using parseexec_reads [OF assms(1,2) s _ k(2), of r] r k(1) by (auto simp: after_block_def)
  obtain q where q: "gettoken line (st line (124 # block (show_cmd b) @ rest) ?r) =
      Ret (124, q) (st line (block (show_cmd b) @ rest) ?r)"
    using gettoken_symbol [OF s1, of ?r] by (auto simp: block_def spaces)
  obtain b' where b': "map_command (word_text line) b' = b"
    "parseexec (Suc k) line (st line (block (show_cmd b) @ rest) ?r) = Ret b' (st line rest (?r - nodes b))"
    using parseexec_reads [OF assms(3,4) s2 conjunct1 [OF at_end_after [OF e]] k(3) rb] by auto
  have "parsepipe (Suc k) line (st line (block (show_cmd b) @ rest) ?r) = Ret b' (st line rest (?r - nodes b))"
    using parsepipe_done [OF b'(2) s3] e at_end_after by blast
  then have "parsepipe n line (st line (block (show_cmd a) @ 124 # block (show_cmd b) @ rest) r) =
      Ret (PIPE a' b') (st line rest (?r - nodes b - 1))"
    using a'(2) q peek_st [OF s1] r
    by (simp add: alloc_Ret parsepipe.simps [of "Suc (Suc k)"] k(1) obind_def oseq_def [of "gettoken _"] pipecmd_def spaces)
  with parseline_done [OF _ s3 e] a'(1) b'(1)
  show "\<exists>c'. parseline n line (st line (show_cmd (PIPE a b) @ rest) r) = Ret c' (st line rest (r - nodes (PIPE a b))) \<and>
      map_command (word_text line) c' = PIPE a b" by fastforce
qed

lemma reads_LIST:
  assumes "reads line a" "is_cmd a" "reads line b" "is_cmd b"
  shows "reads line (LIST a b)"
proof (rule readsI)
  fix n rest r
  assume s: "suffix (show_cmd (LIST a b) @ rest) line" and e: "at_end rest" and n: "length (show_cmd (LIST a b)) \<le> n"
    and r: "nodes (LIST a b) \<le> r"
  obtain k where k: "n = Suc (Suc k)" "length (show_cmd a) \<le> Suc k" "length (show_cmd b) \<le> k"
    using n by (cases n; cases "n - 1") (auto simp: block_def)
  have s: "suffix (block (show_cmd a) @ 59 # block (show_cmd b) @ rest) line" using s by simp
  have s1: "suffix (59 # block (show_cmd b) @ rest) line" using s suffix_appendD by blast
  have s2: "suffix (block (show_cmd b) @ rest) line" using suffix_ConsD' [OF s1] by blast
  have s3: "suffix rest line" using s2 suffix_appendD by blast
  let ?r = "r - nodes a"
  have rb: "nodes b \<le> ?r" using r by simp
  obtain a' where a': "map_command (word_text line) a' = a"
    "parseexec n line (st line (block (show_cmd a) @ 59 # block (show_cmd b) @ rest) r) =
      Ret a' (st line (59 # block (show_cmd b) @ rest) ?r)"
    using parseexec_reads [OF assms(1,2) s _ k(2), of r] r k(1) by (auto simp: after_block_def)
  have p: "parsepipe n line (st line (block (show_cmd a) @ 59 # block (show_cmd b) @ rest) r) =
      Ret a' (st line (59 # block (show_cmd b) @ rest) ?r)"
    by (rule parsepipe_done [OF a'(2) s1]) (auto simp: after_block_def)
  obtain q where q: "gettoken line (st line (59 # block (show_cmd b) @ rest) ?r) =
      Ret (59, q) (st line (block (show_cmd b) @ rest) ?r)"
    using gettoken_symbol [OF s1, of ?r] by (auto simp: block_def spaces)
  obtain b' where b': "map_command (word_text line) b' = b"
    "parseexec (Suc k) line (st line (block (show_cmd b) @ rest) ?r) = Ret b' (st line rest (?r - nodes b))"
    using parseexec_reads [OF assms(3,4) s2 conjunct1 [OF at_end_after [OF e]] k(3) rb] by auto
  have "parseline (Suc k) line (st line (block (show_cmd b) @ rest) ?r) = Ret b' (st line rest (?r - nodes b))"
    using parseline_done [OF parsepipe_done [OF b'(2) s3]] s3 e at_end_after by blast
  then have "parseline n line (st line (block (show_cmd a) @ 59 # block (show_cmd b) @ rest) r) =
      Ret (LIST a' b') (st line rest (?r - nodes b - 1))"
    using p q peek_st [OF s1] r
    by (simp add: alloc_Ret parseline.simps [of "Suc (Suc k)"] k(1) obind_def oseq_def [of "gettoken _"] listcmd_def spaces ret_def [of a'])
  with a'(1) b'(1)
  show "\<exists>c'. parseline n line (st line (show_cmd (LIST a b) @ rest) r) = Ret c' (st line rest (r - nodes (LIST a b))) \<and>
      map_command (word_text line) c' = LIST a b" by fastforce
qed

lemma reads_all: "is_cmd c \<Longrightarrow> reads line c"
  by (induction c) (simp_all add: reads_EXEC reads_REDIR reads_BACK reads_PIPE reads_LIST)

lemma show_no_zero: "is_cmd c \<Longrightarrow> 0 \<notin> set (show_cmd c)"
  by (induction c) (auto simp: block_def is_text_def list_all_iff)

lemma tokens_set: "tokens c = set_command c"
  by (induction c) auto

lemma parsecmd_reads:
  assumes "is_cmd c" "nodes c \<le> n"
  shows "\<exists>c' m t. parsecmd (show_cmd c) \<lparr>spos = 0, room = n\<rparr> = Ret (c', m) t \<and> map_command (word_text (show_cmd c)) c' = c"
proof -
  let ?l = "show_cmd c"
  have s0: "\<lparr>spos = 0, room = n\<rparr> = st ?l (?l @ []) n" by (simp add: st_def)
  obtain c' where "parseline (Suc (length ?l)) ?l (st ?l (?l @ []) n) = Ret c' (st ?l [] (n - nodes c))"
    "map_command (word_text ?l) c' = c"
    using reads_all [OF assms(1), of ?l] assms(2) unfolding reads_def at_end_def by (metis append_Nil2 le_SucI order_refl suffix_order.refl)
  then show ?thesis
    unfolding s0 parsecmd_def using peek_st [of "[]" ?l]
    by (simp add: obind_def oseq_def gets_def ret_def st_def)
qed

lemma parsecmd_strings:
  assumes "is_cmd c" "nodes c \<le> n"
  shows "\<exists>c' m t. parsecmd (show_cmd c) \<lparr>spos = 0, room = n\<rparr> = Ret (c', m) t \<and>
    map_command (\<lambda>(q, e). cstring_at m q) c' = c"
proof -
  obtain c' m t where c': "parsecmd (show_cmd c) \<lparr>spos = 0, room = n\<rparr> = Ret (c', m) t"
    "map_command (word_text (show_cmd c)) c' = c"
    using parsecmd_reads [OF assms] by blast
  have "\<forall>(q, e) \<in> set_command c'. cstring_at m q = word_text (show_cmd c) (q, e)"
    using parsecmd_okp [OF show_no_zero [OF assms(1)], of n] c'(1) by (simp add: okp_def tokens_set)
  then have "map_command (\<lambda>(q, e). cstring_at m q) c' = map_command (word_text (show_cmd c)) c'"
    by (intro command.map_cong0) auto
  with c' show ?thesis by auto
qed

text \<open>C6: Printing a command tree with parentheses and parsing the line gives the tree back: the parser returns,
  and the C strings its words are after \<open>nulterminate\<close> are the words of the tree.\<close>

theorem parsecmd_show_cmd:
  assumes "is_cmd c" "nodes c \<le> n"
  shows "\<exists>c' m t. parsecmd (show_cmd c) \<lparr>spos = 0, room = n\<rparr> = Ret (c', m) t \<and>
    map_command (\<lambda>(q, e). cstring_at m q) c' = c"
  using parsecmd_strings [OF assms] .

text \<open>The command \<open>(a )|(b c )\<close>.\<close>

theorem parsecmd_show_cmd_witness:
  "\<exists>c' m t. parsecmd [40, 97, 32, 41, 124, 40, 98, 32, 99, 32, 41] \<lparr>spos = 0, room = 3\<rparr> = Ret (c', m) t \<and>
    map_command (\<lambda>(q, e). cstring_at m q) c' = PIPE (EXEC [[97]]) (EXEC [[98], [99]])"
  using parsecmd_show_cmd [of "PIPE (EXEC [[97]]) (EXEC [[98], [99]])" 3]
  by (simp add: block_def MAXARGS_def is_text_def is_word_def whitespace_def symbols_def)

end
