(* ===== verification/ShRun.thy ===== *)
theory ShRun
  imports Sh
begin

text \<open>
  How the shell runs a command (\<open>runcmd\<close>, \<open>fork1\<close> and \<open>main\<close> of \<open>user/sh.c\<close>).

  A user process is a tree of system calls: each node is a call with what the process does for each
  value the call returns.  \<open>Exit\<close> is the call of \<open>exit\<close>, and \<open>Spin\<close> the endless loop into which the
  macros \<open>assert\<close> and \<open>error\<close> of \<open>inc/test.h\<close> go.

  \<open>run\<close> executes such a tree on a table of descriptors.  It keeps of the kernel what the shell relies
  on: descriptors are the smallest unused ones, \<open>fork\<close> copies the table, \<open>wait\<close> returns one of the
  children that are left.  What \<open>dup\<close> returns is an argument, because the kernel does not return for a
  pipe what \<open>sys_dup\<close> documents (\<open>File.file_dup_result\<close>).  The processes have separate tables, so
  the order in which \<open>run\<close> goes through them does not matter; the counter only names pipes and children.
\<close>

section \<open>Processes\<close>

datatype user_prog =
    Exit
  | Spin
  | Exec "byte list list" "int \<Rightarrow> user_prog"
  | Close nat "int \<Rightarrow> user_prog"
  | Open "byte list" u32 "int \<Rightarrow> user_prog"
  | Dup nat "int \<Rightarrow> user_prog"
  | Pipe "int \<Rightarrow> nat \<Rightarrow> nat \<Rightarrow> user_prog"
  | Fork "int \<Rightarrow> user_prog"
  | Wait "int \<Rightarrow> user_prog"
  | Print nat string user_prog

definition u_assert :: "bool \<Rightarrow> user_prog \<Rightarrow> user_prog" where
  "u_assert b p = (if b then p else Print 1 ''Assertion failed'' Spin)"

definition u_panic :: "string \<Rightarrow> user_prog" where
  "u_panic s = Print 2 s Exit"

definition fork1 :: "(int \<Rightarrow> user_prog) \<Rightarrow> user_prog" where
  "fork1 k = Fork (\<lambda>pid. if pid < 0 then u_panic ''fork'' else k pid)"

text \<open>\<open>assert(close(fd) == 0)\<close> and \<open>assert(dup(fd) == to)\<close>.\<close>

definition close_ok :: "nat \<Rightarrow> user_prog \<Rightarrow> user_prog" where
  "close_ok fd p = Close fd (\<lambda>r. u_assert (r = 0) p)"

definition dup_to :: "nat \<Rightarrow> nat \<Rightarrow> user_prog \<Rightarrow> user_prog" where
  "dup_to fd to p = Dup fd (\<lambda>r. u_assert (r = int to) p)"

fun runcmd :: "byte list command \<Rightarrow> user_prog" where
  "runcmd (EXEC argv) =
     (if argv = [] then Exit else
      Exec argv (\<lambda>r. if r < 0 then Print 2 ''failed to execute'' Exit
                     else Print 1 ''ERROR: runcmd: a successful exec should not return'' Spin))"
| "runcmd (REDIR c name mode fd) =
     close_ok fd (Open name mode (\<lambda>r. if r < 0 then Print 2 ''open failed'' Exit else runcmd c))"
| "runcmd (LIST l r) =
     fork1 (\<lambda>pid. if pid = 0 then runcmd l else Wait (\<lambda>w. u_assert (w = pid) (runcmd r)))"
| "runcmd (PIPE l r) =
     Pipe (\<lambda>res p0 p1. if res < 0 then u_panic ''pipe failed'' else
       fork1 (\<lambda>pid. if pid = 0
         then close_ok 1 (dup_to p1 1 (close_ok p0 (close_ok p1 (runcmd l))))
         else fork1 (\<lambda>pid. if pid = 0
           then close_ok 0 (dup_to p0 0 (close_ok p0 (close_ok p1 (runcmd r))))
           else close_ok p0 (close_ok p1 (
             Wait (\<lambda>w. u_assert (w > 0) (Wait (\<lambda>w. u_assert (w > 0) Exit))))))))"
| "runcmd (BACK c) =
     fork1 (\<lambda>pid. if pid = 0 then runcmd c else Exit)"

text \<open>What the child of the main loop does with a line: \<open>runcmd(parsecmd(buf))\<close>.\<close>

definition run_line :: "byte list \<Rightarrow> nat \<Rightarrow> user_prog" where
  "run_line line n =
     (case parsecmd line \<lparr>spos = 0, room = n\<rparr> of
        Ret (c, m) t \<Rightarrow> runcmd (map_command (\<lambda>(q, e). cstring_at m q) c)
      | Panic e \<Rightarrow> u_panic e
      | _ \<Rightarrow> Spin)"

subsection \<open>Reading commands\<close>

text \<open>\<open>gets\<close> of \<open>user/lib/ulib.c\<close> on the bytes that are still to be read: what it stores before the zero, and
  the rest.\<close>

fun u_gets :: "nat \<Rightarrow> byte list \<Rightarrow> byte list \<times> byte list" where
  "u_gets mx [] = ([], [])"
| "u_gets mx (c # inp) =
     (if \<not> 1 < mx then ([], c # inp)
      else if c = 10 \<or> c = 13 then ([c], inp)
      else let (xs, rest) = u_gets (mx - 1) inp in (c # xs, rest))"

lemma u_gets_split: "fst (u_gets mx inp) @ snd (u_gets mx inp) = inp"
  by (induction mx inp rule: u_gets.induct) (auto simp: Let_def case_prod_beta)

lemma u_gets_fits: "0 < mx \<Longrightarrow> length (fst (u_gets mx inp)) < mx"
  by (induction mx inp rule: u_gets.induct) (auto simp: Let_def case_prod_beta)

text \<open>\<open>getcmd\<close>: the line in the buffer, none at the end of the input.\<close>

definition getcmd :: "nat \<Rightarrow> byte list \<Rightarrow> (byte list \<times> byte list) option" where
  "getcmd nbuf inp =
     (let (xs, rest) = u_gets nbuf inp; line = takeWhile (\<lambda>c. c \<noteq> 0) xs
      in if line = [] then None else Some (line, rest))"

lemma getcmd_shorter: "getcmd nbuf inp = Some (line, rest) \<Longrightarrow> length rest < length inp"
proof -
  assume "getcmd nbuf inp = Some (line, rest)"
  then have "fst (u_gets nbuf inp) \<noteq> []" "rest = snd (u_gets nbuf inp)"
    by (auto simp: getcmd_def Let_def case_prod_beta split: if_splits)
  moreover have "length inp = length (fst (u_gets nbuf inp)) + length (snd (u_gets nbuf inp))"
    by (metis u_gets_split length_append)
  ultimately show ?thesis by simp
qed

text \<open>The loop of \<open>main\<close> over the lines, with its comparison against \<open>"exit\n"\<close>.\<close>

definition exit_line :: "byte list" where "exit_line = [101, 120, 105, 116, 10]"

function main_loop :: "nat \<Rightarrow> byte list \<Rightarrow> user_prog" where
  "main_loop n inp =
     (case getcmd 100 inp of None \<Rightarrow> Exit | Some (line, rest) \<Rightarrow>
      if line = exit_line then Exit else
      fork1 (\<lambda>pid. if pid = 0 then run_line line n else Wait (\<lambda>w. u_assert (w = pid) (main_loop n rest))))"
  by pat_completeness auto
termination
  by (relation "measure (length o snd)") (auto dest: getcmd_shorter)

declare main_loop.simps [simp del]

text \<open>The first loop of \<open>main\<close> opens the console until three descriptors are in use; a round that goes on
  has filled one of the first three, so it runs at most four times.\<close>

definition console_name :: "byte list" where "console_name = [99, 111, 110, 115, 111, 108, 101]"

fun open_console :: "nat \<Rightarrow> user_prog \<Rightarrow> user_prog" where
  "open_console 0 p = Spin"
| "open_console (Suc k) p =
     Open console_name O_RDWR (\<lambda>fd.
       if fd < 0 then p
       else if fd > 2 then Close (nat fd) (\<lambda>_. p)
       else open_console k p)"

definition sh_main :: "nat \<Rightarrow> byte list \<Rightarrow> user_prog" where
  "sh_main n inp = open_console 4 (main_loop n inp)"

section \<open>Descriptors\<close>

datatype open_file = Console | Named "byte list" u32 | PipeRead nat | PipeWrite nat

type_synonym fds = "open_file option list"

record calls =
  can_exec :: "byte list list \<Rightarrow> bool"
  can_open :: "byte list \<Rightarrow> u32 \<Rightarrow> bool"
  dup_value :: "open_file \<Rightarrow> nat \<Rightarrow> int"
  pick :: "nat list \<Rightarrow> nat"

definition free_fd :: "fds \<Rightarrow> nat option" where
  "free_fd t = find_idx (\<lambda>x. x = None) t"

text \<open>How a process ends: it runs a program with a table, exits, or loops in a failed assertion.\<close>

datatype ending = Ran "byte list list" fds | Exited | Stuck

definition fd_open :: "fds \<Rightarrow> nat \<Rightarrow> bool" where
  "fd_open t fd \<longleftrightarrow> fd < length t \<and> t ! fd \<noteq> None"

primrec run :: "calls \<Rightarrow> user_prog \<Rightarrow> fds \<Rightarrow> nat list \<Rightarrow> nat \<Rightarrow> ending list \<times> nat" where
  "run K Exit = (\<lambda>t ch n. ([Exited], n))"
| "run K Spin = (\<lambda>t ch n. ([Stuck], n))"
| "run K (Exec argv k) = (\<lambda>t ch n. if can_exec K argv then ([Ran argv t], n) else run K (k (-1)) t ch n)"
| "run K (Close fd k) = (\<lambda>t ch n.
     if fd_open t fd then run K (k 0) (t[fd := None]) ch n else run K (k (-1)) t ch n)"
| "run K (Open name mode k) = (\<lambda>t ch n.
     case free_fd t of
       Some i \<Rightarrow> if can_open K name mode then run K (k (int i)) (t[i := Some (Named name mode)]) ch n
                 else run K (k (-1)) t ch n
     | None \<Rightarrow> run K (k (-1)) t ch n)"
| "run K (Dup fd k) = (\<lambda>t ch n.
     case free_fd t of
       Some i \<Rightarrow> if fd_open t fd then run K (k (dup_value K (the (t ! fd)) i)) (t[i := t ! fd]) ch n
                 else run K (k (-1)) t ch n
     | None \<Rightarrow> run K (k (-1)) t ch n)"
| "run K (Pipe k) = (\<lambda>t ch n.
     case free_fd t of
       None \<Rightarrow> run K (k (-1) 0 0) t ch n
     | Some i \<Rightarrow>
         case free_fd (t[i := Some (PipeRead n)]) of
           None \<Rightarrow> run K (k (-1) 0 0) t ch n
         | Some j \<Rightarrow> run K (k 0 i j) (t[i := Some (PipeRead n), j := Some (PipeWrite n)]) ch (Suc n))"
| "run K (Fork k) = (\<lambda>t ch n.
     let pid = Suc n; (es, n1) = run K (k 0) t [] pid; (es', n2) = run K (k (int pid)) t (pid # ch) n1
     in (es @ es', n2))"
| "run K (Wait k) = (\<lambda>t ch n.
     if ch = [] then run K (k (-1)) t ch n
     else run K (k (int (pick K ch))) t (remove1 (pick K ch) ch) n)"
| "run K (Print fd s p) = run K p"

section \<open>What a command line connects\<close>


text \<open>A table with standard input, output and error only.\<close>

definition std_fds :: "open_file \<Rightarrow> open_file \<Rightarrow> open_file \<Rightarrow> fds" where
  "std_fds i out er = [Some i, Some out, Some er] @ replicate (NOFILE - 3) None"

lemma std_fds_eq: "std_fds i out er = Some i # Some out # Some er # None # None # replicate 11 None"
  by (simp add: std_fds_def NOFILE_def eval_nat_numeral)

definition is_ran :: "ending \<Rightarrow> bool" where
  "is_ran e \<longleftrightarrow> (\<exists>argv t. e = Ran argv t)"

lemma is_ran_simps [simp]: "is_ran (Ran argv t)" "\<not> is_ran Exited" "\<not> is_ran Stuck"
  by (auto simp: is_ran_def)





lemmas shell_defs = u_assert_def u_panic_def fork1_def close_ok_def dup_to_def fd_open_def free_fd_def







text \<open>The bound of \<open>open_console\<close> is enough: from any table the loop ends in the program behind it, with the
  first three descriptors open if the console can be opened.\<close>

lemma open_console_ends:
  assumes "length t = NOFILE" "\<forall>j < 4 - k. fd_open t j" "k \<le> 4" "0 < k"
  shows "\<exists>t'. run K (open_console k p) t kids n = run K p t' kids n"
  using assms
proof (induction k arbitrary: t)
  case (Suc k)
  show ?case
  proof (cases "free_fd t")
    case None
    then show ?thesis by auto
  next
    case (Some i)
    let ?t = "t[i := Some (Named console_name O_RDWR)]"
    have i: "i < length t" "\<not> fd_open t i" "\<forall>j < i. fd_open t j"
      using Some by (auto simp: free_fd_def find_idx_Some fd_open_def)
    have "4 - Suc k = 3 - k" by simp
    then have ge: "3 - k \<le> i" using Suc.prems(2) i(2) by (metis not_le)
    have "\<exists>t'. run K (open_console k p) ?t kids n = run K p t' kids n" if "i \<le> 2"
    proof (rule Suc.IH)
      show "\<forall>j < 4 - k. fd_open ?t j"
      proof (intro allI impI)
        fix j assume "j < 4 - k"
        then have "j \<le> i" using ge by linarith
        then show "fd_open ?t j" using i by (cases "j = i") (auto simp: fd_open_def)
      qed
      show "0 < k" using ge that by linarith
    qed (use Suc.prems in auto)
    then show ?thesis using Some by auto
  qed
qed simp




section \<open>On this kernel\<close>

text \<open>The value \<open>file_dup\<close> returns: the descriptor, but 0 for a pipe.\<close>

fun file_dup_value :: "open_file \<Rightarrow> nat \<Rightarrow> int" where
  "file_dup_value (PipeRead p) i = 0"
| "file_dup_value (PipeWrite p) i = 0"
| "file_dup_value f i = int i"

text \<open>C38: With the value that \<open>file_dup\<close> returns for a pipe, no pipe between two commands works: the left
  command is never run, its process stops in the assertion that \<open>dup\<close> returned the standard output.\<close>

theorem pipe_left_never_runs:
  assumes "dup_value K = file_dup_value"
  shows "\<exists>es n'. run K (runcmd (PIPE l r)) (std_fds i out er) [] n = (Stuck # es, n')"
  using assms by (auto simp: std_fds_eq shell_defs Let_def split: prod.split)

theorem pipe_left_never_runs_witness:
  "\<exists>es n'. run \<lparr>can_exec = \<lambda>_. True, can_open = \<lambda>_ _. True, dup_value = file_dup_value, pick = hd\<rparr>
      (runcmd (PIPE (EXEC [[97]]) (EXEC [[98]]))) (std_fds Console Console Console) [] 0 = (Stuck # es, n')"
  by (rule pipe_left_never_runs) simp

end
