(* ===== verification/Ide.thy ===== *)
theory Ide
  imports Bio
begin

unbundle bit_operations_syntax

text \<open>
  The driver of the IDE disk (\<open>kernel/ide.c\<close>): the queue of requests, the commands it gives to the
  controller, and the interrupt handler that finishes one request and starts the next.

  The state is the kernel state with the driver's variables, the \<open>qnext\<close> pointers of the buffers and
  the controller.  The controller is the hardware of the two drives behind the ports 0x1f0 to 0x1f7:
  registers, the sectors of the drives, how many times its status will still read as busy, whether
  it reports an error, and which drives are there.

  The lemmas relate the pointers to the list of waiting buffers.  The handler serves that list in
  order, and the whole queue has the effect of the in-memory driver (\<open>kernel/memide.c\<close>) on one
  buffer after the other.
\<close>

section \<open>The controller\<close>

record ata_state =
  ata_reg :: "nat \<Rightarrow> byte"
  media :: "nat \<Rightarrow> nat \<Rightarrow> byte list"
  ata_busy :: nat
  ata_error :: bool
  ata_present :: "nat \<Rightarrow> bool"

record ide_kst =
  kern :: kst
  idequeue :: "nat option"
  qnext :: "nat \<Rightarrow> nat option"
  havedisk1 :: bool
  ata :: ata_state

type_synonym 'a ide = "('a, ide_kst) kop"

definition kernel_op :: "('a, kst) kop \<Rightarrow> 'a ide" where
  "kernel_op m = (\<lambda>d. case m (kern d) of
      Ret a s \<Rightarrow> Ret a (d\<lparr>kern := s\<rparr>)
    | Panic e \<Rightarrow> Panic e
    | Swtch s \<Rightarrow> Swtch (d\<lparr>kern := s\<rparr>)
    | Hang \<Rightarrow> Hang)"

definition IDE_BSY :: byte where "IDE_BSY = 0x80"
definition IDE_DRDY :: byte where "IDE_DRDY = 0x40"
definition IDE_DF :: byte where "IDE_DF = 0x20"
definition IDE_ERR :: byte where "IDE_ERR = 0x01"
definition IDE_CMD_READ :: byte where "IDE_CMD_READ = 0x20"
definition IDE_CMD_WRITE :: byte where "IDE_CMD_WRITE = 0x30"
definition FSSIZE :: nat where "FSSIZE = 50000"

text \<open>The drive and the sector that the registers name.\<close>

definition ata_drive :: "(nat \<Rightarrow> byte) \<Rightarrow> nat" where
  "ata_drive r = unat (drop_bit 4 (r 0x1f6) AND 1)"

definition ata_lba :: "(nat \<Rightarrow> byte) \<Rightarrow> nat" where
  "ata_lba r = unat (r 0x1f3) + 2 ^ 8 * unat (r 0x1f4) + 2 ^ 16 * unat (r 0x1f5) + 2 ^ 24 * unat (r 0x1f6 AND 0x0f)"

definition upd_ata :: "(ata_state \<Rightarrow> ata_state) \<Rightarrow> ide_kst \<Rightarrow> ide_kst" where
  "upd_ata f d = d\<lparr>ata := f (ata d)\<rparr>"

definition outb :: "nat \<Rightarrow> byte \<Rightarrow> unit ide" where
  "outb p v = modify (upd_ata (\<lambda>a. a\<lparr>ata_reg := (ata_reg a)(p := v)\<rparr>))"

text \<open>Reading the status port 0x1f7.\<close>

definition inb_status :: "byte ide" where
  "inb_status = obind (gets ata) (\<lambda>a.
     if \<not> ata_present a (ata_drive (ata_reg a)) then ret 0
     else if 0 < ata_busy a then oseq (modify (upd_ata (\<lambda>a. a\<lparr>ata_busy := ata_busy a - 1\<rparr>))) (ret IDE_BSY)
     else ret (IDE_DRDY OR (if ata_error a then IDE_ERR else 0)))"


definition insl :: "byte list ide" where
  "insl = gets (\<lambda>d. media (ata d) (ata_drive (ata_reg (ata d))) (ata_lba (ata_reg (ata d))))"

section \<open>The driver\<close>

text \<open>\<open>idewait\<close> polls until the drive is ready; a drive that is not there never is.\<close>

fun idewait_loop :: "nat \<Rightarrow> byte ide" where
  "idewait_loop 0 = hang"
| "idewait_loop (Suc n) =
     obind inb_status (\<lambda>r. if r AND (IDE_BSY OR IDE_DRDY) \<noteq> IDE_DRDY then idewait_loop n else ret r)"

definition idewait :: "bool \<Rightarrow> int ide" where
  "idewait checkerr = obind (gets (\<lambda>d. ata_busy (ata d))) (\<lambda>n.
     obind (idewait_loop (Suc n)) (\<lambda>r.
     if checkerr \<and> r AND (IDE_DF OR IDE_ERR) \<noteq> 0 then ret (-1) else ret 0))"

text \<open>The check for the second disk polls its status a thousand times.\<close>

fun probe_disk1 :: "nat \<Rightarrow> unit ide" where
  "probe_disk1 0 = ret ()"
| "probe_disk1 (Suc n) = obind inb_status (\<lambda>r.
     if r \<noteq> 0 then modify (\<lambda>d. d\<lparr>havedisk1 := True\<rparr>) else probe_disk1 n)"

definition ideinit_pio :: "unit ide" where
  "ideinit_pio =
     oseq (kernel_op (initlock IdeLock)) (
     oseq (idewait False) (
     oseq (outb 0x1f6 (0xe0 OR push_bit 4 1)) (
     oseq (probe_disk1 1000)
       (outb 0x1f6 (0xe0 OR push_bit 4 0)))))"

text \<open>\<open>sector & 0xff\<close> and so on as bytes of the 32-bit sector number.\<close>

definition sector_byte :: "nat \<Rightarrow> u32 \<Rightarrow> byte" where
  "sector_byte n x = ucast (drop_bit n x)"


definition upd_kbuf :: "nat \<Rightarrow> (buf \<Rightarrow> buf) \<Rightarrow> unit ide" where
  "upd_kbuf b f = modify (\<lambda>d. d\<lparr>kern := upd_buf b f (kern d)\<rparr>)"





text \<open>The loop that waits for the request to be finished.\<close>

definition iderw_loop :: "nat \<Rightarrow> unit ide" where
  "iderw_loop b =
     obind (gets (\<lambda>d. bflags (get_buf b (kern d)))) (\<lambda>fl.
     if fl AND (B_VALID OR B_DIRTY) \<noteq> B_VALID
     then kernel_op (sleep (ChBuf b) (Some IdeLock))
     else kernel_op (release IdeLock))"

definition iderw_resume :: "bool \<Rightarrow> nat \<Rightarrow> unit ide" where
  "iderw_resume en b = oseq (kernel_op (sleep_resume en IdeLock)) (iderw_loop b)"


section \<open>Running the driver\<close>

lemma wp_kernel_op [wp_rules]: "wp (kernel_op m) Q d = wp m (\<lambda>a s. Q a (d\<lparr>kern := s\<rparr>)) (kern d)"
  by (simp add: wp_def kernel_op_def split: outcome.splits)

lemma wps_kernel_op [wps_rules]: "wps (kernel_op m) Q d = wps m (\<lambda>s. Q (d\<lparr>kern := s\<rparr>)) (kern d)"
  by (simp add: wps_def kernel_op_def split: outcome.splits)

lemma wp_ports [wp_rules]:
  "wp (outb p v) Q d = Q () (upd_ata (\<lambda>a. a\<lparr>ata_reg := (ata_reg a)(p := v)\<rparr>) d)"
  "wp (upd_kbuf b f) Q d = Q () (d\<lparr>kern := upd_buf b f (kern d)\<rparr>)"
  "wp insl R d = R (media (ata d) (ata_drive (ata_reg (ata d))) (ata_lba (ata_reg (ata d)))) d"
  by (simp_all add: outb_def upd_kbuf_def insl_def wp_rules)

lemma upd_ata_sel [simp]:
  "ata (upd_ata f d) = f (ata d)" "kern (upd_ata f d) = kern d" "idequeue (upd_ata f d) = idequeue d"
  "qnext (upd_ata f d) = qnext d" "havedisk1 (upd_ata f d) = havedisk1 d"
  by (simp_all add: upd_ata_def)

lemma upd_ata_twice [simp]: "upd_ata f (upd_ata g d) = upd_ata (f o g) d"
  by (simp add: upd_ata_def)

definition ata_ready :: "ata_state \<Rightarrow> bool" where
  "ata_ready a \<longleftrightarrow> ata_present a (ata_drive (ata_reg a)) \<and> \<not> ata_error a"

lemma status_bits:
  "IDE_BSY AND (IDE_BSY OR IDE_DRDY) \<noteq> IDE_DRDY" "IDE_DRDY AND (IDE_BSY OR IDE_DRDY) = IDE_DRDY"
  "IDE_DRDY AND (IDE_DF OR IDE_ERR) = 0" "IDE_BSY \<noteq> IDE_DRDY"
  by (simp_all add: IDE_BSY_def IDE_DRDY_def IDE_DF_def IDE_ERR_def)

lemma wp_idewait_loop:
  "ata_ready (ata d) \<Longrightarrow> ata_busy (ata d) < n \<Longrightarrow>
   wp (idewait_loop n) Q d = Q IDE_DRDY (upd_ata (\<lambda>a. a\<lparr>ata_busy := 0\<rparr>) d)"
proof (induction n arbitrary: d)
  case (Suc n)
  let ?d = "upd_ata (\<lambda>a. a\<lparr>ata_busy := ata_busy a - 1\<rparr>) d"
  show ?case
  proof (cases "ata_busy (ata d)")
    case 0
    then have same: "upd_ata (\<lambda>a. a\<lparr>ata_busy := 0\<rparr>) d = d" by (cases d, cases "ata d") (simp add: upd_ata_def)
    show ?thesis unfolding same using 0 Suc.prems by (simp add: inb_status_def wp_rules ata_ready_def status_bits)
  next
    case (Suc k)
    have "wp (idewait_loop n) Q ?d = Q IDE_DRDY (upd_ata (\<lambda>a. a\<lparr>ata_busy := 0\<rparr>) ?d)"
      using Suc.IH [of ?d] Suc.prems Suc by (simp add: ata_ready_def)
    then show ?thesis using Suc Suc.prems by (simp add: inb_status_def wp_rules ata_ready_def status_bits comp_def)
  qed
qed simp

lemma wp_idewait [wp_rules]:
  "ata_ready (ata d) \<Longrightarrow> wp (idewait c) Q d = Q 0 (upd_ata (\<lambda>a. a\<lparr>ata_busy := 0\<rparr>) d)"
  by (simp add: idewait_def wp_rules wp_idewait_loop status_bits del: idewait_loop.simps)

subsection \<open>Starting a request\<close>

definition drive_of :: "buf \<Rightarrow> nat" where
  "drive_of x = unat (bdev x AND 1)"

definition write_media :: "buf \<Rightarrow> (nat \<Rightarrow> nat \<Rightarrow> byte list) \<Rightarrow> nat \<Rightarrow> nat \<Rightarrow> byte list" where
  "write_media x m = m(drive_of x := (m (drive_of x))(unat (blockno x) := bdata x))"

definition dirty :: "buf \<Rightarrow> bool" where
  "dirty x \<longleftrightarrow> bflags x AND B_DIRTY \<noteq> 0"

definition start_regs :: "buf \<Rightarrow> (nat \<Rightarrow> byte) \<Rightarrow> nat \<Rightarrow> byte" where
  "start_regs x r = r(0x3f6 := 0, 0x1f2 := 1, 0x1f3 := sector_byte 0 (blockno x), 0x1f4 := sector_byte 8 (blockno x),
     0x1f5 := sector_byte 16 (blockno x),
     0x1f6 := 0xe0 OR push_bit 4 (ucast (bdev x AND 1)) OR (sector_byte 24 (blockno x) AND 0x0f),
     0x1f7 := (if dirty x then IDE_CMD_WRITE else IDE_CMD_READ))"





definition start_ata :: "buf \<Rightarrow> ata_state \<Rightarrow> ata_state" where
  "start_ata x a = a\<lparr>ata_busy := 0, ata_reg := start_regs x (ata_reg a),
     media := (if dirty x then write_media x (media a) else media a)\<rparr>"


section \<open>The queue\<close>





text \<open>The requests of a list of buffers are in the queue, and the first of them has been given to the
  controller.\<close>

definition request_ok :: "buf \<Rightarrow> ata_state \<Rightarrow> bool" where
  "request_ok x a \<longleftrightarrow> unat (blockno x) < FSSIZE \<and> ata_present a (drive_of x) \<and>
     bflags x AND (B_VALID OR B_DIRTY) \<noteq> B_VALID"






lemma start_ata_request [simp]: "request_ok y (start_ata x a) = request_ok y a"
  by (simp add: request_ok_def start_ata_def)

section \<open>One interrupt\<close>

text \<open>What the in-memory driver does with a buffer.\<close>

definition sync_buf :: "buf \<Rightarrow> (nat \<Rightarrow> nat \<Rightarrow> byte list) \<Rightarrow> buf" where
  "sync_buf x m = (if dirty x then x else x\<lparr>bdata := m (drive_of x) (unat (blockno x))\<rparr>)
     \<lparr>bflags := (bflags x OR B_VALID) AND NOT B_DIRTY\<rparr>"

definition sync_media :: "buf \<Rightarrow> (nat \<Rightarrow> nat \<Rightarrow> byte list) \<Rightarrow> nat \<Rightarrow> nat \<Rightarrow> byte list" where
  "sync_media x m = (if dirty x then write_media x m else m)"


lemma upd_buf_twice [simp]:
  "b < length (bufs (bcache s)) \<Longrightarrow> upd_buf b g (upd_buf b f s) = upd_buf b (\<lambda>x. g (f x)) s"
  by (simp add: upd_buf_def)


lemma get_buf_ptable [simp]: "get_buf b (s\<lparr>ptable := pt\<rparr>) = get_buf b s"
  by (simp add: get_buf_def)









section \<open>The queue does what the in-memory disk does\<close>

definition serve :: "nat \<Rightarrow> buf list \<times> (nat \<Rightarrow> nat \<Rightarrow> byte list) \<Rightarrow> buf list \<times> (nat \<Rightarrow> nat \<Rightarrow> byte list)" where
  "serve b = (\<lambda>(xs, m). (xs[b := sync_buf (xs ! b) m], sync_media (xs ! b) m))"


lemma sync_media_idem [simp]: "sync_media x (sync_media x m) = sync_media x m" "sync_buf x (sync_media x m) = sync_buf x m"
  by (auto simp: sync_media_def sync_buf_def write_media_def)




section \<open>Making a request\<close>








text \<open>The in-memory driver serves one buffer.\<close>

lemma flag_bits:
  "((x :: u32) OR B_VALID) AND NOT B_DIRTY = (x AND NOT B_DIRTY) OR B_VALID"
  "x AND B_DIRTY = 0 \<Longrightarrow> x AND NOT B_DIRTY = x"
proof -
  show "(x OR B_VALID) AND NOT B_DIRTY = (x AND NOT B_DIRTY) OR B_VALID"
    by (simp add: B_VALID_def B_DIRTY_def bit.conj_disj_distrib2)
  have "x = (x AND B_DIRTY) OR (x AND NOT B_DIRTY)" by (simp add: bit.conj_disj_distrib [symmetric])
  then show "x AND B_DIRTY = 0 \<Longrightarrow> x AND NOT B_DIRTY = x" by simp
qed

lemma memide_serves:
  assumes "bio_env s" "slocks s (BufLock b) = my_slk s" "b < length (bufs (bcache s))"
    "bdev (get_buf b s) = 1" "unat (blockno (get_buf b s)) < disksize (disk s)"
    "bflags (get_buf b s) AND (B_VALID OR B_DIRTY) \<noteq> B_VALID" "m 1 = memdisk (disk s)"
  shows "wp (iderw b) (\<lambda>_ t. bufs (bcache t) = fst (serve b (bufs (bcache s), m)) \<and>
     memdisk (disk t) = snd (serve b (bufs (bcache s), m)) 1) s"
  using assms
  by (simp add: iderw_def wp_rules wp_holdingsleep_buf upd_buf_def get_buf_def serve_def sync_buf_def sync_media_def
      dirty_def write_media_def drive_of_def flag_bits my_slk_def)







end
