(* ===== verification/LineEdit.thy ===== *)
theory LineEdit
  imports Console Ring
begin

text \<open>
  The line discipline of the console (\<open>consoleintr\<close>, \<open>consoleread\<close> of \<open>kernel/console.c\<close>): the
  specification \<open>tty\<close> of a terminal that collects a line, lets it be edited, and hands complete
  lines to readers, and the proof that the circular buffer with its three free-running indices
  implements it for both input devices.
\<close>

section \<open>The specification\<close>

text \<open>A terminal: the bytes that may be read, the line being edited, what was echoed, and whether a
  process sleeps for input.\<close>

record tty =
  tty_ready :: "byte list"
  tty_line :: "byte list"
  tty_shown :: "int list"
  tty_waiting :: bool

definition tty_enter :: "int \<Rightarrow> tty \<Rightarrow> tty" where
  "tty_enter c d =
     (let line = tty_line d @ [of_int c]; d' = d\<lparr>tty_shown := tty_shown d @ [c]\<rparr> in
      if c = 10 \<or> c = 4 \<or> length (tty_ready d) + length line = INPUT_BUF
      then d'\<lparr>tty_ready := tty_ready d @ line, tty_line := [], tty_waiting := False\<rparr>
      else d'\<lparr>tty_line := line\<rparr>)"

definition tty_rubout :: "nat \<Rightarrow> tty \<Rightarrow> tty" where
  "tty_rubout n d = d\<lparr>tty_line := take (length (tty_line d) - n) (tty_line d),
     tty_shown := tty_shown d @ replicate n BACKSPACE\<rparr>"

definition tty_type :: "int \<Rightarrow> tty \<Rightarrow> tty" where
  "tty_type c d =
     (if c = 16 then d
      else if c = 21 then tty_rubout (length (tty_line d)) d
      else if c = 8 \<or> c = 127 then (if tty_line d = [] then d else tty_rubout 1 d)
      else if c \<noteq> 0 \<and> length (tty_ready d) + length (tty_line d) < INPUT_BUF
      then tty_enter (if c = 13 then 10 else c) d else d)"

text \<open>A read of \<open>n\<close> more bytes after \<open>got\<close>: the bytes returned and what stays to be read; \<open>None\<close> when
  the reader has to wait.\<close>

fun tty_read :: "nat \<Rightarrow> byte list \<Rightarrow> byte list \<Rightarrow> (byte list \<times> byte list) option" where
  "tty_read 0 got q = Some (got, q)"
| "tty_read (Suc n) got [] = None"
| "tty_read (Suc n) got (c # q) =
     (if c = 4 then Some (got, if got = [] then q else c # q)
      else if c = 10 then Some (got @ [c], q)
      else tty_read n (got @ [c]) q)"

text \<open>The characters that a device delivers for the bytes \<open>bs\<close>, when one byte in shift state \<open>k\<close>
  gives \<open>code k b\<close>.\<close>

fun decode :: "(u32 \<Rightarrow> byte \<Rightarrow> int \<times> u32) \<Rightarrow> u32 \<Rightarrow> byte list \<Rightarrow> int list" where
  "decode code k [] = []"
| "decode code k (b # bs) =
     (let (c, k') = code k b in if c < 0 then [] else c # decode code k' bs)"

section \<open>The terminal that the kernel's state represents\<close>

definition input_ready :: "input_state \<Rightarrow> byte list" where
  "input_ready i = ring_content INPUT_BUF (input_r i) (input_w i) (nth (ibuf i))"

definition input_line :: "input_state \<Rightarrow> byte list" where
  "input_line i = ring_content INPUT_BUF (input_w i) (input_e i) (nth (ibuf i))"

text \<open>The read, write and edit indices are in this order and at most \<open>INPUT_BUF\<close> apart, the line
  being edited has no end of line, and a full buffer has no line being edited.\<close>

definition input_ok :: "input_state \<Rightarrow> bool" where
  "input_ok i \<longleftrightarrow> length (ibuf i) = INPUT_BUF \<and>
     length (input_ready i) + length (input_line i) \<le> INPUT_BUF \<and> 10 \<notin> set (input_line i) \<and>
     (input_line i \<noteq> [] \<longrightarrow> length (input_ready i) + length (input_line i) < INPUT_BUF)"

definition awaits_input :: "proc \<Rightarrow> bool" where
  "awaits_input p \<longleftrightarrow> pstate p = SLEEPING \<and> pchan p = Some ChInput"

definition tty_of :: "kst \<Rightarrow> tty" where
  "tty_of s = \<lparr>tty_ready = input_ready (input (cons s)), tty_line = input_line (input (cons s)),
     tty_shown = cons_out (cons s), tty_waiting = (\<exists>p \<in> set (procs (ptable s)). awaits_input p)\<rparr>"

section \<open>Three indices into one ring\<close>

lemma INPUT_BUF_dvd: "INPUT_BUF dvd 2 ^ 32"
  by (simp add: INPUT_BUF_def)

lemma ring_self [simp]: "ring_content N r r b = []"
  by (simp add: ring_content_def)

lemma ring_empty: "ring_content N r w b = [] \<longleftrightarrow> r = w"
proof -
  have "ring_content N r w b = [] \<longleftrightarrow> unat (w - r) = 0"
    by (simp add: ring_content_def)
  also have "\<dots> \<longleftrightarrow> w - r = 0" by (rule unat_eq_zero)
  finally show ?thesis by auto
qed

lemma unat_diff_split:
  fixes r w e :: u32
  assumes "unat (w - r) + unat (e - w) < 2 ^ 32"
  shows "unat (e - r) = unat (w - r) + unat (e - w)"
  using unat_diff_grow [of w r "unat (e - w)"] assms by simp

lemma ring_join:
  assumes N: "N dvd 2 ^ 32" and "unat (w - r :: u32) + unat (e - w) < 2 ^ 32"
  shows "ring_content N r e b = ring_content N r w b @ ring_content N w e b"
proof (rule nth_equalityI)
  note split = unat_diff_split [OF assms(2)]
  then show "length (ring_content N r e b) = length (ring_content N r w b @ ring_content N w e b)"
    by simp
  fix i
  assume "i < length (ring_content N r e b)"
  then have i: "i < unat (e - r)" by simp
  show "ring_content N r e b ! i = (ring_content N r w b @ ring_content N w e b) ! i"
  proof (cases "i < unat (w - r)")
    case True
    then show ?thesis using i by (simp add: nth_append)
  next
    case False
    have "unat w mod N = (unat r + unat (w - r)) mod N"
      using unat_add_mod_ring [OF N, of r "unat (w - r)"] by simp
    then have "(unat w + (i - unat (w - r))) mod N = (unat r + unat (w - r) + (i - unat (w - r))) mod N"
      by (rule mod_add_cong) (rule refl)
    also have "unat r + unat (w - r) + (i - unat (w - r)) = unat r + i" using False by simp
    finally have "(unat w + (i - unat (w - r))) mod N = (unat r + i) mod N" .
    moreover have "i - unat (w - r) < unat (e - w)" using False i split by simp
    ultimately show ?thesis using False i by (simp only: nth_append length_ring_content nth_ring_content if_False)
  qed
qed

lemma ring_slot_free:
  assumes N: "N dvd 2 ^ 32" and "i < unat (e - r :: u32)" "unat (e - r) < N"
  shows "(unat r + i) mod N \<noteq> unat e mod N"
proof
  assume "(unat r + i) mod N = unat e mod N"
  also have "unat e mod N = (unat r + unat (e - r)) mod N"
    using unat_add_mod_ring [OF N, of r "unat (e - r)"] by simp
  finally have "(unat r + i) mod N = (unat r + unat (e - r)) mod N" .
  then have "N dvd unat (e - r) - i"
    using assms(2) mod_eq_dvd_iff_nat [of "unat r + i" "unat r + unat (e - r)" N] by simp
  then show False using assms(2,3) by (auto dest: dvd_imp_le)
qed

lemma ring_write_elsewhere:
  assumes "\<And>i. i < unat (w - r) \<Longrightarrow> (unat r + i) mod N \<noteq> k"
  shows "ring_content N r w (nth (xs[k := x])) = ring_content N r w (nth xs)"
  unfolding ring_content_def using assms nth_list_update_neq
  by (intro map_cong refl) (simp add: eq_commute [of k])

lemma ring_shrink:
  fixes w e :: u32
  assumes "e \<noteq> w"
  shows "ring_content N w (e - 1) b = butlast (ring_content N w e b)"
    and "unat (e - 1 - w) = unat (e - w) - 1"
proof -
  have "e - w \<noteq> 0" using assms by simp
  then have "unat (e - w - 1) = unat (e - w) - 1"
    by (metis unat_minus_one)
  then show *: "unat (e - 1 - w) = unat (e - w) - 1" by (simp add: algebra_simps)
  show "ring_content N w (e - 1) b = butlast (ring_content N w e b)"
    unfolding ring_content_def * by (cases "unat (e - w)") simp_all
qed

subsection \<open>The steps of the editor on the indices\<close>

lemma input_ok_sel:
  assumes "input_ok i"
  shows "length (ibuf i) = INPUT_BUF" "unat (input_e i - input_r i) = length (input_ready i) + length (input_line i)"
    "length (input_ready i) + length (input_line i) \<le> INPUT_BUF"
    "input_e i = input_w i \<longleftrightarrow> input_line i = []" "input_r i = input_w i \<longleftrightarrow> input_ready i = []"
proof -
  show "input_e i = input_w i \<longleftrightarrow> input_line i = []" "input_r i = input_w i \<longleftrightarrow> input_ready i = []"
    by (auto simp: input_ready_def input_line_def ring_empty)
  show "length (ibuf i) = INPUT_BUF" and le: "length (input_ready i) + length (input_line i) \<le> INPUT_BUF"
    using assms by (simp_all add: input_ok_def)
  then show "unat (input_e i - input_r i) = length (input_ready i) + length (input_line i)"
    unfolding input_ready_def input_line_def length_ring_content
    by (intro unat_diff_split) (simp add: INPUT_BUF_def)
qed

lemma input_room:
  assumes "input_ok i"
  shows "input_e i - input_r i < of_nat INPUT_BUF \<longleftrightarrow> length (input_ready i) + length (input_line i) < INPUT_BUF"
  using input_ok_sel [OF assms] by (simp add: word_less_nat_alt INPUT_BUF_def)

lemma input_rubout:
  assumes "input_ok i" "input_line i \<noteq> []"
  shows "input_ready (i\<lparr>input_e := input_e i - 1\<rparr>) = input_ready i"
    and "input_line (i\<lparr>input_e := input_e i - 1\<rparr>) = butlast (input_line i)"
    and "input_ok (i\<lparr>input_e := input_e i - 1\<rparr>)"
proof -
  show 1: "input_ready (i\<lparr>input_e := input_e i - 1\<rparr>) = input_ready i"
    by (simp add: input_ready_def)
  show 2: "input_line (i\<lparr>input_e := input_e i - 1\<rparr>) = butlast (input_line i)"
    using input_ok_sel(4) [OF assms(1)] assms(2) ring_shrink(1) by (simp add: input_line_def)
  show "input_ok (i\<lparr>input_e := input_e i - 1\<rparr>)"
    using assms unfolding input_ok_def 1 2 by (auto dest: in_set_butlastD)
qed

lemma input_last:
  assumes "input_ok i" "input_line i \<noteq> []"
  shows "ibuf i ! in_idx (input_e i - 1) = last (input_line i)"
proof -
  let ?n = "unat (input_e i - input_w i)"
  have n: "0 < ?n" "length (input_line i) = ?n"
    using assms(2) length_greater_0_conv [of "input_line i"] by (simp_all add: input_line_def)
  have "input_e i - 1 = input_w i + of_nat (?n - 1)" using n(1) by (simp add: of_nat_diff)
  then have "in_idx (input_e i - 1) = (unat (input_w i) + (?n - 1)) mod INPUT_BUF"
    unfolding in_idx_def using unat_add_mod_ring [OF INPUT_BUF_dvd] by metis
  then show ?thesis
    using n assms(2) unfolding input_line_def by (simp add: last_conv_nth)
qed

lemma ring_full_next:
  fixes e r :: u32
  shows "e + 1 = r + 128 \<longleftrightarrow> unat (e - r) = 127"
proof -
  have "r + 128 = (r + 127) + 1" by simp
  then have "e + 1 = r + 128 \<longleftrightarrow> e = r + 127" by (metis add_right_cancel)
  also have "\<dots> \<longleftrightarrow> e - r = 127" by (simp add: diff_eq_eq add.commute)
  also have "\<dots> \<longleftrightarrow> unat (e - r) = unat (127 :: u32)" by (rule word_unat_eq_iff)
  finally show ?thesis by simp
qed

definition input_store :: "byte \<Rightarrow> input_state \<Rightarrow> input_state" where
  "input_store b i = i\<lparr>ibuf := (ibuf i)[in_idx (input_e i) := b], input_e := input_e i + 1\<rparr>"

lemma input_store_content:
  assumes "input_ok i" "length (input_ready i) + length (input_line i) < INPUT_BUF"
  shows "input_ready (input_store b i) = input_ready i"
    and "input_line (input_store b i) = input_line i @ [b]"
    and "input_e (input_store b i) = input_r (input_store b i) + of_nat INPUT_BUF \<longleftrightarrow>
      length (input_ready i) + length (input_line i) + 1 = INPUT_BUF"
proof -
  note sel = input_ok_sel [OF assms(1)]
  have le: "unat (input_w i - input_r i) \<le> unat (input_e i - input_r i)"
    "unat (input_e i - input_w i) \<le> unat (input_e i - input_r i)"
    using sel(2) by (simp_all add: input_ready_def input_line_def)
  have lt: "unat (input_e i - input_r i) < INPUT_BUF" using sel(2) assms(2) by simp
  show "input_ready (input_store b i) = input_ready i"
    unfolding input_ready_def input_store_def in_idx_def
    using ring_slot_free [OF INPUT_BUF_dvd _ lt] le by (simp add: ring_write_elsewhere)
  have "ring_content INPUT_BUF (input_w i) (input_e i + of_nat (length [b])) (nth ((ibuf i)[in_idx (input_e i) := b]))
      = ring_content INPUT_BUF (input_w i) (input_e i) (nth (ibuf i)) @ [b]"
  proof (rule ring_content_put [OF INPUT_BUF_dvd])
    show "unat (input_e i - input_w i) + length [b] \<le> INPUT_BUF" using le lt by simp
    show "INPUT_BUF < 2 ^ 32" by (simp add: INPUT_BUF_def)
    show "(ibuf i)[in_idx (input_e i) := b] ! ((unat (input_e i) + j) mod INPUT_BUF) = [b] ! j" if "j < length [b]" for j
      using that sel(1) by (simp add: in_idx_def INPUT_BUF_def)
    show "(ibuf i)[in_idx (input_e i) := b] ! ((unat (input_w i) + j) mod INPUT_BUF) = ibuf i ! ((unat (input_w i) + j) mod INPUT_BUF)"
      if "j < unat (input_e i - input_w i)" for j
      using ring_slot_free [OF INPUT_BUF_dvd that] le lt by (simp add: in_idx_def)
  qed
  then show "input_line (input_store b i) = input_line i @ [b]"
    by (simp add: input_line_def input_store_def)
  show "input_e (input_store b i) = input_r (input_store b i) + of_nat INPUT_BUF \<longleftrightarrow>
      length (input_ready i) + length (input_line i) + 1 = INPUT_BUF"
    using sel(2) ring_full_next [of "input_e i" "input_r i"] by (simp add: input_store_def INPUT_BUF_def)
qed

lemma input_commit:
  assumes "length (input_ready i) + length (input_line i) \<le> INPUT_BUF"
  shows "input_ready (i\<lparr>input_w := input_e i\<rparr>) = input_ready i @ input_line i"
    and "input_line (i\<lparr>input_w := input_e i\<rparr>) = []"
  using assms by (simp_all add: input_ready_def input_line_def ring_join INPUT_BUF_def)

section \<open>The editor\<close>

definition keeps :: "kst \<Rightarrow> kst \<Rightarrow> bool" where
  "keeps s t \<longleftrightarrow> cpu t = cpu s \<and> locks t = locks s \<and> cons_locking (cons t) = cons_locking (cons s) \<and>
     uart (cons t) = uart (cons s) \<and> kbd_shift (cons t) = kbd_shift (cons s)"

lemma keeps_refl [simp]: "keeps s s"
  and keeps_trans [trans]: "keeps s t \<Longrightarrow> keeps t u \<Longrightarrow> keeps s u"
  by (simp_all add: keeps_def)

text \<open>While an interrupt handler works on the buffer it holds the console's lock.\<close>

definition intr_env :: "kst \<Rightarrow> bool" where
  "intr_env s \<longleftrightarrow> cpu_ok (cpu s) \<and> 0 < ncli (cpu s) \<and> locks s ConsLock = held_lock \<and>
     locks s PtableLock = free_lock"

lemma intr_env_keeps: "intr_env s \<Longrightarrow> keeps s t \<Longrightarrow> intr_env t"
  by (simp add: intr_env_def keeps_def)

lemma wp_consputc [wp_rules]:
  "wp (consputc c) Q s = Q () (s\<lparr>cons := (cons s)\<lparr>cons_out := cons_out (cons s) @ [c]\<rparr>\<rparr>)"
  by (simp add: consputc_def wp_rules)

definition echoed :: "int \<Rightarrow> (input_state \<Rightarrow> input_state) \<Rightarrow> kst \<Rightarrow> kst" where
  "echoed c f s = s\<lparr>cons := (cons s)\<lparr>input := f (input (cons s)), cons_out := cons_out (cons s) @ [c]\<rparr>\<rparr>"

lemma echoed_sel [simp]:
  "input (cons (echoed c f s)) = f (input (cons s))" "cons_out (cons (echoed c f s)) = cons_out (cons s) @ [c]"
  "ptable (echoed c f s) = ptable s" "keeps s (echoed c f s)"
  by (simp_all add: echoed_def keeps_def)

lemma wp_echoed: "wp (oseq (modify (upd_input f)) (oseq (consputc c) m)) Q s = wp m Q (echoed c f s)"
  by (simp add: wp_rules upd_input_def echoed_def)

lemma rubout_step:
  assumes "input_ok (input (cons s))" "input_line (input (cons s)) \<noteq> []"
  shows "tty_of (echoed BACKSPACE (\<lambda>i. i\<lparr>input_e := input_e i - 1\<rparr>) s) = tty_rubout 1 (tty_of s)"
    and "input_ok (input (cons (echoed BACKSPACE (\<lambda>i. i\<lparr>input_e := input_e i - 1\<rparr>) s)))"
  using input_rubout [OF assms] by (simp_all add: tty_of_def tty_rubout_def butlast_conv_take)

lemma tty_rubout_sel [simp]:
  "tty_line (tty_rubout n d) = take (length (tty_line d) - n) (tty_line d)"
  "tty_ready (tty_rubout n d) = tty_ready d"
  by (simp_all add: tty_rubout_def)

lemma tty_rubout_0 [simp]: "tty_rubout 0 d = d"
  by (simp add: tty_rubout_def)

lemma tty_rubout_Suc: "Suc n \<le> length (tty_line d) \<Longrightarrow> tty_rubout n (tty_rubout 1 d) = tty_rubout (Suc n) d"
  by (simp add: tty_rubout_def)

lemma tty_of_sel [simp]:
  "tty_line (tty_of s) = input_line (input (cons s))" "tty_ready (tty_of s) = input_ready (input (cons s))"
  by (simp_all add: tty_of_def)

lemma wp_kill_line:
  assumes "input_ok (input (cons s))" "length (input_line (input (cons s))) = n" "n < k"
  shows "wp (kill_line k) (\<lambda>_ t. input_ok (input (cons t)) \<and> tty_of t = tty_rubout n (tty_of s) \<and> keeps s t) s"
  using assms
proof (induction n arbitrary: s k)
  case 0
  then obtain k' where k: "k = Suc k'" by (cases k) auto
  show ?case using 0 input_ok_sel(4) [OF 0(1)] by (simp add: k kill_line.simps wp_rules)
next
  case (Suc n)
  then obtain k' where k: "k = Suc k'" by (cases k) auto
  let ?i = "input (cons s)" and ?t = "echoed BACKSPACE (\<lambda>i. i\<lparr>input_e := input_e i - 1\<rparr>) s"
  have ne: "input_line ?i \<noteq> []" using Suc.prems(2) by auto
  have "last (input_line ?i) \<in> set (input_line ?i)" using ne by simp
  then have "ibuf ?i ! in_idx (input_e ?i - 1) \<noteq> 10"
    using Suc.prems(1) input_last [OF Suc.prems(1) ne] by (auto simp: input_ok_def)
  moreover have "input_e ?i \<noteq> input_w ?i" using input_ok_sel(4) [OF Suc.prems(1)] ne by simp
  ultimately have "wp (kill_line k) Q s = wp (kill_line k') Q ?t" for Q
    by (simp only: k kill_line.simps wp_obind wp_gets wp_echoed simp_thms if_True)
  moreover have "length (input_line (input (cons ?t))) = n"
    using input_rubout(2) [OF Suc.prems(1) ne] Suc.prems(2) by simp
  ultimately show ?case
    using Suc.IH [of ?t k'] rubout_step [OF Suc.prems(1) ne] Suc.prems k tty_rubout_Suc [of n "tty_of s"]
    by (auto elim!: wp_mono intro: keeps_trans [OF echoed_sel(4)])
qed

lemma of_int_byte_eq:
  assumes "0 \<le> c" "c < 256"
  shows "(of_int c :: byte) = 10 \<longleftrightarrow> c = 10"
proof -
  have "uint (of_int c :: byte) = c"
    using assms by (simp add: unsigned_of_int take_bit_eq_mod)
  then show ?thesis by auto
qed

lemma no_waiting_after_wake: "\<not> (\<exists>p \<in> set (map (wake (Some ChInput)) ps). awaits_input p)"
  by (auto simp: awaits_input_def wake_def)

lemma input_ok_enter:
  assumes "input_ok i" "length (input_ready i) + length (input_line i) < INPUT_BUF"
  shows "b \<noteq> 10 \<Longrightarrow> length (input_ready i) + length (input_line i) + 1 \<noteq> INPUT_BUF \<Longrightarrow> input_ok (input_store b i)"
    and "input_ok ((input_store b i)\<lparr>input_w := input_e (input_store b i)\<rparr>)"
proof -
  note st = input_store_content [OF assms, of b]
  have len: "length (ibuf (input_store b i)) = INPUT_BUF"
    using assms(1) by (simp add: input_ok_def input_store_def)
  then show "b \<noteq> 10 \<Longrightarrow> length (input_ready i) + length (input_line i) + 1 \<noteq> INPUT_BUF \<Longrightarrow> input_ok (input_store b i)"
    using assms unfolding input_ok_def st by auto
  have "length (input_ready (input_store b i)) + length (input_line (input_store b i)) \<le> INPUT_BUF"
    using assms(2) unfolding st by simp
  from input_commit [OF this] show "input_ok ((input_store b i)\<lparr>input_w := input_e (input_store b i)\<rparr>)"
    using len assms(2) unfolding st by (simp add: input_ok_def)
qed

lemma wp_enter:
  assumes env: "intr_env s" and ok: "input_ok (input (cons s))" and c: "0 \<le> c" "c < 256"
    and room: "length (input_ready (input (cons s))) + length (input_line (input (cons s))) < INPUT_BUF"
  shows "wp (oseq (modify (upd_input (\<lambda>i. i\<lparr>ibuf := (ibuf i)[in_idx (input_e i) := of_int c], input_e := input_e i + 1\<rparr>))) (
      oseq (consputc c) (
      obind (gets (\<lambda>s. input (cons s))) (\<lambda>i.
      kwhen (c = 10 \<or> c = 4 \<or> input_e i = input_r i + of_nat INPUT_BUF)
        (oseq (modify (upd_input (\<lambda>i. i\<lparr>input_w := input_e i\<rparr>))) (wakeup ChInput))))))
     (\<lambda>_ t. input_ok (input (cons t)) \<and> tty_of t = tty_enter c (tty_of s) \<and> keeps s t) s"
proof -
  let ?i = "input (cons s)" and ?st = "input_store (of_int c)"
  let ?t = "echoed c ?st s"
  note st = input_store_content [OF ok room, of "of_int c"]
  have ft: "(\<lambda>i. i\<lparr>ibuf := (ibuf i)[in_idx (input_e i) := of_int c], input_e := input_e i + 1\<rparr>) = ?st"
    by (rule ext) (simp add: input_store_def)
  show ?thesis
  proof (cases "c = 10 \<or> c = 4 \<or> length (input_ready ?i) + length (input_line ?i) + 1 = INPUT_BUF")
    case True
    let ?u = "upd_input (\<lambda>i. i\<lparr>input_w := input_e i\<rparr>) ?t"
    have "length (input_ready (?st ?i)) + length (input_line (?st ?i)) \<le> INPUT_BUF"
      using room unfolding st by simp
    note commit = input_commit [OF this, unfolded st]
    have u: "cpu_ok (cpu ?u)" "locks ?u PtableLock = free_lock" "quiet (cpu ?u) = cpu s"
      using env by (simp_all add: intr_env_def upd_input_def echoed_def quiet_def)
    have "wp (obind (gets (\<lambda>s. input (cons s))) (\<lambda>i.
        kwhen (c = 10 \<or> c = 4 \<or> input_e i = input_r i + of_nat INPUT_BUF)
          (oseq (modify (upd_input (\<lambda>i. i\<lparr>input_w := input_e i\<rparr>))) (wakeup ChInput)))) Q ?t
      = Q () (?u\<lparr>ptable := (ptable ?u)\<lparr>procs := map (wake (Some ChInput)) (procs (ptable ?u))\<rparr>, cpu := quiet (cpu ?u)\<rparr>)" for Q
      using True st(3) by (simp add: wp_obind wp_gets wp_kwhen wp_oseq wp_modify wp_wakeup [OF u(1,2)])
    then show ?thesis
      using True u(3) input_ok_enter(2) [OF ok room, of "of_int c"] unfolding ft wp_echoed
      by (auto simp: upd_input_def tty_of_def tty_enter_def commit keeps_def echoed_def no_waiting_after_wake [simplified])
  next
    case False
    then have "input_ok (?st ?i)"
      using input_ok_enter(1) [OF ok room] of_int_byte_eq [OF c] by simp
    then show ?thesis
      using False st by (simp add: ft wp_echoed wp_obind wp_gets wp_kwhen)
        (simp add: tty_of_def tty_enter_def)
  qed
qed

lemma wp_oseq_ret: "wp (oseq m (ret a)) Q s = wp m (\<lambda>_. Q a) s"
  by (simp add: wp_iff oseq_def obind_def ret_def split: outcome.splits)

lemma wp_intr_char:
  assumes env: "intr_env s" and ok: "input_ok (input (cons s))" and c: "0 \<le> c" "c < 256"
  shows "wp (intr_char c) (\<lambda>d t. d = (c = 16) \<and> input_ok (input (cons t)) \<and>
     tty_of t = tty_type c (tty_of s) \<and> keeps s t) s"
proof -
  let ?i = "input (cons s)"
  note sel = input_ok_sel [OF ok]
  consider "c = 16" | "c = 21" | "c = 8 \<or> c = 127" | "c \<noteq> 16" "c \<noteq> 21" "\<not> (c = 8 \<or> c = 127)" by blast
  then show ?thesis
  proof cases
    case 1
    then show ?thesis using ok by (simp add: intr_char_def wp_rules tty_type_def)
  next
    case 2
    have "unat (input_e ?i - input_w ?i) = length (input_line ?i)" by (simp add: input_line_def)
    then show ?thesis
      using 2 wp_mono [OF wp_kill_line [OF ok refl lessI]]
      by (simp add: intr_char_def wp_obind wp_gets wp_oseq wp_ret tty_type_def)
  next
    case 3
    then show ?thesis
      using ok sel(4) rubout_step [OF ok]
      by (auto simp: intr_char_def wp_obind wp_gets wp_oseq wp_kwhen tty_type_def wp_rules upd_input_def echoed_def keeps_def)
  next
    case 4
    define c' where "c' = (if c = 13 then 10 else c)"
    have c': "0 \<le> c'" "c' < 256" using c by (auto simp: c'_def)
    show ?thesis
    proof (cases "c \<noteq> 0 \<and> length (input_ready ?i) + length (input_line ?i) < INPUT_BUF")
      case True
      then show ?thesis
        using 4 wp_enter [OF env ok c'] input_room [OF ok]
        by (simp add: intr_char_def wp_obind wp_gets wp_oseq_ret wp_kwhen tty_type_def Let_def flip: c'_def)
    next
      case False
      then show ?thesis
        using 4 ok input_room [OF ok] by (auto simp: intr_char_def wp_rules tty_type_def)
    qed
  qed
qed

section \<open>The process listing only prints\<close>

definition console_idle :: "kst \<Rightarrow> bool" where
  "console_idle s \<longleftrightarrow> cpu_ok (cpu s) \<and> locks s ConsLock = free_lock \<and> locks s PtableLock = free_lock"

definition prints :: "kst \<Rightarrow> kst \<Rightarrow> bool" where
  "prints s t \<longleftrightarrow> console_idle t \<and> input (cons t) = input (cons s) \<and> ptable t = ptable s \<and>
     kbd_shift (cons t) = kbd_shift (cons s) \<and> quiet (cpu t) = quiet (cpu s) \<and>
     (\<exists>xs. cons_out (cons t) = cons_out (cons s) @ xs)"

lemma prints_refl: "console_idle s \<Longrightarrow> prints s s"
  by (simp add: prints_def)

lemma prints_trans: "prints s t \<Longrightarrow> prints t u \<Longrightarrow> prints s u"
  by (auto simp: prints_def)

lemma wp_put_chars [wp_rules]:
  "wp (put_chars out) Q s = Q () (s\<lparr>cons := (cons s)\<lparr>cons_out := cons_out (cons s) @ out\<rparr>\<rparr>)"
  unfolding put_chars_def
  by (induction out arbitrary: s) (simp_all add: wp_rules)

lemma wp_cprintf:
  assumes "console_idle s" "format None fmt args = Some out"
  shows "wp (cprintf fmt args) (\<lambda>_. prints s) s"
  using assms
  by (auto simp: cprintf_def wp_rules console_idle_def prints_def cpu_ok_def intro: cpu_ok_push)

lemma format_listing:
  "\<exists>out. format None (ascii ''%d %s %s'') [FInt a, FStr (Some x), FStr (Some y)] = Some out"
  "\<exists>out. format None (ascii '' %p'') [FInt a] = Some out"
  "\<exists>out. format None [10] [] = Some out"
  by (simp_all add: ascii_def arg_int_def arg_str_def)

lemma prints_step: "prints s t \<Longrightarrow> wp m (\<lambda>_. prints t) t \<Longrightarrow> wp m (\<lambda>_. prints s) t"
  by (auto elim!: wp_mono dest: prints_trans)

lemma prints_seq:
  assumes "\<And>t. prints s t \<Longrightarrow> wp m (\<lambda>_. prints t) t" "\<And>t. prints s t \<Longrightarrow> wp n (\<lambda>_. prints t) t" "console_idle s"
  shows "wp (oseq m n) (\<lambda>_. prints s) s"
  using assms(1) [OF prints_refl [OF assms(3)]] assms(2)
  by (auto simp: wp_oseq elim!: wp_mono intro: prints_step)

lemma prints_foreach:
  assumes "\<And>i t. prints s t \<Longrightarrow> wp (f i) (\<lambda>_. prints t) t" "prints s t"
  shows "wp (foreach is f) (\<lambda>_. prints s) t"
  using assms(2)
proof (induction "is" arbitrary: t)
  case (Cons i "is")
  then show ?case using prints_step [OF Cons.prems assms(1) [OF Cons.prems], of i]
    by (auto simp: wp_rules elim!: wp_mono)
qed (simp add: wp_rules)

lemma wp_procdump_line:
  assumes "console_idle s"
  shows "wp (procdump_line pcs i) (\<lambda>_. prints s) s"
proof -
  have pr: "wp (cprintf fmt args) (\<lambda>_. prints t) t" if "prints s t" "\<exists>out. format None fmt args = Some out" for t fmt args
    using that wp_cprintf by (auto simp: prints_def)
  show ?thesis
    unfolding procdump_line_def wp_obind wp_gets
    using assms
    by (auto simp: wp_ret wp_if wp_kwhen prints_refl intro!: prints_seq pr prints_foreach format_listing
        intro: prints_trans simp: prints_def)
qed

lemma wp_procdump: "console_idle s \<Longrightarrow> wp (procdump pcs) (\<lambda>_. prints s) s"
  unfolding procdump_def
  by (rule prints_foreach) (auto intro: wp_procdump_line prints_refl simp: prints_def)

section \<open>Input devices\<close>

text \<open>The characters \<open>keys\<close> were typed: the terminal took them, and the only other change is a process
  listing on the screen, printed when control-P is among them.\<close>

definition typed :: "int list \<Rightarrow> kst \<Rightarrow> kst \<Rightarrow> bool" where
  "typed keys s t \<longleftrightarrow> console_idle t \<and> input_ok (input (cons t)) \<and> eflags_if (cpu t) = eflags_if (cpu s) \<and>
     (let d = fold tty_type keys (tty_of s) in
      \<exists>listing. tty_of t = d\<lparr>tty_shown := tty_shown d @ listing\<rparr> \<and> (16 \<notin> set keys \<longrightarrow> listing = []))"

text \<open>What \<open>consoleintr\<close> relies on of the function it is given: one byte of the device gives one
  character code below 256, or -1, and a new shift state.\<close>

locale char_device =
  fixes getc :: "byte \<Rightarrow> (int, kst) kop"
    and code :: "bool \<Rightarrow> u32 \<Rightarrow> byte \<Rightarrow> int \<times> u32"
  assumes getc_code: "wp (getc b) Q s =
      Q (fst (code (uart (cons s)) (kbd_shift (cons s)) b))
        (s\<lparr>cons := (cons s)\<lparr>kbd_shift := snd (code (uart (cons s)) (kbd_shift (cons s)) b)\<rparr>\<rparr>)"
    and code_byte: "fst (code u k b) < 256"
begin

definition chars :: "kst \<Rightarrow> byte list \<Rightarrow> int list" where
  "chars s bs = decode (code (uart (cons s))) (kbd_shift (cons s)) bs"

lemma intr_loop_types:
  assumes "intr_env s" "input_ok (input (cons s))"
  shows "wp (intr_loop getc bs d) (\<lambda>d' t. d' = (d \<or> 16 \<in> set (chars s bs)) \<and> input_ok (input (cons t)) \<and>
     tty_of t = fold tty_type (chars s bs) (tty_of s) \<and> cpu t = cpu s \<and> locks t = locks s) s"
  using assms
proof (induction bs arbitrary: s d)
  case Nil
  then show ?case by (simp add: wp_rules chars_def)
next
  case (Cons b bs)
  obtain c k where ck: "code (uart (cons s)) (kbd_shift (cons s)) b = (c, k)" by fastforce
  let ?t = "s\<lparr>cons := (cons s)\<lparr>kbd_shift := k\<rparr>\<rparr>"
  have t: "tty_of ?t = tty_of s" "intr_env ?t" "input_ok (input (cons ?t))"
    using Cons.prems by (simp_all add: tty_of_def intr_env_def)
  have c: "c < 256" using code_byte ck by (metis fst_conv)
  have *: "chars s (b # bs) = c # chars u bs" if "keeps ?t u" "0 \<le> c" for u
    using that ck by (simp add: chars_def keeps_def)
  show ?case
  proof (cases "c < 0")
    case True
    then show ?thesis using ck t Cons.prems(2) by (simp add: wp_rules getc_code chars_def)
  next
    case False
    have "wp (intr_char c) (\<lambda>x. wp (intr_loop getc bs (d \<or> x)) (\<lambda>d' t. d' = (d \<or> 16 \<in> set (chars s (b # bs))) \<and>
        input_ok (input (cons t)) \<and> tty_of t = fold tty_type (chars s (b # bs)) (tty_of s) \<and> cpu t = cpu s \<and> locks t = locks s)) ?t"
    proof (rule wp_mono [OF wp_intr_char [OF t(2,3) _ c]], use False in simp, elim conjE)
      fix x u
      assume x: "x = (c = 16)" and u: "input_ok (input (cons u))" "tty_of u = tty_type c (tty_of ?t)" "keeps ?t u"
      have "wp (intr_loop getc bs (d \<or> x)) (\<lambda>d' t. d' = ((d \<or> x) \<or> 16 \<in> set (chars u bs)) \<and>
          input_ok (input (cons t)) \<and> tty_of t = fold tty_type (chars u bs) (tty_of u) \<and> cpu t = cpu u \<and> locks t = locks u) u"
        using Cons.IH intr_env_keeps [OF t(2) u(3)] u(1) .
      then show "wp (intr_loop getc bs (d \<or> x)) (\<lambda>d' t. d' = (d \<or> 16 \<in> set (chars s (b # bs))) \<and>
          input_ok (input (cons t)) \<and> tty_of t = fold tty_type (chars s (b # bs)) (tty_of s) \<and> cpu t = cpu s \<and> locks t = locks s) u"
        using * [OF u(3)] False x u t(1) by (elim wp_mono) (auto simp: keeps_def)
    qed
    then show ?thesis using False ck by (simp add: wp_rules getc_code)
  qed
qed

lemma consoleintr_types:
  assumes "console_idle s" "input_ok (input (cons s))"
  shows "wp (consoleintr pcs getc bs) (\<lambda>_. typed (chars s bs) s) s"
proof -
  let ?s = "s\<lparr>cpu := push_cpu (cpu s), locks := (locks s)(ConsLock := held_lock)\<rparr>"
  have env: "intr_env ?s" "input_ok (input (cons ?s))" "chars ?s bs = chars s bs" "tty_of ?s = tty_of s"
    using assms by (auto simp: console_idle_def intr_env_def chars_def tty_of_def cpu_ok_def)
  have dump: "wp (kwhen d (procdump pcs)) (\<lambda>_ u. prints t u \<and> (\<not> d \<longrightarrow> u = t)) t" if "console_idle t" for d t
    using that wp_procdump [OF that] by (cases d) (auto simp: wp_rules prints_refl)
  show ?thesis
    unfolding consoleintr_def wp_oseq wp_acquire wp_obind
  proof (intro conjI wp_mono [OF intr_loop_types [OF env(1,2), of bs False]], goal_cases)
    case 1
    then show ?case using assms by (simp add: console_idle_def)
  next
    case (2 d t)
    let ?u = "t\<lparr>locks := (locks t)(ConsLock := free_lock), cpu := pop_cpu (cpu t)\<rparr>"
    have u: "console_idle ?u" "input (cons ?u) = input (cons t)" "tty_of ?u = tty_of t" "cpu ?u = quiet (cpu s)"
      using 2 assms by (auto simp: console_idle_def tty_of_def)
    have "wp (kwhen d (procdump pcs)) (\<lambda>_. typed (chars s bs) s) ?u"
    proof (rule wp_mono [OF dump [OF u(1)]], elim conjE)
      fix v
      assume v: "prints ?u v" "\<not> d \<longrightarrow> v = ?u"
      then obtain xs where xs: "cons_out (cons v) = cons_out (cons t) @ xs" "\<not> d \<longrightarrow> xs = []"
        by (cases d) (auto simp: prints_def)
      then have "tty_of v = (tty_of t)\<lparr>tty_shown := tty_shown (tty_of t) @ xs\<rparr>"
        using v(1) by (simp add: prints_def tty_of_def)
      then show "typed (chars s bs) s v"
        using v(1) 2 env xs(2) u(4) by (auto simp: prints_def typed_def Let_def dest: arg_cong [of _ _ eflags_if])
    qed
    then show ?case
      using 2 assms by (auto simp: wp_rules console_idle_def cpu_ok_def holding_def)
  qed
qed

end

subsection \<open>The keyboard\<close>

lemma below_bits:
  fixes k :: u32
  assumes "n < 32"
  shows "k < 2 ^ n \<longleftrightarrow> (\<forall>m \<ge> n. \<not> bit k m)"
proof -
  have "(2 :: nat) ^ n < 2 ^ 32" using assms by (rule power_strict_increasing) simp
  then have "unat (of_nat (2 ^ n) :: u32) = 2 ^ n" by (simp only: unat_of_nat) simp
  then have "unat (2 ^ n :: u32) = 2 ^ n" by simp
  then have "k < 2 ^ n \<longleftrightarrow> take_bit n k = k"
    by (simp add: word_less_nat_alt word_unat_eq_iff unsigned_take_bit_eq take_bit_nat_eq_self_iff)
  also have "\<dots> \<longleftrightarrow> (\<forall>m \<ge> n. \<not> bit k m)"
    by (auto simp: bit_eq_iff bit_take_bit_iff) (use bit_imp_le_length [of k] in fastforce, use leI in blast)
  finally show ?thesis .
qed

lemma below_ops:
  fixes j k :: u32
  assumes "n < 32"
  shows "j < 2 ^ n \<Longrightarrow> k < 2 ^ n \<Longrightarrow> j OR k < 2 ^ n" "j < 2 ^ n \<Longrightarrow> k < 2 ^ n \<Longrightarrow> j XOR k < 2 ^ n"
    "j < 2 ^ n \<Longrightarrow> j AND k < 2 ^ n" "k < 2 ^ n \<Longrightarrow> j AND k < 2 ^ n"
  using assms by (simp_all add: below_bits bit_or_iff bit_xor_iff bit_and_iff)

lemmas below_128 = below_ops [of 7, simplified]

lemma modifiers_below: "shiftcode n < 128" "togglecode n < 128" "E0ESC < 128"
  by (simp_all add: shiftcode_def togglecode_def modifier_defs)

lemma caps_byte:
  assumes "c < 256"
  shows "caps c < 256"
proof -
  have "unat (c - 32) = unat c - 32" if "97 \<le> unat c"
    using that unat_sub [of 32 c] by (simp add: word_le_nat_alt)
  moreover have "unat (32 + c) = 32 + unat c" if "unat c \<le> 90"
    using that by (simp add: unat_word_ariths)
  ultimately show ?thesis
    using assms by (auto simp: caps_def word_less_nat_alt word_le_nat_alt)
qed

lemma sint_small:
  fixes c :: u32
  assumes "c < 256"
  shows "0 \<le> sint c \<and> sint c < 256"
proof -
  have c: "unat c < 256" using assms by (simp add: word_less_nat_alt)
  then have "sint c = uint c" by (intro sint_u32) simp
  moreover from c have "int (unat c) < 256" by linarith
  ultimately show ?thesis by simp
qed

lemma byte_small: "(ucast (b :: byte) :: u32) < 256"
proof -
  have "unat b < 2 ^ LENGTH(8)" by (rule unsigned_less)
  then show ?thesis by (simp add: word_less_nat_alt unsigned_ucast_eq take_bit_nat_eq_self)
qed

lemma press_typed: "0 \<le> fst (press k d) \<and> fst (press k d) < 256" "k < 128 \<Longrightarrow> snd (press k d) < 128"
proof -
  note byte_small [of "charcode i ! d" for i d]
  then show "0 \<le> fst (press k d) \<and> fst (press k d) < 256"
    unfolding press_def Let_def fst_conv by (intro sint_small) (simp add: caps_byte)
  show "k < 128 \<Longrightarrow> snd (press k d) < 128"
    by (simp add: press_def Let_def below_128 modifiers_below)
qed

lemma kbd_code_typed: "0 \<le> fst (kbd_code k b) \<and> fst (kbd_code k b) < 256" "k < 128 \<Longrightarrow> snd (kbd_code k b) < 128"
  by (simp_all add: kbd_code_def Let_def press_typed below_128 modifiers_below)



lemma wp_kbdgetc [wp_rules]:
  "wp (kbdgetc b) Q s = Q (fst (kbd_code (kbd_shift (cons s)) b))
     (s\<lparr>cons := (cons s)\<lparr>kbd_shift := snd (kbd_code (kbd_shift (cons s)) b)\<rparr>\<rparr>)"
  by (simp add: kbdgetc_def wp_rules split: prod.split)

interpretation keyboard: char_device kbdgetc "\<lambda>_. kbd_code"
  by unfold_locales (simp_all add: wp_rules kbd_code_typed)

definition uart_code :: "bool \<Rightarrow> u32 \<Rightarrow> byte \<Rightarrow> int \<times> u32" where
  "uart_code u k b = (if u then uint b else -1, k)"

interpretation serial: char_device uartgetc uart_code
proof
  show "fst (uart_code u k b) < 256" for u k b
    using uint_lt2p [of b] by (simp add: uart_code_def)
qed (simp add: uartgetc_def wp_rules uart_code_def)

section \<open>The reader\<close>

lemma input_get:
  assumes ok: "input_ok i" and r: "input_ready i = c # q"
  shows "ibuf i ! in_idx (input_r i) = c" "input_ready (i\<lparr>input_r := input_r i + 1\<rparr>) = q"
    "input_line (i\<lparr>input_r := input_r i + 1\<rparr>) = input_line i" "input_ok (i\<lparr>input_r := input_r i + 1\<rparr>)"
proof -
  have n: "0 < unat (input_w i - input_r i)"
    using arg_cong [OF r, of length] by (simp add: input_ready_def)
  have "c = input_ready i ! 0" using r by simp
  then show "ibuf i ! in_idx (input_r i) = c"
    using n by (simp add: input_ready_def in_idx_def)
  have "input_ready (i\<lparr>input_r := input_r i + 1\<rparr>) = drop 1 (input_ready i)"
    using n ring_content_get [OF INPUT_BUF_dvd, of 1 "input_w i" "input_r i" "nth (ibuf i)"]
    by (simp add: input_ready_def)
  then show q: "input_ready (i\<lparr>input_r := input_r i + 1\<rparr>) = q" using r by simp
  show l: "input_line (i\<lparr>input_r := input_r i + 1\<rparr>) = input_line i" by (simp add: input_line_def)
  show "input_ok (i\<lparr>input_r := input_r i + 1\<rparr>)"
    using ok unfolding input_ok_def q l r by auto
qed

definition read_end :: "kst \<Rightarrow> kst \<Rightarrow> byte list \<Rightarrow> bool" where
  "read_end s t q \<longleftrightarrow> input_ok (input (cons t)) \<and> tty_of t = (tty_of s)\<lparr>tty_ready := q\<rparr> \<and>
     ptable t = ptable s \<and> locks t = (locks s)(ConsLock := free_lock) \<and> cpu t = pop_cpu (cpu s)"

definition took :: "kst \<Rightarrow> kst" where
  "took s = upd_input (\<lambda>i. i\<lparr>input_r := input_r i + 1\<rparr>) s"

lemma took_sel [simp]:
  "cpu (took s) = cpu s" "locks (took s) = locks s" "ptable (took s) = ptable s"
  "input (cons (took s)) = (input (cons s))\<lparr>input_r := input_r (input (cons s)) + 1\<rparr>"
  "get_proc p (took s) = get_proc p s" "intr_env (took s) = intr_env s"
  by (simp_all add: took_def upd_input_def get_proc_def intr_env_def)

lemma tty_of_took:
  assumes "input_ok (input (cons s))" "tty_ready (tty_of s) = c # q"
  shows "tty_of (took s) = (tty_of s)\<lparr>tty_ready := q\<rparr>"
  using input_get [OF assms(1)] assms(2) by (simp add: tty_of_def took_def upd_input_def)

definition read_step :: "byte \<Rightarrow> nat \<Rightarrow> byte list \<Rightarrow> (int \<times> byte list, kst) kop" where
  "read_step c n got =
    (if c = 4 then oseq (kwhen (got \<noteq> []) (modify (upd_input (\<lambda>i. i\<lparr>input_r := input_r i - 1\<rparr>))))
         (oseq (release ConsLock) (ret (int (length got), got)))
     else if c = 10 then oseq (release ConsLock) (ret (int (length got) + 1, got @ [c]))
     else consoleread_loop n (got @ [c]))"

lemma consoleread_loop_step:
  assumes ok: "input_ok (input (cons s))" and r: "tty_ready (tty_of s) = c # q"
  shows "wp (consoleread_loop (Suc n) got) Q s = wp (read_step c n got) Q (took s)"
    and "wps (consoleread_loop (Suc n) got) R s = wps (read_step c n got) R (took s)"
proof -
  have "input_r (input (cons s)) \<noteq> input_w (input (cons s))"
    using input_ok_sel(5) [OF ok] r by simp
  moreover have "ibuf (input (cons s)) ! in_idx (input_r (input (cons s))) = c"
    using input_get(1) [OF ok] r by simp
  ultimately have "consoleread_loop (Suc n) got s = read_step c n got (took s)"
    by (simp add: consoleread_loop.simps kop_defs took_def Let_def read_step_def)
  then show "wp (consoleread_loop (Suc n) got) Q s = wp (read_step c n got) Q (took s)"
    and "wps (consoleread_loop (Suc n) got) R s = wps (read_step c n got) R (took s)"
    by (simp_all add: wp_def wps_def)
qed

lemma wp_consoleread_loop:
  assumes "intr_env s" "input_ok (input (cons s))" "tty_read n got (tty_ready (tty_of s)) = Some (out, q)"
  shows "wp (consoleread_loop n got) (\<lambda>r t. r = (int (length out), out) \<and> read_end s t q) s"
  using assms
proof (induction n arbitrary: s got)
  case 0
  then show ?case
    by (auto simp: consoleread_loop.simps wp_rules intr_env_def holding_def cpu_ok_def read_end_def tty_of_def)
next
  case (Suc n)
  then obtain c q' where r: "tty_ready (tty_of s) = c # q'"
    by (cases "tty_ready (tty_of s)") auto
  note step = consoleread_loop_step(1) [OF Suc.prems(2) r] read_step_def
  note took = tty_of_took [OF Suc.prems(2) r] input_get(4) [OF Suc.prems(2)]
  have env: "holding ConsLock (took s)" "\<not> eflags_if (cpu s)" "1 \<le> ncli (cpu s)"
    using Suc.prems(1) by (auto simp: intr_env_def holding_def cpu_ok_def)
  show ?case
  proof (cases "c = 4 \<or> c = 10")
    case True
    then show ?thesis
      using Suc.prems(2,3) r took env unfolding step
      by (auto simp: wp_rules read_end_def upd_input_def tty_of_def took_def split: if_splits)
  next
    case False
    have "wp (consoleread_loop n (got @ [c])) (\<lambda>r t. r = (int (length out), out) \<and> read_end (took s) t q) (took s)"
      using Suc.IH [of "took s" "got @ [c]"] Suc.prems False r took by simp
    then show ?thesis
      using False took(1) unfolding step by (simp add: read_end_def) 
  qed
qed

text \<open>A reader that finds too little either goes to sleep or, when killed, gives up.\<close>

definition reader :: "nat \<Rightarrow> kst \<Rightarrow> bool" where
  "reader p s \<longleftrightarrow> curproc (cpu s) = Some p \<and> p < length (procs (ptable s))"

definition read_blocks :: "nat \<Rightarrow> kst \<Rightarrow> kst \<Rightarrow> bool" where
  "read_blocks p s t \<longleftrightarrow> input_ok (input (cons t)) \<and>
     tty_of t = (tty_of s)\<lparr>tty_ready := [], tty_waiting := True\<rparr> \<and> awaits_input (get_proc p t) \<and>
     locks t = (locks s)(ConsLock := free_lock, PtableLock := held_lock)"

lemma cons_upd_proc [simp]: "cons (upd_proc i f s) = cons s"
  by (simp add: upd_proc_def)

lemma tty_of_asleep:
  assumes "p < length (procs (ptable s))"
  shows "tty_of (upd_proc p (\<lambda>q. q\<lparr>pchan := Some ChInput, pstate := SLEEPING\<rparr>) (s\<lparr>locks := l, cpu := c\<rparr>))
      = (tty_of s)\<lparr>tty_waiting := True\<rparr>"
proof -
  have "\<exists>q \<in> set ((procs (ptable s))[p := x]). awaits_input q" if "awaits_input x" for x
    using assms that set_update_memI by fastforce
  then show ?thesis
    by (simp add: tty_of_def upd_proc_def awaits_input_def)
qed

lemma wps_consoleread_loop:
  assumes "intr_env s" "ncli (cpu s) = 1" "reader p s" "input_ok (input (cons s))"
    and "tty_read n got (tty_ready (tty_of s)) = None"
  shows "if killed (get_proc p s) then wp (consoleread_loop n got) (\<lambda>r t. fst r = -1 \<and> read_end s t []) s
     else wps (consoleread_loop n got) (read_blocks p s) s"
  using assms
proof (induction n arbitrary: s got)
  case (Suc n)
  have env: "holding ConsLock s" "\<not> eflags_if (cpu s)" "1 \<le> ncli (cpu s)" "locks s PtableLock = free_lock"
    "curproc (cpu s) = Some p" "p < length (procs (ptable s))"
    using Suc.prems(1,3) by (auto simp: intr_env_def holding_def cpu_ok_def reader_def)
  show ?case
  proof (cases "tty_ready (tty_of s)")
    case Nil
    then have r: "input_r (input (cons s)) = input_w (input (cons s))"
      using input_ok_sel(5) [OF Suc.prems(4)] by simp
    moreover have "tty_of s = (tty_of s)\<lparr>tty_ready := []\<rparr>" using Nil by (simp add: tty_of_def)
    ultimately have "wps (sleep ChInput (Some ConsLock)) (read_blocks p s) s"
      using Suc.prems(4) env(6)
      by (intro wps_mono [OF sleep_gives_up [OF env(5,6) _ env(1,4) Suc.prems(2) env(2)]])
        (simp_all add: read_blocks_def tty_of_asleep awaits_input_def)
    then show ?thesis
      using Nil r env Suc.prems(4)
      by (auto simp: consoleread_loop.simps wp_rules wps_rules read_end_def tty_of_def)
  next
    case (Cons c q)
    note step = consoleread_loop_step [OF Suc.prems(4) Cons] read_step_def
    have c: "c \<noteq> 4" "c \<noteq> 10" and none: "tty_read n (got @ [c]) q = None"
      using Suc.prems(5) Cons by (auto split: if_splits)
    have "if killed (get_proc p s) then wp (consoleread_loop n (got @ [c])) (\<lambda>r t. fst r = -1 \<and> read_end (took s) t []) (took s)
        else wps (consoleread_loop n (got @ [c])) (read_blocks p (took s)) (took s)"
      using Suc.IH [of "took s" "got @ [c]"] Suc.prems none Cons tty_of_took [OF Suc.prems(4) Cons] input_get(4) [OF Suc.prems(4)]
      by (simp add: reader_def)
    moreover have "read_end (took s) = read_end s" "read_blocks p (took s) = read_blocks p s"
      using tty_of_took [OF Suc.prems(4) Cons] by (simp_all add: fun_eq_iff read_end_def read_blocks_def)
    ultimately show ?thesis
      using c unfolding step by (simp split: if_splits)
  qed
qed simp

definition wanted :: "u32 \<Rightarrow> nat" where
  "wanted n = (if 0 < sint n then unat n else 0)"

lemma wp_consoleread:
  assumes "console_idle s" "reader p s" "input_ok (input (cons s))" "ncli (cpu s) = 0"
  shows "case tty_read (wanted n) [] (tty_ready (tty_of s)) of
      Some (out, q) \<Rightarrow> wp (consoleread ip n) (\<lambda>r t. r = (int (length out), out) \<and> console_idle t \<and>
        input_ok (input (cons t)) \<and> tty_of t = (tty_of s)\<lparr>tty_ready := q\<rparr>) s
    | None \<Rightarrow> if killed (get_proc p s)
        then wp (consoleread ip n) (\<lambda>r t. fst r = -1 \<and> console_idle t \<and> input_ok (input (cons t)) \<and>
          tty_of t = (tty_of s)\<lparr>tty_ready := []\<rparr>) s
        else wps (consoleread ip n) (read_blocks p s) s"
proof -
  let ?s = "s\<lparr>cpu := push_cpu (cpu s), locks := (locks s)(ConsLock := held_lock)\<rparr>"
  have env: "intr_env ?s" "input_ok (input (cons ?s))" "tty_of ?s = tty_of s" "ncli (cpu ?s) = 1" "reader p ?s"
    using assms by (auto simp: console_idle_def intr_env_def tty_of_def cpu_ok_def reader_def)
  have lp: "consoleread ip n = oseq (acquire ConsLock) (consoleread_loop (wanted n) [])"
    by (simp add: consoleread_def wanted_def consoleread_loop.simps(1))
  have fin: "console_idle t \<and> input_ok (input (cons t)) \<and> tty_of t = (tty_of s)\<lparr>tty_ready := q\<rparr>" if "read_end ?s t q" for t q
    using that assms(1) env(3) by (auto simp: read_end_def console_idle_def)
  have blk: "read_blocks p s t" if "read_blocks p ?s t" for t
    using that env(3) by (simp add: read_blocks_def)
  have free: "\<not> locked (locks s ConsLock)" using assms(1) by (simp add: console_idle_def)
  show ?thesis
  proof (cases "tty_read (wanted n) [] (tty_ready (tty_of s))")
    case None
    then show ?thesis
      using wps_consoleread_loop [OF env(1,4,5,2), of "wanted n" "[]"] env(3) free
      unfolding lp by (auto simp: wp_oseq wp_acquire wps_rules split: if_splits elim!: wp_mono wps_mono dest: fin blk)
  next
    case (Some a)
    then show ?thesis
      using wp_consoleread_loop [OF env(1,2), of "wanted n" "[]"] env(3) free
      unfolding lp by (auto simp: wp_oseq wp_acquire split: prod.splits elim!: wp_mono dest: fin)
  qed
qed

section \<open>Properties\<close>

lemma decode_uart: "decode (uart_code u) k bs = (if u then map uint bs else [])"
  by (induction bs) (auto simp: uart_code_def)

text \<open>C7: the circular input buffer implements a terminal.  When the console's lock and the
  process-table lock are free and the buffer's indices are in order, the keyboard interrupt and the serial interrupt feed
  the characters they decode, one after the other, to the terminal: control-U and backspace erase
  only the line being edited, a character is dropped only when the buffer is full, and end of line,
  control-D or a full buffer commits the line and leaves no process asleep for input; the only
  other output is the process listing after control-P.  A read returns exactly the bytes that the
  terminal has ready, up to the first end of line or control-D (which stays for the next read unless
  it comes first); with too few of them it sleeps, with nothing left to read and the console's lock
  free, or returns -1 when the process was killed.\<close>

theorem console_line_discipline:
  assumes "console_idle s" "input_ok (input (cons s))"
  shows "wp (kbdintr pcs bs) (\<lambda>_. typed (decode kbd_code (kbd_shift (cons s)) bs) s) s \<and>
    wp (uartintr pcs bs) (\<lambda>_. typed (if uart (cons s) then map uint bs else []) s) s \<and>
    (reader p s \<and> ncli (cpu s) = 0 \<longrightarrow>
      (case tty_read (wanted n) [] (tty_ready (tty_of s)) of
        Some (out, q) \<Rightarrow> wp (consoleread ip n) (\<lambda>r t. r = (int (length out), out) \<and> console_idle t \<and>
          input_ok (input (cons t)) \<and> tty_of t = (tty_of s)\<lparr>tty_ready := q\<rparr>) s
      | None \<Rightarrow> if killed (get_proc p s)
          then wp (consoleread ip n) (\<lambda>r t. fst r = -1 \<and> console_idle t \<and> input_ok (input (cons t)) \<and>
            tty_of t = (tty_of s)\<lparr>tty_ready := []\<rparr>) s
          else wps (consoleread ip n) (read_blocks p s) s))"
  using keyboard.consoleintr_types [OF assms] serial.consoleintr_types [OF assms] wp_consoleread [OF assms(1) _ assms(2)]
  unfolding kbdintr_def uartintr_def keyboard.chars_def serial.chars_def decode_uart by blast

text \<open>A machine with a serial line and one process, which has nothing to read.\<close>

definition demo_tty :: kst where
  "demo_tty = demo_run\<lparr>cons := (cons demo_run)\<lparr>uart := True\<rparr>\<rparr>"

theorem console_line_discipline_witness:
  "wp (uartintr (\<lambda>_. []) [97, 98, 8, 99, 13]) (\<lambda>_ t. tty_ready (tty_of t) = [97, 99, 10] \<and> tty_line (tty_of t) = []) demo_tty \<and>
   wps (consoleread (INode 0) 5) (read_blocks 0 demo_tty) demo_tty"
proof -
  have "ibuf (input (cons demo_tty)) = replicate 128 0" "input_r (input (cons demo_tty)) = 0"
    "input_w (input (cons demo_tty)) = 0" "input_e (input (cons demo_tty)) = 0"
    by (simp_all add: demo_tty_def demo_run_def zero_kst_def)
  then have ok: "input_ok (input (cons demo_tty))" and d: "tty_ready (tty_of demo_tty) = []" "tty_line (tty_of demo_tty) = []"
    by (simp_all add: input_ok_def input_ready_def input_line_def INPUT_BUF_def)
  have env: "console_idle demo_tty" "uart (cons demo_tty)" "reader 0 demo_tty" "ncli (cpu demo_tty) = 0"
    "\<not> killed (get_proc 0 demo_tty)"
    by (simp_all add: console_idle_def demo_tty_def demo_run_def reader_def cpu_ok_def zero_kst_def get_proc_def zero_proc_def free_lock_def)
  note * = console_line_discipline [OF env(1) ok, where pcs = "\<lambda>_. []" and bs = "[97, 98, 8, 99, 13]" and p = 0 and n = 5 and ip = "INode 0"]
  have "sint (5 :: u32) = 5" "unat (5 :: u32) = 5" by simp_all
  then have "wanted 5 = Suc 4" by (simp add: wanted_def)
  then have "tty_read (wanted 5) [] [] = None" by (simp only: tty_read.simps)
  then have "wps (consoleread (INode 0) 5) (read_blocks 0 demo_tty) demo_tty"
    using * env d(1) by simp
  moreover have "wp (uartintr (\<lambda>_. []) [97, 98, 8, 99, 13]) (\<lambda>_ t. tty_ready (tty_of t) = [97, 99, 10] \<and> tty_line (tty_of t) = []) demo_tty"
  proof (rule wp_mono)
    show "wp (uartintr (\<lambda>_. []) [97, 98, 8, 99, 13]) (\<lambda>_. typed [97, 98, 8, 99, 13] demo_tty) demo_tty"
      using * env(2) by simp
  qed (use d in \<open>auto simp: typed_def Let_def tty_type_def tty_enter_def tty_rubout_def INPUT_BUF_def simp del: tty_of_sel\<close>)
  ultimately show ?thesis by blast
qed



end
