(* ===== verification/Umalloc.thy ===== *)
theory Umalloc
  imports Kstate
begin

text \<open>
  The memory allocator of user programs (\<open>user/lib/umalloc.c\<close>, after Kernighan and Ritchie): a
  circular list of free blocks in address order, searched first fit; neighbouring free blocks are
  joined again on \<open>free\<close>.

  Addresses are numbers of bytes and a header takes 16 bytes; \<open>uptr\<close> and \<open>usize\<close> are the two fields
  of the header at an address, the size in units of a header as the 32-bit number of the code.
  \<open>sbrk\<close> is an argument: it takes a signed number of bytes and the state \<open>env\<close> of the rest of the
  system and gives the address of new memory, or \<open>None\<close> for its result -1.  The two loops have fuel.
\<close>

section \<open>The allocator\<close>

record 'e um =
  uptr :: "nat \<Rightarrow> nat"
  usize :: "nat \<Rightarrow> u32"
  freep :: nat
  um_base :: nat
  env :: 'e

type_synonym 'e sbrk = "int \<Rightarrow> 'e \<Rightarrow> nat option \<times> 'e"

definition units :: "u32 \<Rightarrow> nat" where
  "units n = 16 * unat n"

fun free_find :: "nat \<Rightarrow> nat \<Rightarrow> nat \<Rightarrow> (nat, 'e um) kop" where
  "free_find 0 bp p = hang"
| "free_find (Suc k) bp p =
     obind (gets (\<lambda>s. uptr s p)) (\<lambda>q.
     if p < bp \<and> bp < q then ret p
     else if q \<le> p \<and> (p < bp \<or> bp < q) then ret p
     else free_find k bp q)"

definition free_at :: "nat \<Rightarrow> nat \<Rightarrow> 'e um \<Rightarrow> 'e um" where
  "free_at bp p s =
     (let q = uptr s p;
          s = (if bp + units (usize s bp) = q
               then s\<lparr>usize := (usize s)(bp := usize s bp + usize s q), uptr := (uptr s)(bp := uptr s q)\<rparr>
               else s\<lparr>uptr := (uptr s)(bp := q)\<rparr>);
          s = (if p + units (usize s p) = bp
               then s\<lparr>usize := (usize s)(p := usize s p + usize s bp), uptr := (uptr s)(p := uptr s bp)\<rparr>
               else s\<lparr>uptr := (uptr s)(p := bp)\<rparr>)
      in s\<lparr>freep := p\<rparr>)"

definition ufree :: "nat \<Rightarrow> nat \<Rightarrow> (unit, 'e um) kop" where
  "ufree fuel ap =
     (let bp = ap - 16 in
      obind (gets freep) (\<lambda>p.
      obind (free_find fuel bp p) (\<lambda>p. modify (free_at bp p))))"

definition call_sbrk :: "'e sbrk \<Rightarrow> int \<Rightarrow> (nat option, 'e um) kop" where
  "call_sbrk sbrk n =
     obind (gets (\<lambda>s. sbrk n (env s))) (\<lambda>(r, e).
     oseq (modify (\<lambda>s. s\<lparr>env := e\<rparr>)) (ret r))"

definition morecore :: "nat \<Rightarrow> 'e sbrk \<Rightarrow> u32 \<Rightarrow> (nat, 'e um) kop" where
  "morecore fuel sbrk nu =
     (let nu = (if nu < 4096 then 4096 else nu) in
      obind (call_sbrk sbrk (sint (nu * 16))) (\<lambda>r.
      case r of
        None \<Rightarrow> ret 0
      | Some hp \<Rightarrow>
          oseq (modify (\<lambda>s. s\<lparr>usize := (usize s)(hp := nu)\<rparr>)) (
          oseq (ufree fuel (hp + 16))
            (gets freep))))"

definition nunits :: "u32 \<Rightarrow> u32" where
  "nunits nbytes = ucast (((ucast nbytes :: u64) + 16 - 1) div 16 + 1)"

text \<open>The loop found a block of at least \<open>nu\<close> units at \<open>p\<close>; the result is its header.\<close>

definition take_block :: "u32 \<Rightarrow> nat \<Rightarrow> nat \<Rightarrow> (nat, 'e um) kop" where
  "take_block nu prevp p =
     obind (gets (\<lambda>s. usize s p)) (\<lambda>n.
     obind (if n = nu
            then oseq (modify (\<lambda>s. s\<lparr>uptr := (uptr s)(prevp := uptr s p)\<rparr>)) (ret p)
            else let p' = p + units (n - nu) in
                 oseq (modify (\<lambda>s. s\<lparr>usize := (usize s)(p := n - nu, p' := nu)\<rparr>)) (ret p')) (\<lambda>p.
     oseq (modify (\<lambda>s. s\<lparr>freep := prevp\<rparr>)) (ret p)))"

fun malloc_loop :: "nat \<Rightarrow> nat \<Rightarrow> 'e sbrk \<Rightarrow> u32 \<Rightarrow> nat \<Rightarrow> nat \<Rightarrow> (nat, 'e um) kop" where
  "malloc_loop 0 fuel sbrk nu prevp p = hang"
| "malloc_loop (Suc k) fuel sbrk nu prevp p =
     obind (gets (\<lambda>s. usize s p)) (\<lambda>n.
     if nu \<le> n then obind (take_block nu prevp p) (\<lambda>p. ret (p + 16))
     else
       obind (gets freep) (\<lambda>f.
       obind (if p = f then morecore fuel sbrk nu else ret p) (\<lambda>p'.
       if p = f \<and> p' = 0 then ret 0
       else obind (gets (\<lambda>s. uptr s p')) (malloc_loop k fuel sbrk nu p'))))"

definition malloc :: "nat \<Rightarrow> 'e sbrk \<Rightarrow> u32 \<Rightarrow> (nat, 'e um) kop" where
  "malloc fuel sbrk nbytes =
     oseq (modify (\<lambda>s. if freep s = 0
       then s\<lparr>uptr := (uptr s)(um_base s := um_base s), freep := um_base s, usize := (usize s)(um_base s := 0)\<rparr>
       else s)) (
     obind (gets freep) (\<lambda>prevp.
     obind (gets (\<lambda>s. uptr s prevp)) (\<lambda>p.
     malloc_loop fuel fuel sbrk (nunits nbytes) prevp p)))"

section \<open>Lists of blocks\<close>

text \<open>Following the pointers \<open>f\<close> from \<open>p\<close> visits \<open>xs\<close>.\<close>

fun path :: "(nat \<Rightarrow> nat) \<Rightarrow> nat \<Rightarrow> nat list \<Rightarrow> bool" where
  "path f p [] = True"
| "path f p (x # xs) = (f p = x \<and> path f x xs)"

lemma path_append: "path f p (xs @ ys) \<longleftrightarrow> path f p xs \<and> path f (last (p # xs)) ys"
  by (induction xs arbitrary: p) auto

lemma path_upd: "x \<notin> set (butlast (p # xs)) \<Longrightarrow> path (f(x := v)) p xs = path f p xs"
  by (induction xs arbitrary: p) (auto split: if_splits)

lemma path_start: "f p = f q \<Longrightarrow> path f p xs = path f q xs"
  by (cases xs) auto

text \<open>A block is an address and a number of units.  The blocks of a free list are not empty, in
  address order above \<open>lo\<close>, and never touch.\<close>

type_synonym blk = "nat \<times> nat"

definition block :: "blk \<Rightarrow> nat set" where
  "block b = {fst b..<fst b + 16 * snd b}"

definition bytes :: "blk list \<Rightarrow> nat set" where
  "bytes bs = (\<Union>b \<in> set bs. block b)"

lemma bytes_simps [simp]:
  "bytes [] = {}" "bytes (b # bs) = block b \<union> bytes bs" "bytes (xs @ ys) = bytes xs \<union> bytes ys"
  by (auto simp: bytes_def)

fun spaced :: "nat \<Rightarrow> blk list \<Rightarrow> bool" where
  "spaced lo [] = True"
| "spaced lo ((a, n) # bs) = (lo < a \<and> 0 < n \<and> spaced (a + 16 * n) bs)"

fun endp :: "nat \<Rightarrow> blk list \<Rightarrow> nat" where
  "endp lo [] = lo"
| "endp lo ((a, n) # bs) = endp (a + 16 * n) bs"

lemma spaced_append: "spaced lo (xs @ ys) \<longleftrightarrow> spaced lo xs \<and> spaced (endp lo xs) ys"
  by (induction lo xs rule: spaced.induct) auto

lemma endp_snoc [simp]: "endp lo (xs @ [(a, n)]) = a + 16 * n"
  by (induction lo xs rule: endp.induct) auto

lemma endp_append: "endp lo (xs @ ys) = endp (endp lo xs) ys"
  by (induction lo xs rule: endp.induct) auto

lemma endp_ge: "spaced lo xs \<Longrightarrow> lo \<le> endp lo xs"
  by (induction lo xs rule: spaced.induct) auto

lemma spaced_weaken: "spaced lo xs \<Longrightarrow> l \<le> lo \<Longrightarrow> spaced l xs"
  by (cases xs) auto

lemma spaced_mem:
  "spaced lo xs \<Longrightarrow> (a, n) \<in> set xs \<Longrightarrow> lo < a \<and> 0 < n \<and> a + 16 * n \<le> endp lo xs"
proof (induction lo xs rule: spaced.induct)
  case (2 lo b k bs)
  then show ?case using endp_ge [of "b + 16 * k" bs] by fastforce
qed simp

lemma spaced_inj: "spaced lo xs \<Longrightarrow> (a, n) \<in> set xs \<Longrightarrow> (a, k) \<in> set xs \<Longrightarrow> n = k"
  by (induction lo xs rule: spaced.induct) (auto dest: spaced_mem)

lemma spaced_distinct: "spaced lo xs \<Longrightarrow> distinct (map fst xs)"
  by (induction lo xs rule: spaced.induct) (auto dest: spaced_mem)

definition segment :: "'e um \<Rightarrow> nat \<Rightarrow> blk list \<Rightarrow> nat \<Rightarrow> bool" where
  "segment s p xs z \<longleftrightarrow> path (uptr s) p (map fst xs @ [z]) \<and> (\<forall>(a, n) \<in> set xs. unat (usize s a) = n)"

lemma segment_Nil [simp]: "segment s p [] z \<longleftrightarrow> uptr s p = z"
  by (simp add: segment_def)

lemma segment_Cons [simp]:
  "segment s p ((a, n) # xs) z \<longleftrightarrow> uptr s p = a \<and> unat (usize s a) = n \<and> segment s a xs z"
  by (auto simp: segment_def)

lemma segment_append [simp]:
  "segment s p (xs @ (a, n) # ys) z \<longleftrightarrow> segment s p xs a \<and> unat (usize s a) = n \<and> segment s a ys z"
  by (induction xs arbitrary: p) auto

lemma segment_start: "uptr s p = uptr s q \<Longrightarrow> segment s p xs z = segment s q xs z"
  by (cases xs) auto

lemma segment_frame:
  assumes "\<And>a. a = p \<or> a \<in> fst ` set xs \<Longrightarrow> uptr t a = uptr s a" "\<And>a. a \<in> fst ` set xs \<Longrightarrow> usize t a = usize s a"
  shows "segment t p xs z = segment s p xs z"
  using assms
proof (induction xs arbitrary: p)
  case (Cons b xs)
  then show ?case by (cases b) (simp add: Cons.IH)
qed simp

text \<open>The last pointer of a segment may be changed.\<close>

lemma segment_redirect:
  assumes "segment s p xs z" "distinct (p # map fst xs)"
    and "\<And>a. a = p \<or> a \<in> fst ` set xs \<Longrightarrow> a \<noteq> last (p # map fst xs) \<Longrightarrow> uptr t a = uptr s a"
    and "\<And>a. a \<in> fst ` set xs \<Longrightarrow> usize t a = usize s a" "uptr t (last (p # map fst xs)) = y"
  shows "segment t p xs y"
  using assms
proof (induction xs arbitrary: p)
  case (Cons b xs)
  obtain a n where b: "b = (a, n)" by fastforce
  have l: "last (p # map fst (b # xs)) = last (a # map fst xs)" by (simp add: b)
  have "last (a # map fst xs) \<in> set (a # map fst xs)" by (rule last_in_set) simp
  moreover have "p \<notin> set (a # map fst xs)" using Cons.prems(2) by (simp add: b)
  ultimately have "p \<noteq> last (a # map fst xs)" by metis
  then have "uptr t p = a" using Cons.prems(1) Cons.prems(3) [of p] unfolding l by (simp add: b)
  moreover have "segment t a xs y"
    using Cons.IH [of a] Cons.prems unfolding l by (auto simp: b)
  ultimately show ?case
    using Cons.prems(1,4) by (simp add: b)
qed simp

section \<open>The free list\<close>

definition MAXADDR :: nat where "MAXADDR = 2 ^ 31"

definition flist :: "'e um \<Rightarrow> blk list \<Rightarrow> bool" where
  "flist s bs \<longleftrightarrow> segment s (um_base s) bs (um_base s) \<and> spaced (um_base s + 15) bs \<and>
     endp (um_base s + 15) bs \<le> MAXADDR \<and> usize s (um_base s) = 0 \<and> 0 < um_base s \<and>
     freep s \<in> insert (um_base s) (fst ` set bs)"

subsection \<open>Inserting a block\<close>

text \<open>The new block \<open>b\<close> and the free blocks after it, joined when they touch; then the free blocks
  before it.\<close>

fun join_next :: "blk \<Rightarrow> blk list \<Rightarrow> blk list" where
  "join_next b [] = [b]"
| "join_next (b, n) ((q, k) # zs) = (if b + 16 * n = q then (b, n + k) # zs else (b, n) # (q, k) # zs)"

fun join_prev :: "blk list \<Rightarrow> blk list \<Rightarrow> blk list" where
  "join_prev [] ys = ys"
| "join_prev [(a, n)] ((b, k) # ys) = (if a + 16 * n = b then (a, n + k) # ys else (a, n) # (b, k) # ys)"
| "join_prev (x # xs) ys = x # join_prev xs ys"

lemma join_prev_snoc:
  "join_prev (xs @ [(a, n)]) ((b, k) # ys) = xs @ (if a + 16 * n = b then (a, n + k) # ys else (a, n) # (b, k) # ys)"
proof (induction xs)
  case (Cons x xs)
  then show ?case by (cases xs) auto
qed simp

lemma block_join: "a + 16 * n = b \<Longrightarrow> block (a, n + k) = block (a, n) \<union> block (b, k)"
  by (auto simp: block_def)

lemma join_next_ne: "join_next b ys \<noteq> []"
  by (induction b ys rule: join_next.induct) auto

lemma bytes_join_next: "bytes (join_next b ys) = block b \<union> bytes ys"
  by (induction b ys rule: join_next.induct) (auto simp: block_join)

lemma bytes_join_prev: "ys \<noteq> [] \<Longrightarrow> bytes (join_prev xs ys) = bytes xs \<union> bytes ys"
  by (induction xs ys rule: join_prev.induct) (auto simp: block_join)

text \<open>Where a new block \<open>(bp, n)\<close> fits between the free blocks \<open>xs\<close> and \<open>ys\<close>.\<close>

definition fits :: "nat \<Rightarrow> blk list \<Rightarrow> nat \<Rightarrow> nat \<Rightarrow> blk list \<Rightarrow> bool" where
  "fits lo xs bp n ys \<longleftrightarrow> 0 < n \<and> (if xs = [] then lo < bp else endp lo xs \<le> bp) \<and>
     (ys = [] \<or> bp + 16 * n \<le> fst (hd ys)) \<and> bp + 16 * n \<le> MAXADDR"

lemma spaced_join_next:
  assumes "spaced e ys" "0 < n" "l < bp" "ys = [] \<or> bp + 16 * n \<le> fst (hd ys)"
  shows "spaced l (join_next (bp, n) ys)"
  using assms by (cases ys) (auto simp: add.assoc)

lemma endp_join_next: "ys \<noteq> [] \<Longrightarrow> endp l (join_next (bp, n) ys) = endp l' ys"
  by (cases ys) (auto simp: algebra_simps)

definition free_next :: "nat \<Rightarrow> nat \<Rightarrow> 'e um \<Rightarrow> 'e um" where
  "free_next bp q s =
     (if bp + units (usize s bp) = q
      then s\<lparr>usize := (usize s)(bp := usize s bp + usize s q), uptr := (uptr s)(bp := uptr s q)\<rparr>
      else s\<lparr>uptr := (uptr s)(bp := q)\<rparr>)"

definition free_prev :: "nat \<Rightarrow> nat \<Rightarrow> 'e um \<Rightarrow> 'e um" where
  "free_prev bp p s =
     (if p + units (usize s p) = bp
      then s\<lparr>usize := (usize s)(p := usize s p + usize s bp), uptr := (uptr s)(p := uptr s bp), freep := p\<rparr>
      else s\<lparr>uptr := (uptr s)(p := bp), freep := p\<rparr>)"

lemma free_at_steps: "free_at bp p s = free_prev bp p (free_next bp (uptr s p) s)"
  by (simp add: free_at_def free_next_def free_prev_def Let_def)

lemma unat_plus_small: "unat (a :: u32) + unat b < 2 ^ 32 \<Longrightarrow> unat (a + b) = unat a + unat b"
  by (simp add: unat_word_ariths)

text \<open>First the block is joined with what follows it; \<open>z\<close> is the base, where the list ends.\<close>

lemma segment_free_next:
  assumes seg: "segment s p ys z" and n: "unat (usize s bp) = n" "0 < n" and sp: "spaced e ys"
    and ys: "ys = [] \<or> bp + 16 * n \<le> fst (hd ys)" "endp e ys \<le> MAXADDR" and z: "z < bp"
  shows "\<exists>k zs. join_next (bp, n) ys = (bp, k) # zs \<and> unat (usize (free_next bp (uptr s p) s) bp) = k \<and>
     segment (free_next bp (uptr s p) s) bp zs z \<and> set zs \<subseteq> set ys"
proof (cases ys)
  case Nil
  then show ?thesis using assms by (auto simp: free_next_def units_def)
next
  case (Cons b zs)
  obtain q k where b: "b = (q, k)" by fastforce
  have q: "uptr s p = q" "unat (usize s q) = k" "segment s q zs z" using seg by (auto simp: Cons b)
  have above: "bp < a" if "(a, m) \<in> set ys" for a m
    using that spaced_mem [of "q + 16 * k" zs a m] sp ys(1) n(2) by (auto simp: Cons b)
  then have fr: "bp \<notin> fst ` set zs" "bp \<noteq> q" by (force simp: Cons b)+
  show ?thesis
  proof (cases "bp + 16 * n = q")
    case True
    have "q + 16 * k \<le> MAXADDR" using ys(2) endp_ge [of "q + 16 * k" zs] sp by (simp add: Cons b)
    then have "n + k < 2 ^ 32" using True by (simp add: MAXADDR_def)
    then have "unat (usize s bp + usize s q) = n + k"
      using unat_plus_small [of "usize s bp" "usize s q"] n(1) q(2) by simp
    moreover have "segment (free_next bp q s) bp zs z"
    proof -
      have "segment (free_next bp q s) bp zs z = segment (free_next bp q s) q zs z"
        using fr(2) True n(1) by (intro segment_start) (simp add: free_next_def units_def)
      also have "\<dots> = segment s q zs z"
        using fr by (intro segment_frame) (auto simp: free_next_def)
      finally show ?thesis using q(3) by simp
    qed
    ultimately show ?thesis
      using True q(1) n(1) by (auto simp: Cons b free_next_def units_def)
  next
    case False
    have "segment (free_next bp q s) q zs z = segment s q zs z"
      using fr by (intro segment_frame) (auto simp: free_next_def)
    then show ?thesis
      using False q n(1) fr by (auto simp: Cons b free_next_def units_def)
  qed
qed

lemma segment_split:
  "segment s p (xs @ ys) z \<longleftrightarrow> segment s p xs (uptr s (last (p # map fst xs))) \<and> segment s (last (p # map fst xs)) ys z"
proof (induction xs arbitrary: p)
  case (Cons b xs)
  then show ?case by (cases b) auto
qed simp

text \<open>Then it is joined with what precedes it.\<close>

lemma segment_free_prev:
  assumes seg: "segment s b xs q" "unat (usize s bp) = k" "segment s bp zs b"
    and b: "usize s b = 0" "b < bp" and sp: "spaced (b + 15) xs" "xs \<noteq> [] \<Longrightarrow> endp (b + 15) xs \<le> bp"
    and zs: "spaced (bp + 16 * k) zs" "bp + 16 * k \<le> MAXADDR" and p: "p = last (b # map fst xs)"
  shows "segment (free_prev bp p s) b (join_prev xs ((bp, k) # zs)) b"
proof (cases xs rule: rev_cases)
  case Nil
  then have "segment (free_prev bp p s) bp zs b = segment s bp zs b"
    using b p spaced_mem [OF zs(1)] by (intro segment_frame) (force simp: free_prev_def)+
  then show ?thesis
    using Nil p b seg by (auto simp: free_prev_def units_def)
next
  case (snoc xs' x)
  then obtain m where x: "x = (p, m)" using p by (cases x) auto
  have sp': "spaced (b + 15) xs'" "endp (b + 15) xs' < p" "0 < m" "p + 16 * m \<le> bp"
    using sp by (auto simp: snoc x spaced_append)
  have s: "segment s b xs' p" "unat (usize s p) = m" "uptr s p = q" using seg(1) by (auto simp: snoc x)
  have above: "\<And>a n. (a, n) \<in> set zs \<Longrightarrow> p < a" using spaced_mem [OF zs(1)] sp'(3,4) by fastforce
  have below: "\<And>a n. (a, n) \<in> set xs' \<Longrightarrow> a < p" using spaced_mem [OF sp'(1)] sp'(2) by fastforce
  have bp: "b < p" using endp_ge [OF sp'(1)] sp'(2) by simp
  have t: "segment (free_prev bp p s) b xs' p"
    using s(1) below bp segment_frame [of b xs' "free_prev bp p s" s p] by (fastforce simp: free_prev_def)
  have z: "segment (free_prev bp p s) bp zs b"
    using seg(3) above sp'(3,4) segment_frame [of bp zs "free_prev bp p s" s b] by (fastforce simp: free_prev_def)
  show ?thesis
  proof (cases "p + 16 * m = bp")
    case True
    then have "m + k < 2 ^ 32" using zs(2) by (simp add: MAXADDR_def)
    then have "unat (usize (free_prev bp p s) p) = m + k"
      using True s(2) seg(2) unat_plus_small [of "usize s p" "usize s bp"] by (simp add: free_prev_def units_def)
    moreover have "segment (free_prev bp p s) p zs b"
      using z segment_start [of "free_prev bp p s" p bp zs b] True s(2) sp'(3) by (simp add: free_prev_def units_def)
    ultimately show ?thesis using True t by (simp add: snoc x join_prev_snoc)
  next
    case False
    then have "unat (usize (free_prev bp p s) p) = m" "uptr (free_prev bp p s) p = bp" "unat (usize (free_prev bp p s) bp) = k"
      using s(2) seg(2) by (auto simp: free_prev_def units_def)
    then show ?thesis using False t z by (simp add: snoc x join_prev_snoc)
  qed
qed

lemma spaced_join_prev:
  assumes "spaced lo xs" "xs \<noteq> [] \<Longrightarrow> endp lo xs \<le> bp" "lo < bp" "0 < k" "spaced (bp + 16 * k) zs"
  shows "spaced lo (join_prev xs ((bp, k) # zs))" "endp lo (join_prev xs ((bp, k) # zs)) = endp (bp + 16 * k) zs"
    "last (b # map fst xs) \<in> insert b (fst ` set (join_prev xs ((bp, k) # zs)))"
proof -
  have "spaced lo (join_prev xs ((bp, k) # zs)) \<and> endp lo (join_prev xs ((bp, k) # zs)) = endp (bp + 16 * k) zs \<and>
      last (b # map fst xs) \<in> insert b (fst ` set (join_prev xs ((bp, k) # zs)))"
  proof (cases xs rule: rev_cases)
    case (snoc xs' x)
    then show ?thesis using assms
      by (cases x) (auto simp: join_prev_snoc spaced_append add.assoc [symmetric] distrib_left endp_append)
  qed (use assms in auto)
  then show "spaced lo (join_prev xs ((bp, k) # zs))" "endp lo (join_prev xs ((bp, k) # zs)) = endp (bp + 16 * k) zs"
    "last (b # map fst xs) \<in> insert b (fst ` set (join_prev xs ((bp, k) # zs)))"
    by blast+
qed

lemma free_steps_sel [simp]:
  "um_base (free_next bp q s) = um_base s" "um_base (free_prev bp p s) = um_base s"
  "env (free_next bp q s) = env s" "env (free_prev bp p s) = env s" "freep (free_prev bp p s) = p"
  "a \<noteq> bp \<Longrightarrow> uptr (free_next bp q s) a = uptr s a" "a \<noteq> bp \<Longrightarrow> usize (free_next bp q s) a = usize s a"
  "a \<noteq> p \<Longrightarrow> usize (free_prev bp p s) a = usize s a"
  by (simp_all add: free_next_def free_prev_def)

lemma flist_free_at:
  assumes fl: "flist s (xs @ ys)" and n: "unat (usize s bp) = n" and fit: "fits (um_base s + 15) xs bp n ys"
    and p: "p = last (um_base s # map fst xs)"
  shows "flist (free_at bp p s) (join_prev xs (join_next (bp, n) ys))"
proof -
  let ?b = "um_base s" and ?q = "uptr s p"
  let ?s = "free_next bp ?q s"
  note fits = fit [unfolded fits_def]
  have seg: "segment s ?b xs ?q" "segment s p ys ?b" and sp: "spaced (?b + 15) xs" "spaced (endp (?b + 15) xs) ys"
    and b: "usize s ?b = 0" "0 < ?b"
    using fl by (auto simp: flist_def p segment_split spaced_append)
  have e: "endp (endp (?b + 15) xs) ys \<le> MAXADDR"
    using fl by (simp add: flist_def endp_append)
  have lo: "?b + 15 < bp" using fits spaced_mem [OF sp(1), of "fst (hd xs)" "snd (hd xs)"] by (auto split: if_splits)
  obtain k zs where j: "join_next (bp, n) ys = (bp, k) # zs" "unat (usize ?s bp) = k" "segment ?s bp zs ?b"
    using segment_free_next [OF seg(2) n _ sp(2) _ e] fits lo by auto
  have jsp: "spaced (?b + 15) ((bp, k) # zs)"
    using spaced_join_next [OF sp(2), of n "?b + 15" bp] fits lo unfolding j(1) by blast
  have je: "endp (?b + 15) ((bp, k) # zs) \<le> MAXADDR"
    using endp_join_next [of ys "?b + 15" bp n "endp (?b + 15) xs"] e fits j(1) by (cases ys) auto
  have below: "a < bp" if "(a, m) \<in> set xs" for a m
    using spaced_mem [OF sp(1) that] fits that by (auto split: if_splits)
  have "segment ?s ?b xs ?q"
    using seg(1) below lo segment_frame [of ?b xs ?s s ?q] by fastforce
  moreover have "bp + 16 * k \<le> MAXADDR" using je endp_ge [of "bp + 16 * k" zs] jsp by simp
  ultimately have "segment (free_prev bp p ?s) ?b (join_prev xs ((bp, k) # zs)) ?b"
    using segment_free_prev [of ?s ?b xs ?q bp k zs p] j lo b sp jsp fits p by (auto split: if_splits)
  moreover have "usize (free_prev bp p ?s) ?b = 0"
    using b lo p below by (cases xs rule: rev_cases) (auto simp: free_prev_def units_def)
  ultimately show ?thesis
    using spaced_join_prev(1,2) [of "?b + 15" xs bp k zs] spaced_join_prev(3) [of "?b + 15" xs bp k zs ?b] sp(1) jsp je fits lo b p
    by (auto simp: flist_def free_at_steps j(1) split: if_splits)
qed

subsection \<open>Finding the place\<close>

lemma segment_succ:
  assumes "segment s p xs z" "spaced lo xs" "p \<le> lo" "x \<in> insert p (fst ` set xs)"
  shows "if x = last (p # map fst xs) then uptr s x = z else x < uptr s x \<and> uptr s x \<in> fst ` set xs"
  using assms
proof (induction xs arbitrary: p lo)
  case (Cons c xs)
  obtain a n where c: "c = (a, n)" by fastforce
  show ?case
  proof (cases "x = p")
    case True
    have "last (a # map fst xs) \<in> insert a (fst ` set xs)" using last_in_set [of "a # map fst xs"] by auto
    then have "p \<noteq> last (a # map fst xs)"
      using Cons.prems(2,3) spaced_mem [of "a + 16 * n" xs] by (fastforce simp: c)
    then show ?thesis using True Cons.prems by (auto simp: c)
  next
    case False
    then show ?thesis
      using Cons.IH [of a "a + 16 * n"] Cons.prems by (auto simp: c split: if_splits)
  qed
qed simp

definition stop :: "'e um \<Rightarrow> nat \<Rightarrow> nat \<Rightarrow> bool" where
  "stop s bp x \<longleftrightarrow> x < bp \<and> bp < uptr s x \<or> uptr s x \<le> x \<and> (x < bp \<or> bp < uptr s x)"

lemma stop_iff:
  assumes fl: "flist s (xs @ ys)" and fit: "fits (um_base s + 15) xs bp n ys"
    and x: "x \<in> insert (um_base s) (fst ` set (xs @ ys))"
  shows "stop s bp x \<longleftrightarrow> x = last (um_base s # map fst xs)"
proof -
  let ?b = "um_base s" and ?p = "last (um_base s # map fst xs)"
  note fits = fit [unfolded fits_def]
  have seg: "segment s ?b xs (uptr s ?p)" "segment s ?p ys ?b" and sp: "spaced (?b + 15) xs" "spaced (endp (?b + 15) xs) ys"
    using fl by (auto simp: flist_def segment_split spaced_append)
  have lo: "?b + 15 < bp" using fits spaced_mem [OF sp(1), of "fst (hd xs)" "snd (hd xs)"] by (auto split: if_splits)
  have below: "a < bp" if "a \<in> insert ?b (fst ` set xs)" for a
    using spaced_mem [OF sp(1), of a] fits lo that by (fastforce split: if_splits)
  have p: "?p \<in> insert ?b (fst ` set xs)" using last_in_set [of "?b # map fst xs"] by auto
  have ple: "?p \<le> endp (?b + 15) xs"
    using p endp_ge [OF sp(1)] spaced_mem [OF sp(1)] by fastforce
  have above: "bp < a" if a: "a \<in> fst ` set ys" for a
  proof -
    obtain c m zs where ys: "ys = (c, m) # zs" using a by (cases ys) auto
    have "c \<le> a" using a sp(2) spaced_mem [of "c + 16 * m" zs a] by (fastforce simp: ys)
    then show ?thesis using fits by (simp add: ys)
  qed
  consider "x = ?p" | "x \<in> insert ?b (fst ` set xs)" "x \<noteq> ?p" | "x \<in> fst ` set ys" "x \<noteq> ?p" using x by auto
  then show ?thesis
  proof cases
    case 1
    moreover have "uptr s ?p = ?b \<and> ys = [] \<or> uptr s ?p \<in> fst ` set ys" using seg(2) by (cases ys) auto
    moreover have "?b \<le> ?p" using p spaced_mem [OF sp(1)] by fastforce
    ultimately show ?thesis using below [OF p] above [of "uptr s ?p"] by (auto simp: stop_def simp del: last.simps)
  next
    case 2
    then have "x < uptr s x" "uptr s x \<in> fst ` set xs"
      using segment_succ [OF seg(1) sp(1) _ 2(1)] by auto
    then show ?thesis using 2 below [of "uptr s x"] by (auto simp: stop_def)
  next
    case 3
    then have "uptr s x = ?b \<or> x < uptr s x"
      using segment_succ [OF seg(2) sp(2) ple, of x] by (auto split: if_splits)
    then show ?thesis using 3 above [of x] lo by (auto simp: stop_def)
  qed
qed

lemma wp_free_find:
  assumes "path (uptr s) p xs" "t \<in> set (p # xs)" "\<forall>x \<in> set (p # xs). stop s bp x = (x = t)" "length xs < k"
  shows "wp (free_find k bp p) Q s = Q t s"
  using assms
proof (induction xs arbitrary: p k)
  case Nil
  then show ?case by (cases k) (auto simp: wp_rules stop_def)
next
  case (Cons x xs)
  then obtain k' where k: "k = Suc k'" by (cases k) auto
  show ?case
  proof (cases "p = t")
    case True
    then have "stop s bp p" using Cons.prems(3) by simp
    then show ?thesis using True by (auto simp: k wp_rules stop_def)
  next
    case False
    then have "\<not> stop s bp p" using Cons.prems(3) by simp
    then have "wp (free_find k bp p) Q s = wp (free_find k' bp x) Q s"
      using Cons.prems(1) unfolding k free_find.simps stop_def wp_obind wp_gets by auto
    then show ?thesis using Cons False k by auto
  qed
qed

text \<open>The list is circular: from \<open>freep\<close> the pointers visit every free block and come back.\<close>

lemma flist_distinct: "flist s bs \<Longrightarrow> distinct (um_base s # map fst bs)"
  using spaced_distinct spaced_mem by (fastforce simp: flist_def)

lemma flist_cycle:
  assumes "flist s bs"
  obtains R where "path (uptr s) (freep s) (R @ [freep s])" "insert (freep s) (set R) = insert (um_base s) (fst ` set bs)"
    "length R = length bs" "freep s \<notin> set R"
proof (cases "freep s = um_base s")
  case True
  then show ?thesis
    using assms flist_distinct [OF assms] by (intro that [of "map fst bs"]) (auto simp: flist_def segment_def)
next
  case False
  then obtain xs n ys where bs: "bs = xs @ (freep s, n) # ys"
    using assms by (auto simp: flist_def in_set_conv_decomp)
  then show ?thesis
    using assms flist_distinct [OF assms] False
    by (intro that [of "map fst ys @ um_base s # map fst xs"]) (auto simp: flist_def segment_def path_append)
qed

lemma spaced_length: "spaced lo bs \<Longrightarrow> lo + 16 * length bs \<le> endp lo bs"
  by (induction lo bs rule: spaced.induct) auto

lemma flist_length: "flist s bs \<Longrightarrow> length bs < 2 ^ 27"
  using spaced_length [of "um_base s + 15" bs] by (simp add: flist_def MAXADDR_def)

section \<open>The heap\<close>

text \<open>\<open>T\<close> is the memory obtained from the system so far and \<open>live\<close> the blocks handed out: free and
  live blocks are disjoint and together make up \<open>T\<close>.\<close>

definition heap_ok :: "nat set \<Rightarrow> blk set \<Rightarrow> blk list \<Rightarrow> 'e um \<Rightarrow> bool" where
  "heap_ok T live bs s \<longleftrightarrow> flist s bs \<and> bytes bs \<union> (\<Union>b \<in> live. block b) = T \<and>
     (\<forall>b \<in> live. block b \<inter> bytes bs = {}) \<and> (\<forall>b \<in> live. \<forall>c \<in> live. b \<noteq> c \<longrightarrow> block b \<inter> block c = {}) \<and>
     (\<forall>b \<in> live. unat (usize s (fst b)) = snd b \<and> 0 < snd b \<and> um_base s + 15 < fst b \<and> fst b + 16 * snd b \<le> MAXADDR)"

lemma heap_ok_live:
  assumes "heap_ok T live bs s" "(a, n) \<in> live"
  shows "unat (usize s a) = n" "0 < n" "um_base s + 15 < a" "a + 16 * n \<le> MAXADDR" "block (a, n) \<subseteq> T" "block (a, n) \<inter> bytes bs = {}"
  using assms bspec [of live _ "(a, n)"] unfolding heap_ok_def by (fastforce, fastforce, fastforce, fastforce, blast, blast)

lemma heap_ok_disjoint: "heap_ok T live bs s \<Longrightarrow> b \<in> live \<Longrightarrow> c \<in> live \<Longrightarrow> b \<noteq> c \<Longrightarrow> block b \<inter> block c = {}"
  by (simp add: heap_ok_def)

lemma block_start: "0 < n \<Longrightarrow> a \<in> block (a, n)"
  by (simp add: block_def)

lemma find_gap:
  assumes "spaced lo bs" "block (bp, n) \<inter> bytes bs = {}" "0 < n" "lo \<le> bp"
  shows "\<exists>xs ys. bs = xs @ ys \<and> endp lo xs \<le> bp \<and> (ys = [] \<or> bp + 16 * n \<le> fst (hd ys))"
  using assms
proof (induction lo bs rule: spaced.induct)
  case (2 lo a m bs)
  show ?case
  proof (cases "bp < a")
    case True
    have "a \<in> block (a, m)" using 2(2) by (simp add: block_start)
    then have "a \<notin> block (bp, n)" using 2(3) by auto
    then have "bp + 16 * n \<le> a" using True by (simp add: block_def)
    then show ?thesis using 2(5) by (intro exI [of _ "[]"] exI [of _ "(a, m) # bs"]) simp
  next
    case False
    have "bp \<in> block (bp, n)" using 2(4) by (simp add: block_start)
    then have "bp \<notin> block (a, m)" using 2(3) by auto
    then have le: "a + 16 * m \<le> bp" using False by (simp add: block_def)
    obtain xs ys where "bs = xs @ ys" "endp (a + 16 * m) xs \<le> bp" "ys = [] \<or> bp + 16 * n \<le> fst (hd ys)"
      using 2(1) 2(2-4) le by auto
    then show ?thesis by (intro exI [of _ "(a, m) # xs"] exI [of _ ys]) simp
  qed
qed simp

lemma join_next_big: "\<exists>(c, m) \<in> set (join_next (bp, n) ys). n \<le> m"
  by (cases ys) auto

lemma join_prev_big: "(c, m) \<in> set ys \<Longrightarrow> \<exists>(c', m') \<in> set (join_prev xs ys). m \<le> m'"
  by (induction xs ys rule: join_prev.induct) auto

lemma free_at_sel:
  assumes "a \<noteq> bp" "a \<noteq> p"
  shows "usize (free_at bp p s) a = usize s a"
  using assms by (simp add: free_at_steps)

lemma free_at_frame [simp]: "um_base (free_at bp p s) = um_base s" "env (free_at bp p s) = env s" "freep (free_at bp p s) = p"
  by (simp_all add: free_at_steps)

lemma wp_ufree:
  assumes ok: "heap_ok T (insert (a, n) live) bs s" and new: "(a, n) \<notin> live" and fuel: "length bs < fuel - 1"
  shows "wp (ufree fuel (a + 16)) (\<lambda>_ t. env t = env s \<and> um_base t = um_base s \<and>
     (\<exists>bs'. heap_ok T live bs' t \<and> (\<exists>(c, m) \<in> set bs'. n \<le> m))) s"
proof -
  have fl: "flist s bs" and an: "unat (usize s a) = n" "0 < n" "um_base s + 15 < a" "a + 16 * n \<le> MAXADDR"
    "block (a, n) \<inter> bytes bs = {}"
    using heap_ok_live [OF ok, of a n] ok by (simp_all add: heap_ok_def)
  obtain xs ys where bs: "bs = xs @ ys" and fit: "fits (um_base s + 15) xs a n ys"
    using find_gap [of "um_base s + 15" bs a n] fl an by (force simp: flist_def fits_def)
  define p where "p = last (um_base s # map fst xs)"
  have "p \<in> set (um_base s # map fst xs)" unfolding p_def by (rule last_in_set) simp
  then have p: "p \<in> insert (um_base s) (fst ` set bs)" by (auto simp: bs)
  obtain R where R: "path (uptr s) (freep s) (R @ [freep s])" "insert (freep s) (set R) = insert (um_base s) (fst ` set bs)"
    "length R = length bs" using flist_cycle [OF fl] by metis
  have "wp (free_find fuel a (freep s)) Q s = Q p s" for Q
  proof (rule wp_free_find [OF R(1)])
    show "p \<in> set (freep s # R @ [freep s])" using p R(2) by auto
    have "set (freep s # R @ [freep s]) = insert (um_base s) (fst ` set (xs @ ys))" using R(2) bs by auto
    then show "\<forall>x \<in> set (freep s # R @ [freep s]). stop s a x = (x = p)"
      using stop_iff [OF fl [unfolded bs] fit] unfolding p_def by blast
    show "length (R @ [freep s]) < fuel" using R(3) fuel by simp
  qed
  moreover have "heap_ok T live (join_prev xs (join_next (a, n) ys)) (free_at a p s)"
  proof -
    have "flist (free_at a p s) (join_prev xs (join_next (a, n) ys))"
      using flist_free_at [OF fl [unfolded bs] an(1) fit p_def] .
    moreover have "bytes (join_prev xs (join_next (a, n) ys)) = bytes bs \<union> block (a, n)"
      using bytes_join_prev [OF join_next_ne] bytes_join_next by (auto simp: bs)
    moreover have "c \<noteq> a \<and> c \<noteq> p" if "(c, m) \<in> live" for c m
    proof -
      note c = heap_ok_live [OF ok, of c m]
      have "c \<in> block (c, m)" "um_base s + 15 < c" using that c by (simp_all add: block_start)
      moreover have "block (c, m) \<inter> bytes bs = {}" "block (c, m) \<inter> block (a, n) = {}"
        using that c heap_ok_disjoint [OF ok, of "(c, m)" "(a, n)"] new by auto
      moreover have "p \<in> bytes bs" if "p \<noteq> um_base s"
        using that p fl spaced_mem [of "um_base s + 15" bs] by (force simp: flist_def bytes_def block_def)
      ultimately show ?thesis using block_start [OF an(2)] by fastforce
    qed
    ultimately show ?thesis
      using ok new by (auto simp: heap_ok_def free_at_sel)
  qed
  moreover have "\<exists>(c, m) \<in> set (join_prev xs (join_next (a, n) ys)). n \<le> m"
  proof -
    obtain c m where m: "(c, m) \<in> set (join_next (a, n) ys)" "n \<le> m" using join_next_big by blast
    from join_prev_big [OF m(1)] obtain c' m' where "(c', m') \<in> set (join_prev xs (join_next (a, n) ys))" "m \<le> m'" by blast
    then show ?thesis using m(2) order_trans by blast
  qed
  ultimately show ?thesis
    by (auto simp: ufree_def wp_obind wp_gets wp_modify)
qed

subsection \<open>More memory from the system\<close>

text \<open>What the allocator relies on of \<open>sbrk\<close>: it fails and changes nothing, or it returns memory that was not
  handed out before, above the allocator's own static header and within the lower two gigabytes
  that a process has.  \<open>taken\<close> is what was handed out so far.\<close>

definition sbrk_ok :: "'e sbrk \<Rightarrow> ('e \<Rightarrow> nat set) \<Rightarrow> nat \<Rightarrow> bool" where
  "sbrk_ok sbrk taken b \<longleftrightarrow> (\<forall>n e. 0 < n \<longrightarrow> (case sbrk n e of
       (None, e') \<Rightarrow> taken e' = taken e
     | (Some p, e') \<Rightarrow> b + 16 \<le> p \<and> p + nat n \<le> MAXADDR \<and> {p..<p + nat n} \<inter> taken e = {} \<and>
         taken e' = taken e \<union> {p..<p + nat n}))"

lemma flist_elsewhere:
  assumes "flist s bs" "a \<noteq> um_base s" "a \<notin> fst ` set bs"
  shows "flist (s\<lparr>usize := (usize s)(a := v)\<rparr>) bs"
proof -
  have "segment (s\<lparr>usize := (usize s)(a := v)\<rparr>) (um_base s) bs (um_base s) = segment s (um_base s) bs (um_base s)"
    using assms(3) by (intro segment_frame) auto
  then show ?thesis using assms by (simp add: flist_def)
qed

lemma flist_env [simp]: "flist (s\<lparr>env := e\<rparr>) bs = flist s bs"
  using segment_frame [of "um_base s" bs "s\<lparr>env := e\<rparr>" s "um_base s"] by (auto simp: flist_def)

lemma heap_ok_env [simp]: "heap_ok T live bs (s\<lparr>env := e\<rparr>) = heap_ok T live bs s"
  by (simp add: heap_ok_def)

lemma flist_start_in:
  assumes "flist s bs" "a \<in> fst ` set bs"
  shows "a \<in> bytes bs"
  using assms spaced_mem [of "um_base s + 15" bs] by (force simp: flist_def bytes_def block_def)

lemma heap_ok_add:
  assumes ok: "heap_ok T live bs s" and new: "block (a, unat k) \<inter> T = {}" "0 < unat k" "um_base s + 15 < a" "a + 16 * unat k \<le> MAXADDR"
  shows "heap_ok (T \<union> block (a, unat k)) (insert (a, unat k) live) bs (s\<lparr>usize := (usize s)(a := k)\<rparr>)" "(a, unat k) \<notin> live"
proof -
  have a: "a \<notin> T" using new(1) block_start [OF new(2), of a] by blast
  have inT: "block b \<subseteq> T" if "b \<in> live" for b using ok that unfolding heap_ok_def by blast
  have ne: "c \<noteq> a" if "(c, m) \<in> live" for c m
    using inT [OF that] block_start [OF heap_ok_live(2) [OF ok that]] a by blast
  then show "(a, unat k) \<notin> live" by blast
  have fl: "flist s bs" "bytes bs \<subseteq> T" using ok by (auto simp: heap_ok_def)
  then have "a \<notin> fst ` set bs" using a flist_start_in by blast
  then have "flist (s\<lparr>usize := (usize s)(a := k)\<rparr>) bs" using flist_elsewhere [OF fl(1)] new(3) by simp
  moreover have "block b \<inter> block c = {}" if "b \<in> insert (a, unat k) live" "c \<in> insert (a, unat k) live" "b \<noteq> c" for b c
  proof -
    have "block b \<inter> block c = {}" if "b \<in> live" "c \<in> live" using ok that \<open>b \<noteq> c\<close> by (simp add: heap_ok_def)
    then show ?thesis using that inT [of b] inT [of c] new(1) by blast
  qed
  moreover have "block b \<inter> bytes bs = {}" if "b \<in> insert (a, unat k) live" for b
  proof -
    have "block b \<inter> bytes bs = {}" if "b \<in> live" using ok that by (simp add: heap_ok_def)
    then show ?thesis using that fl(2) new(1) by blast
  qed
  moreover have "bytes bs \<union> (\<Union>b \<in> insert (a, unat k) live. block b) = T \<union> block (a, unat k)"
    using ok unfolding heap_ok_def by blast
  moreover have "unat (((usize s)(a := k)) (fst b)) = snd b \<and> 0 < snd b \<and> um_base s + 15 < fst b \<and> fst b + 16 * snd b \<le> MAXADDR"
    if "b \<in> insert (a, unat k) live" for b
    using that heap_ok_live [OF ok, of "fst b" "snd b"] ne [of "fst b" "snd b"] new(2-4) by auto
  ultimately show "heap_ok (T \<union> block (a, unat k)) (insert (a, unat k) live) bs (s\<lparr>usize := (usize s)(a := k)\<rparr>)"
    unfolding heap_ok_def by (intro conjI ballI) simp_all
qed

lemma sint_units:
  fixes nu :: u32
  assumes "unat nu < 2 ^ 27"
  shows "sint (nu * 16) = int (16 * unat nu)"
proof -
  have u: "unat (nu * 16) = 16 * unat nu" using assms by (simp add: unat_word_ariths)
  then have "sint (nu * 16) = uint (nu * 16)" using assms by (intro sint_u32) simp
  also have "\<dots> = int (unat (nu * 16))" by (simp only: uint_nat)
  finally show ?thesis by (simp only: u)
qed

lemma wp_gets_ext: "wp (gets g) Q = (\<lambda>t. Q (g t) t)"
  and wp_ret_ext: "wp (ret a) R = R a"
  by (rule ext, rule wp_gets) (rule ext, rule wp_ret)

lemma wp_morecore:
  assumes sb: "sbrk_ok sbrk taken (um_base s)" and ok: "heap_ok (taken (env s)) live bs s"
    and nu: "unat nu < 2 ^ 27" and fuel: "2 ^ 28 \<le> fuel"
  shows "wp (morecore fuel sbrk nu) (\<lambda>r t. um_base t = um_base s \<and> (\<exists>bs'. heap_ok (taken (env t)) live bs' t \<and>
     (r = 0 \<or> r = freep t \<and> (\<exists>(c, m) \<in> set bs'. unat nu \<le> m)))) s"
proof -
  define k where "k = (if nu < 4096 then 4096 else nu)"
  have k: "unat k < 2 ^ 27" "unat nu \<le> unat k" "0 < unat k"
    using nu by (auto simp: k_def word_less_nat_alt)
  define m where "m = 16 * unat k"
  have m: "0 < m" "block (p, unat k) = {p..<p + m}" for p using k(3) by (simp_all add: m_def block_def)
  obtain r e where r: "sbrk (int m) (env s) = (r, e)" by fastforce
  have law: "case r of None \<Rightarrow> taken e = taken (env s)
      | Some p \<Rightarrow> um_base s + 16 \<le> p \<and> p + m \<le> MAXADDR \<and> block (p, unat k) \<inter> taken (env s) = {} \<and>
          taken e = taken (env s) \<union> block (p, unat k)"
    using sb [unfolded sbrk_ok_def, rule_format, of "int m" "env s"] m(1) r by (auto simp: m(2) split: option.splits)
  have sz: "sint (k * 16) = int m" unfolding m_def by (rule sint_units [OF k(1)])
  have *: "wp (morecore fuel sbrk nu) Q s = (case r of None \<Rightarrow> Q 0 (s\<lparr>env := e\<rparr>)
      | Some hp \<Rightarrow> wp (ufree fuel (hp + 16)) (\<lambda>_ t. Q (freep t) t) (s\<lparr>env := e, usize := (usize s)(hp := k)\<rparr>))" for Q
    unfolding morecore_def k_def [symmetric] Let_def call_sbrk_def sz
    by (simp add: wp_rules r wp_gets_ext split: option.splits)
  show ?thesis
  proof (cases r)
    case None
    then show ?thesis using law ok unfolding * by auto
  next
    case (Some hp)
    then have l: "um_base s + 15 < hp" "hp + 16 * unat k \<le> MAXADDR" "block (hp, unat k) \<inter> taken (env s) = {}"
      "taken e = taken (env s) \<union> block (hp, unat k)" using law by (auto simp: m_def)
    let ?t = "s\<lparr>env := e, usize := (usize s)(hp := k)\<rparr>"
    have "heap_ok (taken e) (insert (hp, unat k) live) bs ?t" "(hp, unat k) \<notin> live"
      using heap_ok_add [of "taken (env s)" live bs "s\<lparr>env := e\<rparr>" hp k] ok l k(3) by simp_all
    moreover have "length bs < fuel - 1"
      using flist_length [of s bs] ok fuel by (simp add: heap_ok_def)
    ultimately have "wp (ufree fuel (hp + 16)) (\<lambda>_ t. env t = env ?t \<and> um_base t = um_base ?t \<and>
       (\<exists>bs'. heap_ok (taken e) live bs' t \<and> (\<exists>(c, m) \<in> set bs'. unat k \<le> m))) ?t"
      by (rule wp_ufree)
    then show ?thesis
      using k(2) order_trans unfolding * Some option.case by (elim wp_mono) force
  qed
qed

subsection \<open>Taking a block\<close>

lemma unique_pred:
  assumes fl: "flist s (xs @ (p, n) # ys)" and q: "q \<in> insert (um_base s) (fst ` set (xs @ (p, n) # ys))" "uptr s q = p"
  shows "q = last (um_base s # map fst xs)"
proof (rule ccontr)
  assume ne: "q \<noteq> last (um_base s # map fst xs)"
  have seg: "segment s (um_base s) xs p" "segment s p ys (um_base s)"
    and sp: "spaced (um_base s + 15) xs" "endp (um_base s + 15) xs < p" "0 < n" "spaced (p + 16 * n) ys"
    using fl by (auto simp: flist_def spaced_append)
  have lo: "um_base s < p" using sp(2) endp_ge [OF sp(1)] by simp
  consider "q \<in> insert (um_base s) (fst ` set xs)" | "q \<in> insert p (fst ` set ys)" using q(1) by auto
  then show False
  proof cases
    case 1
    then have "p \<in> fst ` set xs" using segment_succ [OF seg(1) sp(1) _ 1] ne q(2) by auto
    then show False using spaced_mem [OF sp(1)] sp(2) by fastforce
  next
    case 2
    then have "p = um_base s \<or> p \<in> fst ` set ys" using segment_succ [OF seg(2) sp(4) _ 2] q(2) by (auto split: if_splits)
    then show False using lo spaced_mem [OF sp(4)] by fastforce
  qed
qed

text \<open>Unlinking a whole block, or cutting \<open>k\<close> units off its end.\<close>

lemma flist_unlink:
  assumes fl: "flist s (xs @ (p, n) # ys)" and q: "q = last (um_base s # map fst xs)"
  shows "flist (s\<lparr>uptr := (uptr s)(q := uptr s p), freep := q\<rparr>) (xs @ ys)" (is "flist ?t _")
proof -
  have seg: "segment s (um_base s) xs p" "segment s p ys (um_base s)"
    and sp: "spaced (um_base s + 15) xs" "endp (um_base s + 15) xs < p" "0 < n" "spaced (p + 16 * n) ys"
    using fl by (auto simp: flist_def spaced_append)
  have d: "distinct (um_base s # map fst xs)" using flist_distinct [OF fl] by auto
  have qin: "q \<in> insert (um_base s) (fst ` set xs)" unfolding q using last_in_set [of "um_base s # map fst xs"] by auto
  have ltq: "q < p" using qin spaced_mem [OF sp(1)] sp(2) endp_ge [OF sp(1)] by fastforce
  have "segment ?t (um_base s) xs (uptr s p)"
    by (rule segment_redirect [OF seg(1) d]) (auto simp: q)
  moreover have "segment ?t q ys (um_base s)"
  proof -
    have "segment ?t q ys (um_base s) = segment ?t p ys (um_base s)"
      using ltq by (intro segment_start) simp
    also have "\<dots> = segment s p ys (um_base s)"
      using ltq spaced_mem [OF sp(4)] by (intro segment_frame) fastforce+
    finally show ?thesis using seg(2) by simp
  qed
  ultimately have "segment ?t (um_base s) (xs @ ys) (um_base s)"
    unfolding segment_split q [symmetric] by simp
  moreover have "spaced (um_base s + 15) (xs @ ys)"
    unfolding spaced_append using sp by (auto intro: spaced_weaken)
  moreover have "endp (um_base s + 15) (xs @ ys) \<le> MAXADDR"
    using fl sp(2) endp_ge [OF sp(4)] by (cases ys) (auto simp: flist_def endp_append)
  ultimately show ?thesis using fl qin by (auto simp: flist_def)
qed

lemma flist_cut:
  assumes fl: "flist s (xs @ (p, n) # ys)" and k: "unat m + unat k = n" "0 < unat m" "0 < unat k"
    and q: "q \<in> insert (um_base s) (fst ` set (xs @ (p, n) # ys))"
  shows "flist (s\<lparr>usize := (usize s)(p := m, p + 16 * unat m := k), freep := q\<rparr>) (xs @ (p, unat m) # ys)" (is "flist ?t _")
proof -
  have seg: "segment s (um_base s) xs p" "segment s p ys (um_base s)"
    and sp: "spaced (um_base s + 15) xs" "endp (um_base s + 15) xs < p" "0 < n" "spaced (p + 16 * n) ys"
    and e: "endp (um_base s + 15) (xs @ (p, n) # ys) \<le> MAXADDR"
    using fl by (auto simp: flist_def spaced_append)
  have lo: "um_base s < p" using sp(2) endp_ge [OF sp(1)] by simp
  have "segment ?t (um_base s) xs p = segment s (um_base s) xs p"
    using spaced_mem [OF sp(1)] sp(2) by (intro segment_frame) fastforce+
  moreover have "segment ?t p ys (um_base s) = segment s p ys (um_base s)"
    using spaced_mem [OF sp(4)] k by (intro segment_frame) fastforce+
  moreover have "spaced (p + 16 * unat m) ys" using sp(4) k(1) by (auto intro: spaced_weaken)
  moreover have "endp (p + 16 * unat m) ys \<le> endp (p + 16 * n) ys" using k(1) by (cases ys) auto
  ultimately show ?thesis
    using fl q seg sp k(2) e lo by (auto simp: flist_def spaced_append endp_append)
qed

lemma heap_ok_move:
  assumes ok: "heap_ok T live bs s" and fl: "flist t bs'" and b: "um_base t = um_base s"
    and split: "bytes bs' \<union> block (r, k) = bytes bs" "bytes bs' \<inter> block (r, k) = {}"
    and r: "unat (usize t r) = k" "0 < k" "um_base s + 15 < r" "r + 16 * k \<le> MAXADDR"
    and frame: "\<And>a. a \<notin> bytes bs \<Longrightarrow> usize t a = usize s a"
  shows "heap_ok T (insert (r, k) live) bs' t \<and> (r, k) \<notin> live"
proof -
  have fr: "block c \<inter> bytes bs = {}" "usize t (fst c) = usize s (fst c)" if "c \<in> live" for c
  proof -
    note l = heap_ok_live [OF ok, of "fst c" "snd c"]
    show "block c \<inter> bytes bs = {}" using l that by simp
    then have "fst c \<notin> bytes bs" using l(2) that block_start [of "snd c" "fst c"] by auto
    then show "usize t (fst c) = usize s (fst c)" by (rule frame)
  qed
  have new: "block (r, k) \<noteq> {}" using block_start [OF r(2)] by blast
  have "block c \<inter> block (r, k) = {}" "block c \<inter> bytes bs' = {}" if "c \<in> live" for c
    using fr(1) [OF that] split(1) by blast+
  moreover have "(r, k) \<notin> live" using fr(1) [of "(r, k)"] split(1) new by blast
  moreover have "bytes bs' \<union> (\<Union>c \<in> insert (r, k) live. block c) = T"
    using ok split(1) by (auto simp: heap_ok_def)
  moreover have "block c \<inter> block d = {}" if "c \<in> live" "d \<in> live" "c \<noteq> d" for c d
    using heap_ok_disjoint [OF ok that] .
  moreover have "unat (usize t (fst c)) = snd c \<and> 0 < snd c \<and> um_base t + 15 < fst c \<and> fst c + 16 * snd c \<le> MAXADDR"
    if "c \<in> insert (r, k) live" for c
    using that r b fr(2) [of c] heap_ok_live [OF ok, of "fst c" "snd c"] by auto
  ultimately show ?thesis
    using fl split(2) unfolding heap_ok_def by (auto simp: Int_commute)
qed

lemma wp_take_block:
  assumes ok: "heap_ok T live bs s" and p: "p \<in> insert (um_base s) (fst ` set bs)" "nu \<le> usize s p" "0 < unat nu"
    and q: "q \<in> insert (um_base s) (fst ` set bs)" "uptr s q = p"
  shows "wp (take_block nu q p) (\<lambda>r t. env t = env s \<and> um_base t = um_base s \<and> (r, unat nu) \<notin> live \<and>
     (\<exists>bs'. heap_ok T (insert (r, unat nu) live) bs' t)) s"
proof -
  let ?n = "unat (usize s p)"
  have fl: "flist s bs" using ok by (simp add: heap_ok_def)
  have "usize s (um_base s) = 0" using fl by (simp add: flist_def)
  then have "p \<noteq> um_base s" using p(2,3) by (auto simp: word_le_nat_alt)
  then have "p \<in> fst ` set bs" using p(1) by simp
  then obtain n where "(p, n) \<in> set bs" by auto
  then obtain xs ys where bs': "bs = xs @ (p, n) # ys" by (meson split_list)
  have "?n = n" using fl by (simp add: flist_def bs')
  then have bs: "bs = xs @ (p, ?n) # ys" using bs' by simp
  have le: "unat nu \<le> ?n" using p(2) by (simp add: word_le_nat_alt)
  have sp: "spaced (um_base s + 15) xs" "endp (um_base s + 15) xs < p" "spaced (p + 16 * ?n) ys" "endp (p + 16 * ?n) ys \<le> MAXADDR"
    using fl by (auto simp: flist_def bs spaced_append endp_append)
  have pos: "um_base s + 15 < p" "p + 16 * ?n \<le> MAXADDR"
    using sp endp_ge [OF sp(1)] endp_ge [OF sp(3)] by simp_all
  have dis: "bytes xs \<inter> block (p, ?n) = {}" "bytes ys \<inter> block (p, ?n) = {}"
    using spaced_mem [OF sp(1)] sp(2) spaced_mem [OF sp(3)] by (fastforce simp: bytes_def block_def)+
  show ?thesis
  proof (cases "usize s p = nu")
    case True
    let ?t = "s\<lparr>uptr := (uptr s)(q := uptr s p), freep := q\<rparr>"
    have "flist ?t (xs @ ys)"
      using flist_unlink [OF fl [unfolded bs] unique_pred [OF fl [unfolded bs] q(1) [unfolded bs] q(2)]] .
    then have "heap_ok T (insert (p, unat nu) live) (xs @ ys) ?t \<and> (p, unat nu) \<notin> live"
      using True p(3) pos dis by (intro heap_ok_move [OF ok]) (auto simp: bs)
    then show ?thesis using True by (auto simp: take_block_def wp_rules)
  next
    case False
    then have lt: "unat nu < ?n" using le by (metis le_neq_implies_less word_unat_eq_iff)
    define m where "m = usize s p - nu"
    have m: "unat m + unat nu = ?n" "0 < unat m"
      using lt p(2) unat_sub [of nu "usize s p"] by (simp_all add: m_def)
    have cut: "block (p, ?n) = block (p, unat m) \<union> block (p + 16 * unat m, unat nu)"
      "block (p, unat m) \<inter> block (p + 16 * unat m, unat nu) = {}"
      using block_join [of p "unat m" "p + 16 * unat m" "unat nu"] m(1) by (simp, auto simp: block_def)
    have in_free: "p \<in> block (p, ?n)" "p + 16 * unat m \<in> block (p, ?n)"
      using m p(3) by (auto simp: block_def)
    let ?t = "s\<lparr>usize := (usize s)(p := m, p + 16 * unat m := nu), freep := q\<rparr>"
    have "flist ?t (xs @ (p, unat m) # ys)"
      using flist_cut [OF fl [unfolded bs] m p(3)] q(1) bs by simp
    then have "heap_ok T (insert (p + 16 * unat m, unat nu) live) (xs @ (p, unat m) # ys) ?t \<and> (p + 16 * unat m, unat nu) \<notin> live"
      using m p(3) pos dis in_free cut by (intro heap_ok_move [OF ok]) (auto simp: bs)
    then show ?thesis using False by (auto simp: take_block_def wp_rules units_def m_def Let_def)
  qed
qed

subsection \<open>The search\<close>

lemma wp_malloc_walk:
  assumes "path (uptr s) q (xs @ [freep s])" "freep s \<notin> set xs"
    and take: "\<And>q' p. q' \<in> set (q # xs) \<Longrightarrow> p \<in> set (xs @ [freep s]) \<Longrightarrow> uptr s q' = p \<Longrightarrow> nu \<le> usize s p \<Longrightarrow>
       wp (take_block nu q' p) (\<lambda>p. Q (p + 16)) s"
    and more: "\<forall>x \<in> set (xs @ [freep s]). usize s x < nu \<Longrightarrow>
       wp (morecore fuel sbrk nu) (\<lambda>r t. if r = 0 then Q 0 t else wp (malloc_loop k fuel sbrk nu r (uptr t r)) Q t) s"
  shows "wp (malloc_loop (length xs + Suc k) fuel sbrk nu q (uptr s q)) Q s"
  using assms
proof (induction xs arbitrary: q)
  case Nil
  then have q: "uptr s q = freep s" by simp
  show ?case
  proof (cases "nu \<le> usize s (freep s)")
    case True
    then show ?thesis using Nil.prems(3) [of q "freep s"] q by (simp add: wp_rules wp_ret_ext)
  next
    case False
    then have "wp (morecore fuel sbrk nu) (\<lambda>r t. if r = 0 then Q 0 t else wp (malloc_loop k fuel sbrk nu r (uptr t r)) Q t) s"
      using Nil.prems(4) by (simp add: not_le)
    then show ?thesis using False q by (auto simp: wp_rules elim!: wp_mono split: if_splits)
  qed
next
  case (Cons x xs)
  then have x: "uptr s q = x" "x \<noteq> freep s" "path (uptr s) x (xs @ [freep s])" "freep s \<notin> set xs" by auto
  show ?case
  proof (cases "nu \<le> usize s x")
    case True
    then show ?thesis using Cons.prems(3) [of q x] x(1) by (simp add: wp_rules wp_ret_ext)
  next
    case False
    have "wp (malloc_loop (length xs + Suc k) fuel sbrk nu x (uptr s x)) Q s"
      using Cons.IH [OF x(3,4)] Cons.prems(3,4) False by (simp add: not_le)
    then show ?thesis using False x by (simp add: wp_rules)
  qed
qed

lemma heap_fit:
  assumes "heap_ok T live bs s" "(c, m) \<in> set bs" "unat nu \<le> m"
  shows "c \<in> insert (um_base s) (fst ` set bs)" "nu \<le> usize s c"
proof -
  have "segment s (um_base s) bs (um_base s)" using assms(1) by (simp add: heap_ok_def flist_def)
  then have "unat (usize s c) = m" using assms(2) by (auto simp: segment_def)
  then show "c \<in> insert (um_base s) (fst ` set bs)" "nu \<le> usize s c"
    using assms(2,3) by (force, simp add: word_le_nat_alt)
qed

text \<open>The outcome of an allocation of \<open>nu\<close> units: no memory, or a new block with the pointer just
  after its header.\<close>

definition allocated :: "('e \<Rightarrow> nat set) \<Rightarrow> nat \<Rightarrow> blk set \<Rightarrow> nat \<Rightarrow> nat \<Rightarrow> 'e um \<Rightarrow> bool" where
  "allocated taken b live k r t \<longleftrightarrow> um_base t = b \<and>
     (r = 0 \<and> (\<exists>bs. heap_ok (taken (env t)) live bs t) \<or>
      16 \<le> r \<and> (r - 16, k) \<notin> live \<and> (\<exists>bs. heap_ok (taken (env t)) (insert (r - 16, k) live) bs t))"

lemma wp_take_allocated:
  assumes "heap_ok (taken (env s)) live bs s" "p \<in> insert (um_base s) (fst ` set bs)" "nu \<le> usize s p" "0 < unat nu"
    and "q \<in> insert (um_base s) (fst ` set bs)" "uptr s q = p" "um_base s = b"
  shows "wp (take_block nu q p) (\<lambda>p. allocated taken b live (unat nu) (p + 16)) s"
  using wp_take_block [OF assms(1-6)] assms(7) by (auto simp: allocated_def elim!: wp_mono)

lemma wp_malloc_fit:
  assumes ok: "heap_ok (taken (env s)) live bs s" and big: "\<exists>(c, m) \<in> set bs. unat nu \<le> m" and nu: "0 < unat nu"
    and k: "length bs < k" and b: "um_base s = b"
  shows "wp (malloc_loop k fuel sbrk nu (freep s) (uptr s (freep s))) (allocated taken b live (unat nu)) s"
proof -
  have fl: "flist s bs" using ok by (simp add: heap_ok_def)
  obtain R where R: "path (uptr s) (freep s) (R @ [freep s])" "insert (freep s) (set R) = insert (um_base s) (fst ` set bs)"
    "length R = length bs" "freep s \<notin> set R" using flist_cycle [OF fl] .
  obtain c m where "(c, m) \<in> set bs" "unat nu \<le> m" using big by blast
  note c = heap_fit [OF ok this]
  define j where "j = k - length R - 1"
  have j: "k = length R + Suc j" using k R(3) by (simp add: j_def)
  show ?thesis
    unfolding j
  proof (rule wp_malloc_walk [OF R(1,4)], goal_cases)
    case (1 q p)
    then show ?case using R(2) nu b by (intro wp_take_allocated [of taken s live bs, OF ok]) auto
  next
    case 2
    have "c \<in> set (R @ [freep s])" using c(1) R(2) by auto
    then have "usize s c < nu" using 2 by blast
    then show ?case using c(2) by simp
  qed
qed

lemma wp_malloc_loop:
  assumes sb: "sbrk_ok sbrk taken (um_base s)" and ok: "heap_ok (taken (env s)) live bs s"
    and nu: "0 < unat nu" "unat nu < 2 ^ 27" and fuel: "2 ^ 28 \<le> fuel"
  shows "wp (malloc_loop fuel fuel sbrk nu (freep s) (uptr s (freep s))) (allocated taken (um_base s) live (unat nu)) s"
proof -
  have fl: "flist s bs" using ok by (simp add: heap_ok_def)
  obtain R where R: "path (uptr s) (freep s) (R @ [freep s])" "insert (freep s) (set R) = insert (um_base s) (fst ` set bs)"
    "length R = length bs" "freep s \<notin> set R" using flist_cycle [OF fl] .
  define j where "j = fuel - length R - 1"
  have j: "fuel = length R + Suc j" "2 ^ 27 \<le> j"
    using flist_length [OF fl] R(3) fuel by (simp_all add: j_def)
  have "wp (malloc_loop (length R + Suc j) fuel sbrk nu (freep s) (uptr s (freep s))) (allocated taken (um_base s) live (unat nu)) s"
  proof (rule wp_malloc_walk [OF R(1,4)], goal_cases)
    case (1 q p)
    then show ?case using R(2) nu by (intro wp_take_allocated [of taken s live bs, OF ok]) auto
  next
    case 2
    show ?case
    proof (rule wp_mono [OF wp_morecore [OF sb ok nu(2) fuel]], elim conjE exE)
      fix r t bs'
      assume t: "um_base t = um_base s" "heap_ok (taken (env t)) live bs' t"
        "r = 0 \<or> r = freep t \<and> (\<exists>(c, m) \<in> set bs'. unat nu \<le> m)"
      have "length bs' < j" using flist_length [of t bs'] t(2) j(2) by (simp add: heap_ok_def)
      then show "if r = 0 then allocated taken (um_base s) live (unat nu) 0 t
          else wp (malloc_loop j fuel sbrk nu r (uptr t r)) (allocated taken (um_base s) live (unat nu)) t"
        using t wp_malloc_fit [where taken = taken and live = live, OF t(2) _ nu(1) _ t(1)]
        by (cases "r = 0") (auto simp: allocated_def simp del: malloc_loop.simps split del: prod.splits)
    qed
  qed
  then show ?thesis using j(1) by simp
qed

subsection \<open>Allocation and release\<close>

definition um_inv :: "('e \<Rightarrow> nat set) \<Rightarrow> nat \<Rightarrow> blk set \<Rightarrow> 'e um \<Rightarrow> bool" where
  "um_inv taken b live s \<longleftrightarrow> um_base s = b \<and> 0 < b \<and> b + 16 \<le> MAXADDR \<and>
     (freep s = 0 \<and> live = {} \<and> taken (env s) = {} \<or> (\<exists>bs. heap_ok (taken (env s)) live bs s))"

lemma unat_nunits:
  assumes "unat n \<le> 2 ^ 31 - 48"
  shows "unat (nunits n) = (unat n + 15) div 16 + 1"
proof -
  let ?m = "ucast n :: u64"
  have m: "unat ?m = unat n"
    using assms by (simp add: unsigned_ucast_eq take_bit_nat_eq_self)
  have "unat (?m + 16 - 1) = unat n + 15"
    using assms m by (simp add: unat_word_ariths)
  then have d: "unat ((?m + 16 - 1) div 16) = (unat n + 15) div 16"
    by (simp add: unat_div_distrib)
  moreover have "(unat n + 15) div 16 < 2 ^ 27" using assms by simp
  ultimately have "unat ((?m + 16 - 1) div 16 + 1) = (unat n + 15) div 16 + 1"
    using unat_word_ariths(1) [of "(?m + 16 - 1) div 16" 1] by simp
  then show ?thesis
    using assms by (simp add: nunits_def unsigned_ucast_eq take_bit_nat_eq_self)
qed

lemma heap_freep: "heap_ok T live bs s \<Longrightarrow> freep s \<noteq> 0"
  using spaced_mem [of "um_base s + 15" bs] by (fastforce simp: heap_ok_def flist_def)

lemma wp_malloc:
  assumes sb: "sbrk_ok sbrk taken b" and inv: "um_inv taken b live s" and n: "unat n \<le> 2 ^ 31 - 48" and fuel: "2 ^ 28 \<le> fuel"
  shows "wp (malloc fuel sbrk n) (allocated taken b live (unat (nunits n))) s"
proof -
  define t where "t = (if freep s = 0
    then s\<lparr>uptr := (uptr s)(um_base s := um_base s), freep := um_base s, usize := (usize s)(um_base s := 0)\<rparr> else s)"
  have t: "um_base t = b" "env t = env s" using inv by (auto simp: t_def um_inv_def)
  have b: "b + 16 \<le> MAXADDR" using inv by (simp add: um_inv_def)
  have "\<exists>bs. heap_ok (taken (env t)) live bs t"
  proof (cases "freep s = 0")
    case True
    then have e: "live = {}" "taken (env t) = {}"
      using inv heap_freep [of "taken (env s)" live _ s] unfolding um_inv_def t(2) by auto
    have "heap_ok {} {} [] t"
      using True inv b by (simp add: t_def heap_ok_def flist_def um_inv_def)
    then show ?thesis unfolding e by blast
  next
    case False
    then show ?thesis using inv by (auto simp: um_inv_def t_def)
  qed
  then obtain bs where ok: "heap_ok (taken (env t)) live bs t" ..
  have "unat (nunits n) < 2 ^ 27" "0 < unat (nunits n)" using unat_nunits [OF n] n by simp_all
  then have "wp (malloc_loop fuel fuel sbrk (nunits n) (freep t) (uptr t (freep t))) (allocated taken b live (unat (nunits n))) t"
    using wp_malloc_loop [where taken = taken and live = live, OF _ ok _ _ fuel] sb t(1) by simp
  then show ?thesis
    by (simp add: malloc_def wp_rules t_def [symmetric] del: malloc_loop.simps)
qed

lemma allocated_inv:
  assumes "allocated taken b live k r t" "0 < b" "b + 16 \<le> MAXADDR"
  shows "r = 0 \<and> um_inv taken b live t \<or> 16 \<le> r \<and> (r - 16, k) \<notin> live \<and> um_inv taken b (insert (r - 16, k) live) t"
  using assms by (auto simp: allocated_def um_inv_def)

lemma wp_ufree_inv:
  assumes "um_inv taken b (insert (a, n) live) s" "(a, n) \<notin> live" "2 ^ 28 \<le> fuel"
  shows "wp (ufree fuel (a + 16)) (\<lambda>_. um_inv taken b live) s"
proof -
  obtain bs where ok: "heap_ok (taken (env s)) (insert (a, n) live) bs s" and b: "um_base s = b" "0 < b" "b + 16 \<le> MAXADDR"
    using assms(1) by (auto simp: um_inv_def)
  have "length bs < fuel - 1" using flist_length [of s bs] ok assms(3) by (simp add: heap_ok_def)
  from wp_ufree [OF ok assms(2) this] show ?thesis
    using b by (auto simp: um_inv_def elim!: wp_mono)
qed

section \<open>Properties\<close>

text \<open>A client: a sequence of calls, in which it releases only what it was given and not yet
  released; \<open>live\<close> are the pointers it has with the sizes it asked for.\<close>

datatype um_call = Malloc u32 | Free nat

fun um_run :: "nat \<Rightarrow> 'e sbrk \<Rightarrow> um_call list \<Rightarrow> (nat \<times> u32) list \<Rightarrow> ((nat \<times> u32) list, 'e um) kop" where
  "um_run fuel sbrk [] live = ret live"
| "um_run fuel sbrk (Malloc n # ops) live =
     obind (malloc fuel sbrk n) (\<lambda>p. um_run fuel sbrk ops (if p = 0 then live else (p, n) # live))"
| "um_run fuel sbrk (Free p # ops) live =
     (if p \<in> fst ` set live
      then oseq (ufree fuel p) (um_run fuel sbrk ops (filter (\<lambda>q. fst q \<noteq> p) live))
      else um_run fuel sbrk ops live)"

definition header_of :: "nat \<times> u32 \<Rightarrow> blk" where
  "header_of q = (fst q - 16, unat (nunits (snd q)))"

definition client_ok :: "(nat \<times> u32) list \<Rightarrow> bool" where
  "client_ok live \<longleftrightarrow> distinct (map fst live) \<and> (\<forall>q \<in> set live. 16 \<le> fst q \<and> unat (snd q) \<le> 2 ^ 31 - 48)"

lemma header_inj:
  assumes "client_ok live" "q \<in> set live" "r \<in> set live" "fst q - 16 = fst r - 16"
  shows "q = r"
proof -
  have "16 \<le> fst q" "16 \<le> fst r" using assms(1-3) by (simp_all add: client_ok_def)
  then have "fst q = fst r" using assms(4) by linarith
  then show ?thesis using assms(1-3) by (auto simp: client_ok_def distinct_map dest: inj_onD)
qed

lemma header_remove:
  assumes "client_ok live" "(p, n) \<in> set live"
  shows "header_of ` set live = insert (p - 16, unat (nunits n)) (header_of ` set (filter (\<lambda>q. fst q \<noteq> p) live))"
    "(p - 16, unat (nunits n)) \<notin> header_of ` set (filter (\<lambda>q. fst q \<noteq> p) live)"
    "client_ok (filter (\<lambda>q. fst q \<noteq> p) live)" "16 \<le> p"
proof -
  have same: "q = (p, n)" if "q \<in> set live" "fst q = p" for q
    using header_inj [OF assms(1) that(1) assms(2)] that(2) by simp
  have "set live = insert (p, n) (set (filter (\<lambda>q. fst q \<noteq> p) live))"
  proof (intro equalityI subsetI)
    fix q
    assume "q \<in> set live"
    then show "q \<in> insert (p, n) (set (filter (\<lambda>q. fst q \<noteq> p) live))" using same [of q] by (cases "fst q = p") simp_all
  qed (use assms(2) in auto)
  from arg_cong [OF this, of "image header_of", unfolded image_insert]
  show "header_of ` set live = insert (p - 16, unat (nunits n)) (header_of ` set (filter (\<lambda>q. fst q \<noteq> p) live))"
    unfolding header_of_def [of "(p, n)"] fst_conv snd_conv .
  show "(p - 16, unat (nunits n)) \<notin> header_of ` set (filter (\<lambda>q. fst q \<noteq> p) live)"
  proof
    assume "(p - 16, unat (nunits n)) \<in> header_of ` set (filter (\<lambda>q. fst q \<noteq> p) live)"
    then obtain q where q: "q \<in> set live" "fst q \<noteq> p" "fst q - 16 = p - 16" by (auto simp: header_of_def)
    then have "q = (p, n)" using header_inj [OF assms(1) q(1) assms(2)] by simp
    then show False using q(2) by simp
  qed
  show "client_ok (filter (\<lambda>q. fst q \<noteq> p) live)"
    using assms(1) by (auto simp: client_ok_def distinct_map_filter)
  have "16 \<le> fst (p, n)" using assms unfolding client_ok_def by blast
  then show "16 \<le> p" by simp
qed

lemma wp_um_run:
  assumes sb: "sbrk_ok sbrk taken b" and fuel: "2 ^ 28 \<le> fuel"
    and "um_inv taken b (header_of ` set live) s" "client_ok live" "\<forall>n. Malloc n \<in> set ops \<longrightarrow> unat n \<le> 2 ^ 31 - 48"
  shows "wp (um_run fuel sbrk ops live) (\<lambda>live t. um_inv taken b (header_of ` set live) t \<and> client_ok live) s"
  using assms(3-5)
proof (induction ops arbitrary: live s)
  case Nil
  then show ?case by (simp add: wp_rules)
next
  case (Cons c ops)
  have ops: "\<forall>n. Malloc n \<in> set ops \<longrightarrow> unat n \<le> 2 ^ 31 - 48" using Cons.prems(3) by simp
  show ?case
  proof (cases c)
    case (Malloc n)
    have b: "0 < b" "b + 16 \<le> MAXADDR" using Cons.prems(1) by (simp_all add: um_inv_def)
    have n: "unat n \<le> 2 ^ 31 - 48" using Cons.prems(3) Malloc by auto
    show ?thesis
      unfolding Malloc um_run.simps wp_obind
    proof (rule wp_mono [OF wp_malloc [OF sb Cons.prems(1) n fuel]])
      fix r t
      assume a: "allocated taken b (header_of ` set live) (unat (nunits n)) r t"
      have "um_inv taken b (header_of ` set (if r = 0 then live else (r, n) # live)) t \<and> client_ok (if r = 0 then live else (r, n) # live)"
        using allocated_inv [OF a b]
      proof (elim disjE conjE)
        assume r: "16 \<le> r" "(r - 16, unat (nunits n)) \<notin> header_of ` set live"
          and inv: "um_inv taken b (insert (r - 16, unat (nunits n)) (header_of ` set live)) t"
        then obtain bs where ok: "heap_ok (taken (env t)) (insert (r - 16, unat (nunits n)) (header_of ` set live)) bs t"
          by (auto simp: um_inv_def)
        have "fst q \<noteq> r" if q: "q \<in> set live" for q
        proof
          assume e: "fst q = r"
          have "unat (usize t (r - 16)) = unat (nunits n)" "unat (usize t (r - 16)) = unat (nunits (snd q))"
            using heap_ok_live(1) [OF ok] q e by (auto simp: header_of_def)
          then have "header_of q = (r - 16, unat (nunits n))" using e by (simp add: header_of_def)
          then show False using r(2) q by force
        qed
        then show ?thesis using r(1) inv n Cons.prems(2) by (auto simp: client_ok_def header_of_def)
      qed (use Cons.prems in simp)
      then show "wp (um_run fuel sbrk ops (if r = 0 then live else (r, n) # live))
          (\<lambda>live t. um_inv taken b (header_of ` set live) t \<and> client_ok live) t"
        using Cons.IH [OF _ _ ops] by blast
    qed
  next
    case (Free p)
    show ?thesis
    proof (cases "p \<in> fst ` set live")
      case True
      then obtain n where "(p, n) \<in> set live" by auto
      note h = header_remove [OF Cons.prems(2) this]
      have "wp (ufree fuel p) (\<lambda>_. um_inv taken b (header_of ` set (filter (\<lambda>q. fst q \<noteq> p) live))) s"
        using wp_ufree_inv [of taken b "p - 16" "unat (nunits n)" _ s fuel] Cons.prems(1) h fuel by simp
      then show ?thesis
        using True Free Cons.IH [OF _ h(3) ops] by (auto simp: wp_oseq elim!: wp_mono)
    next
      case False
      then show ?thesis using Free Cons.IH [OF Cons.prems(1,2) ops] by simp
    qed
  qed
qed

lemma payload_in_block:
  assumes "16 \<le> p" "unat n \<le> 2 ^ 31 - 48"
  shows "{p..<p + unat n} \<subseteq> block (header_of (p, n))"
proof -
  have "unat n \<le> 16 * ((unat n + 15) div 16)" by linarith
  then show ?thesis using assms(1) unat_nunits [OF assms(2)] by (auto simp: block_def header_of_def)
qed

text \<open>C5: the user-level allocator never hands out memory twice.  For every sequence of calls of
  \<open>malloc\<close> and \<open>free\<close> in which the program releases only pointers it holds, and in which no request
  exceeds two gigabytes, all calls return; the pointers the program then holds are different, the
  bytes it asked for lie in memory obtained from \<open>sbrk\<close> and do not overlap, and that memory consists
  exactly of the free blocks on the circular list and the blocks held, all disjoint, so nothing is
  lost.\<close>

theorem malloc_blocks_disjoint:
  assumes "sbrk_ok sbrk taken (um_base s)" "0 < um_base s" "um_base s + 16 \<le> MAXADDR"
    and "freep s = 0" "taken (env s) = {}" "2 ^ 28 \<le> fuel"
    and "\<forall>n. Malloc n \<in> set ops \<longrightarrow> unat n \<le> 2 ^ 31 - 48"
  shows "wp (um_run fuel sbrk ops []) (\<lambda>live t. distinct (map fst live) \<and>
     (\<forall>(p, n) \<in> set live. {p..<p + unat n} \<subseteq> taken (env t)) \<and>
     (\<forall>(p, n) \<in> set live. \<forall>(q, m) \<in> set live. p \<noteq> q \<longrightarrow> {p..<p + unat n} \<inter> {q..<q + unat m} = {}) \<and>
     (freep t = 0 \<or> (\<exists>bs. flist t bs \<and> (\<forall>q \<in> set live. block (header_of q) \<inter> bytes bs = {}) \<and>
        bytes bs \<union> (\<Union>q \<in> set live. block (header_of q)) = taken (env t)))) s"
proof (rule wp_mono)
  have "um_inv taken (um_base s) (header_of ` set []) s" "client_ok []"
    using assms by (simp_all add: um_inv_def client_ok_def)
  then show "wp (um_run fuel sbrk ops []) (\<lambda>live t. um_inv taken (um_base s) (header_of ` set live) t \<and> client_ok live) s"
    using wp_um_run [where taken = taken, OF assms(1,6) _ _ assms(7)] by blast
next
  fix live t
  assume *: "um_inv taken (um_base s) (header_of ` set live) t \<and> client_ok live"
  have pay: "{p..<p + unat n} \<subseteq> block (header_of (p, n))" if "(p, n) \<in> set live" for p n
    using * that by (intro payload_in_block) (auto simp: client_ok_def)
  have d: "distinct (map fst live)" using * by (simp add: client_ok_def)
  consider "freep t = 0" "live = []" | bs where "heap_ok (taken (env t)) (header_of ` set live) bs t"
    using * by (auto simp: um_inv_def)
  then show "distinct (map fst live) \<and> (\<forall>(p, n) \<in> set live. {p..<p + unat n} \<subseteq> taken (env t)) \<and>
     (\<forall>(p, n) \<in> set live. \<forall>(q, m) \<in> set live. p \<noteq> q \<longrightarrow> {p..<p + unat n} \<inter> {q..<q + unat m} = {}) \<and>
     (freep t = 0 \<or> (\<exists>bs. flist t bs \<and> (\<forall>q \<in> set live. block (header_of q) \<inter> bytes bs = {}) \<and>
        bytes bs \<union> (\<Union>q \<in> set live. block (header_of q)) = taken (env t)))"
  proof cases
    case (2 bs)
    have "{p..<p + unat n} \<subseteq> taken (env t)" if "(p, n) \<in> set live" for p n
      using pay [OF that] 2 that unfolding heap_ok_def by blast
    moreover have "{p..<p + unat n} \<inter> {q..<q + unat m} = {}" if "(p, n) \<in> set live" "(q, m) \<in> set live" "p \<noteq> q" for p n q m
    proof -
      have "header_of (p, n) \<noteq> header_of (q, m)"
        using header_inj [of live "(p, n)" "(q, m)"] * that by (auto simp: header_of_def)
      then have "block (header_of (p, n)) \<inter> block (header_of (q, m)) = {}"
        using heap_ok_disjoint [OF 2] that by blast
      then show ?thesis using pay [OF that(1)] pay [OF that(2)] by blast
    qed
    moreover have "flist t bs \<and> (\<forall>q \<in> set live. block (header_of q) \<inter> bytes bs = {}) \<and>
        bytes bs \<union> (\<Union>q \<in> set live. block (header_of q)) = taken (env t)"
      using 2 by (simp add: heap_ok_def)
    ultimately show ?thesis using d by blast
  qed simp
qed

text \<open>\<open>sbrk\<close> as the comment on \<open>sys_sbrk\<close> describes it, for a heap that starts at 12288 and has grown by
  \<open>e\<close> bytes: it moves the end of the heap and returns the old end.\<close>

definition demo_sbrk :: "nat sbrk" where
  "demo_sbrk n e = (if n < 0 \<or> MAXADDR < 12288 + e + nat n then (None, e) else (Some (12288 + e), e + nat n))"

definition demo_um :: "nat um" where
  "demo_um = \<lparr>uptr = (\<lambda>_. 0), usize = (\<lambda>_. 0), freep = 0, um_base = 8192, env = 0\<rparr>"

theorem malloc_blocks_disjoint_witness:
  "wp (um_run (2 ^ 28) demo_sbrk [Malloc 100, Malloc 5000, Free 77712, Malloc 30] []) (\<lambda>live t. distinct (map fst live) \<and>
     (\<forall>(p, n) \<in> set live. \<forall>(q, m) \<in> set live. p \<noteq> q \<longrightarrow> {p..<p + unat n} \<inter> {q..<q + unat m} = {})) demo_um"
proof -
  let ?ops = "[Malloc 100, Malloc 5000, Free 77712, Malloc 30]"
  have sb: "sbrk_ok demo_sbrk (\<lambda>e. {12288..<12288 + e}) (um_base demo_um)"
    by (auto simp: sbrk_ok_def demo_sbrk_def demo_um_def)
  have um: "0 < um_base demo_um" "um_base demo_um + 16 \<le> MAXADDR" "freep demo_um = 0" "{12288..<12288 + env demo_um} = {}"
    by (simp_all add: demo_um_def MAXADDR_def)
  have ops: "\<forall>n. Malloc n \<in> set ?ops \<longrightarrow> unat n \<le> 2 ^ 31 - 48"
    by simp
  show ?thesis
    by (rule wp_mono [OF malloc_blocks_disjoint [where taken = "\<lambda>e. {12288..<12288 + e}", OF sb um order_refl ops]]) (elim conjE, intro conjI)
qed

text \<open>A request near the largest 32-bit number asks \<open>sbrk\<close> for 16 bytes, because the product with the
  size of a header is passed as an \<open>int\<close>; the new block's header then claims 268435457 units.\<close>

lemma sbrk_request_truncated: "nunits 0xFFFFFFFF = 268435457" "sint (nunits 0xFFFFFFFF * 16) = 16"
  by (code_simp, code_simp)

end
