(* ===== verification/Spec2Isabelle.thy ===== *)
theory Spec2Isabelle
  imports Sched PageMap Grep ShRun Ide LineEdit Umalloc
begin

text \<open>
  The kernel xk (\<open>src/kernel\<close>), its user library and its file-system builder.
\<close>

end
